theory Spec2Isabelle
  imports
    Main
    "HOL-Library.Word"
    "HOL-Library.Multiset"
    "HOL-Library.List_Lexorder"
    "HOL-Library.Char_ord"
begin

unbundle bit_operations_syntax

section \<open>The B+tree of internal/index/btree.go\<close>

text \<open>
  \<^verbatim>\<open>type Key []byte\<close> and \<^verbatim>\<open>type Value []byte\<close>: a byte is a \<^typ>\<open>char\<close>, a byte
  slice a \<^typ>\<open>string\<close>.  With \<open>Char_ord\<close> and \<open>List_Lexorder\<close> the order \<open><\<close> on
  \<^typ>\<open>string\<close> is the byte-wise lexicographic order of \<^verbatim>\<open>bytes.Compare\<close>, and
  \<^verbatim>\<open>bytes.Equal\<close> is \<open>=\<close> (a nil slice and an empty slice are both \<open>[]\<close>; where the
  code tests a key against nil, the model uses an option).
\<close>

type_synonym Key = string
type_synonym Value = string

text \<open>
  \<^verbatim>\<open>type Node struct\<close>.  Nodes live in a store indexed by addresses; a \<^verbatim>\<open>*Node\<close> is an
  address, a nil pointer is \<open>None\<close>.  The field \<^verbatim>\<open>values\<close> is \<open>vals\<close> and \<^verbatim>\<open>next\<close> is
  \<open>nxt\<close> here.  The entries of \<^verbatim>\<open>children\<close> are never nil in the source (the nil that
  \<^verbatim>\<open>insertInParent\<close> appends is overwritten before it returns), so they are addresses.
\<close>

record node =
  isLeaf :: bool
  keys :: "Key list"
  vals :: "Value list list"
  children :: "nat list"
  nxt :: "nat option"
  parent :: "nat option"

text \<open>
  \<^verbatim>\<open>type BTree struct { root *Node; order int }\<close> together with the part of the Go heap
  that holds its nodes: \<open>heap\<close> maps an address to the node stored there and \<open>nalloc\<close> is
  the next address that an allocation \<^verbatim>\<open>&Node{...}\<close> returns.  \<^verbatim>\<open>order\<close> is a 64-bit
  \<^verbatim>\<open>int\<close>.
\<close>

record BTree =
  root :: "nat option"
  order :: "64 word"
  heap :: "nat \<Rightarrow> node"
  nalloc :: nat

definition blank :: node where
  "blank = \<lparr>isLeaf = True, keys = [], vals = [], children = [], nxt = None, parent = None\<rparr>"

definition NewBPlusTree :: "64 word \<Rightarrow> BTree" where
  "NewBPlusTree ord =
     \<lparr>root = Some 0, order = ord,
      heap = (\<lambda>_. blank)(0 := \<lparr>isLeaf = True, keys = [], vals = [], children = [],
                                 nxt = None, parent = None\<rparr>),
      nalloc = 1\<rparr>"

text \<open>
  \<^verbatim>\<open>len(node.keys) > tree.order*2-1\<close>: the right-hand side is computed in 64-bit
  arithmetic and read as a signed number.
\<close>

definition overfull :: "64 word \<Rightarrow> Key list \<Rightarrow> bool" where
  "overfull ord ks \<longleftrightarrow> int (length ks) > sint (ord * 2 - 1)"

text \<open>
  \<^verbatim>\<open>findLeaf\<close>: the first index \<open>i\<close> with \<open>key < keys[i]\<close> selects \<open>children[i]\<close>
  (a panic, \<open>None\<close>, when that index is out of range); without such an index the last
  child is taken (a panic when there is none).
\<close>

partial_function (option) findLeaf :: "(nat \<Rightarrow> node) \<Rightarrow> nat \<Rightarrow> Key \<Rightarrow> nat option" where
  "findLeaf h a key =
     (if isLeaf (h a) then Some a
      else
        (let i = length (takeWhile (\<lambda>k. \<not> key < k) (keys (h a))) in
         if i < length (keys (h a))
         then (if i < length (children (h a)) then findLeaf h (children (h a) ! i) key else None)
         else (if children (h a) = [] then None else findLeaf h (last (children (h a))) key)))"

declare findLeaf.simps [code]

text \<open>
  \<^verbatim>\<open>insertInLeaf\<close>: \<open>pos\<close> is the first position whose key is not below \<open>key\<close>.
  \<^verbatim>\<open>leaf.values[pos]\<close> and the slice \<^verbatim>\<open>leaf.values[pos+1:]\<close> of the extended slice panic
  when \<open>values\<close> is too short.
\<close>

definition insertInLeaf :: "BTree \<Rightarrow> nat \<Rightarrow> Key \<Rightarrow> Value \<Rightarrow> BTree option" where
  "insertInLeaf tree leaf key val =
     (let nd = heap tree leaf;
          pos = length (takeWhile (\<lambda>k. k < key) (keys nd))
      in
        if pos < length (keys nd) \<and> keys nd ! pos = key
        then
          (if pos < length (vals nd)
           then Some (tree\<lparr>heap := (heap tree)
                   (leaf := nd\<lparr>vals := (vals nd)[pos := vals nd ! pos @ [val]]\<rparr>)\<rparr>)
           else None)
        else
          (if pos \<le> length (vals nd)
           then Some (tree\<lparr>heap := (heap tree)
                   (leaf := nd\<lparr>keys := take pos (keys nd) @ key # drop pos (keys nd),
                               vals := take pos (vals nd) @ [val] # drop pos (vals nd)\<rparr>)\<rparr>)
           else None))"

text \<open>
  \<^verbatim>\<open>splitInternal\<close> up to its final call of \<^verbatim>\<open>insertInParent\<close>: the new right node is
  allocated, the children that move to it get it as parent, the old node keeps the left
  part.  The result is the new state, the key to push up and the address of the new node.
\<close>

definition splitInternalStep :: "BTree \<Rightarrow> nat \<Rightarrow> (BTree \<times> Key \<times> nat) option" where
  "splitInternalStep tree a =
     (let nd = heap tree a;
          mid = length (keys nd) div 2
      in
        if \<not> mid < length (keys nd) then None
        else if \<not> mid + 1 \<le> length (children nd) then None
        else
          (let keyToPushUp = keys nd ! mid;
               n = nalloc tree;
               newNode = \<lparr>isLeaf = False, keys = drop (mid + 1) (keys nd), vals = [],
                          children = drop (mid + 1) (children nd), nxt = None,
                          parent = parent nd\<rparr>;
               h1 = (heap tree)(n := newNode);
               h2 = fold (\<lambda>c h. h(c := (h c)\<lparr>parent := Some n\<rparr>)) (children newNode) h1;
               h3 = h2(a := (h2 a)\<lparr>keys := take mid (keys (h2 a)),
                                    children := take (mid + 1) (children (h2 a))\<rparr>)
           in Some (tree\<lparr>heap := h3, nalloc := n + 1\<rparr>, keyToPushUp, n)))"

text \<open>
  \<^verbatim>\<open>insertInParent\<close>, with the recursion through \<^verbatim>\<open>splitInternal\<close> going up the parent
  pointers.
\<close>

partial_function (option) insertInParent :: "BTree \<Rightarrow> nat \<Rightarrow> Key \<Rightarrow> nat \<Rightarrow> BTree option" where
  "insertInParent tree left key right =
     (case parent (heap tree left) of
        None \<Rightarrow>
          (let n = nalloc tree;
               newRoot = \<lparr>isLeaf = False, keys = [key], vals = [], children = [left, right],
                          nxt = None, parent = None\<rparr>;
               h1 = (heap tree)(n := newRoot);
               h2 = h1(left := (h1 left)\<lparr>parent := Some n\<rparr>);
               h3 = h2(right := (h2 right)\<lparr>parent := Some n\<rparr>)
           in Some (tree\<lparr>root := Some n, heap := h3, nalloc := n + 1\<rparr>))
      | Some p \<Rightarrow>
          (let pn = heap tree p;
               pos = length (takeWhile (\<lambda>k. k < key) (keys pn))
           in
             if \<not> pos + 1 \<le> length (children pn) then None
             else
               (let h1 = (heap tree)
                           (p := pn\<lparr>keys := take pos (keys pn) @ key # drop pos (keys pn),
                                    children := take (pos + 1) (children pn) @
                                                right # drop (pos + 1) (children pn)\<rparr>);
                    h2 = h1(right := (h1 right)\<lparr>parent := Some p\<rparr>);
                    t2 = tree\<lparr>heap := h2\<rparr>
                in
                  if overfull (order tree) (keys (h2 p))
                  then
                    (case splitInternalStep t2 p of
                       None \<Rightarrow> None
                     | Some (t3, keyToPushUp, newNode) \<Rightarrow> insertInParent t3 p keyToPushUp newNode)
                  else Some t2)))"

declare insertInParent.simps [code]

definition splitInternal :: "BTree \<Rightarrow> nat \<Rightarrow> BTree option" where
  "splitInternal tree a =
     (case splitInternalStep tree a of
        None \<Rightarrow> None
      | Some (t3, keyToPushUp, newNode) \<Rightarrow> insertInParent t3 a keyToPushUp newNode)"

text \<open>\<^verbatim>\<open>splitLeaf\<close>; \<^verbatim>\<open>newLeaf.keys[0]\<close> panics when the new leaf has no key.\<close>

definition splitLeaf :: "BTree \<Rightarrow> nat \<Rightarrow> BTree option" where
  "splitLeaf tree leaf =
     (let nd = heap tree leaf;
          mid = length (keys nd) div 2
      in
        if \<not> mid \<le> length (vals nd) then None
        else
          (let n = nalloc tree;
               newLeaf = \<lparr>isLeaf = True, keys = drop mid (keys nd), vals = drop mid (vals nd),
                          children = [], nxt = nxt nd, parent = parent nd\<rparr>;
               h1 = (heap tree)(n := newLeaf);
               h2 = h1(leaf := (h1 leaf)\<lparr>keys := take mid (keys (h1 leaf)),
                                          vals := take mid (vals (h1 leaf)),
                                          nxt := Some n\<rparr>)
           in
             (case keys newLeaf of
                [] \<Rightarrow> None
              | k0 # _ \<Rightarrow> insertInParent (tree\<lparr>heap := h2, nalloc := n + 1\<rparr>) leaf k0 n)))"

text \<open>
  \<^verbatim>\<open>Insert\<close>.  With a nil root the source inserts into a fresh tree that it then drops and
  goes on to \<^verbatim>\<open>findLeaf(nil, key)\<close>, which dereferences nil: a panic.
\<close>

definition Insert :: "BTree \<Rightarrow> Key \<Rightarrow> Value \<Rightarrow> BTree option" where
  "Insert tree key val =
     (case root tree of
        None \<Rightarrow> None
      | Some r \<Rightarrow>
          (case findLeaf (heap tree) r key of
             None \<Rightarrow> None
           | Some leaf \<Rightarrow>
               (case insertInLeaf tree leaf key val of
                  None \<Rightarrow> None
                | Some t1 \<Rightarrow>
                    if overfull (order t1) (keys (heap t1 leaf)) then splitLeaf t1 leaf
                    else Some t1)))"

text \<open>\<^verbatim>\<open>Search\<close>: the value list of the first key of the leaf equal to \<open>key\<close>, else nil.\<close>

fun leafLookup :: "Key list \<Rightarrow> Value list list \<Rightarrow> nat \<Rightarrow> Key \<Rightarrow> Value list option" where
  "leafLookup [] vs i key = Some []"
| "leafLookup (k # ks) vs i key =
     (if k = key then (if i < length vs then Some (vs ! i) else None)
      else leafLookup ks vs (i + 1) key)"

definition Search :: "BTree \<Rightarrow> Key \<Rightarrow> Value list option" where
  "Search tree key =
     (case root tree of
        None \<Rightarrow> Some []
      | Some r \<Rightarrow>
          (case findLeaf (heap tree) r key of
             None \<Rightarrow> None
           | Some leaf \<Rightarrow> leafLookup (keys (heap tree leaf)) (vals (heap tree leaf)) 0 key))"

text \<open>\<^verbatim>\<open>findLeftmostLeaf\<close>, called on a non-nil node.\<close>

partial_function (option) findLeftmostLeaf :: "(nat \<Rightarrow> node) \<Rightarrow> nat \<Rightarrow> nat option" where
  "findLeftmostLeaf h a =
     (if isLeaf (h a) then Some a
      else if children (h a) \<noteq> [] then findLeftmostLeaf h (hd (children (h a)))
      else Some a)"

declare findLeftmostLeaf.simps [code]

text \<open>
  \<^verbatim>\<open>RangeSearch\<close>.  \<open>rangeKeys\<close> is the inner loop over the keys of one leaf; its
  boolean result tells that the function returned from inside the loop.  \<open>rangeLeaves\<close>
  is the outer loop over the sibling chain.  A bound that is nil is \<open>None\<close>.
\<close>

fun rangeKeys ::
  "Key option \<Rightarrow> Key option \<Rightarrow> bool \<Rightarrow> bool \<Rightarrow> Value list list \<Rightarrow> nat \<Rightarrow> Key list \<Rightarrow>
   Value list \<Rightarrow> (bool \<times> Value list) option" where
  "rangeKeys start end includeStart includeEnd vs i [] result = Some (False, result)"
| "rangeKeys start end includeStart includeEnd vs i (k # ks) result =
     (if (case start of None \<Rightarrow> False
          | Some s \<Rightarrow> k < s \<or> (k = s \<and> \<not> includeStart))
      then rangeKeys start end includeStart includeEnd vs (i + 1) ks result
      else if (case end of None \<Rightarrow> False
               | Some e \<Rightarrow> k > e \<or> (k = e \<and> \<not> includeEnd))
      then Some (True, result)
      else if i < length vs
      then rangeKeys start end includeStart includeEnd vs (i + 1) ks (result @ vs ! i)
      else None)"

partial_function (option) rangeLeaves ::
  "(nat \<Rightarrow> node) \<Rightarrow> Key option \<Rightarrow> Key option \<Rightarrow> bool \<Rightarrow> bool \<Rightarrow> nat option \<Rightarrow>
   Value list \<Rightarrow> Value list option" where
  "rangeLeaves h start end includeStart includeEnd leaf result =
     (case leaf of
        None \<Rightarrow> Some result
      | Some a \<Rightarrow>
          (case rangeKeys start end includeStart includeEnd (vals (h a)) 0 (keys (h a)) result of
             None \<Rightarrow> None
           | Some (returned, result') \<Rightarrow>
               if returned then Some result'
               else if end \<noteq> None \<and> keys (h a) \<noteq> [] \<and> last (keys (h a)) \<ge> the end
               then Some result'
               else rangeLeaves h start end includeStart includeEnd (nxt (h a)) result'))"

declare rangeLeaves.simps [code]

definition RangeSearch ::
  "BTree \<Rightarrow> Key option \<Rightarrow> Key option \<Rightarrow> bool \<Rightarrow> bool \<Rightarrow> Value list option" where
  "RangeSearch tree start end includeStart includeEnd =
     (case root tree of
        None \<Rightarrow> Some []
      | Some r \<Rightarrow>
          (case (case start of None \<Rightarrow> findLeftmostLeaf (heap tree) r
                 | Some s \<Rightarrow> findLeaf (heap tree) r s) of
             None \<Rightarrow> None
           | Some startLeaf \<Rightarrow>
               rangeLeaves (heap tree) start end includeStart includeEnd (Some startLeaf) []))"

definition SearchGreaterThan :: "BTree \<Rightarrow> Key \<Rightarrow> Value list option" where
  "SearchGreaterThan tree key = RangeSearch tree (Some key) None False False"

definition SearchLessThan :: "BTree \<Rightarrow> Key \<Rightarrow> Value list option" where
  "SearchLessThan tree key = RangeSearch tree None (Some key) False False"

text \<open>\<^verbatim>\<open>SearchIn\<close>: the concatenation of the point lookups, in the order of the argument.\<close>

fun SearchIn :: "BTree \<Rightarrow> Key list \<Rightarrow> Value list option" where
  "SearchIn tree [] = Some []"
| "SearchIn tree (key # ks) =
     (case Search tree key of
        None \<Rightarrow> None
      | Some values \<Rightarrow> (case SearchIn tree ks of None \<Rightarrow> None | Some rest \<Rightarrow> Some (values @ rest)))"

text \<open>A tree built from \<^verbatim>\<open>NewBPlusTree(order)\<close> by a sequence of \<^verbatim>\<open>Insert\<close> calls.\<close>

fun insertAll :: "BTree \<Rightarrow> (Key \<times> Value) list \<Rightarrow> BTree option" where
  "insertAll tree [] = Some tree"
| "insertAll tree ((k, v) # kvs) =
     (case Insert tree k v of None \<Rightarrow> None | Some tree' \<Rightarrow> insertAll tree' kvs)"


section \<open>Values, documents and the document store\<close>

text \<open>
  A decoded dynamic value (Go's \<^verbatim>\<open>any\<close>): nil, \<^verbatim>\<open>bool\<close>, the 64-bit integers
  (\<^verbatim>\<open>int\<close>, \<^verbatim>\<open>int64\<close>), \<^verbatim>\<open>float64\<close> as its IEEE-754 bit pattern, \<^verbatim>\<open>string\<close>,
  \<^verbatim>\<open>[]any\<close> and \<^verbatim>\<open>map[string]any\<close>.  A Go map is an association list that is read
  with \<^const>\<open>map_of\<close>; the order of the list stands for the unspecified iteration order.
\<close>

datatype jvalue =
    JNull
  | JBool bool
  | JInt "64 word"
  | JFloat "64 word"
  | JStr string
  | JArr "jvalue list"
  | JObj "(string \<times> jvalue) list"

type_synonym Document = "(string \<times> jvalue) list"

text \<open>\<^verbatim>\<open>m[k] = v\<close> on a Go map: replace the entry, or add one.\<close>

fun mapPut :: "'k \<Rightarrow> 'v \<Rightarrow> ('k \<times> 'v) list \<Rightarrow> ('k \<times> 'v) list" where
  "mapPut k v [] = [(k, v)]"
| "mapPut k v ((k', v') # m) = (if k' = k then (k, v) # m else (k', v') # mapPut k v m)"

text \<open>\<^verbatim>\<open>len(m)\<close> and the keys of a Go map.\<close>

definition mapKeys :: "('k \<times> 'v) list \<Rightarrow> 'k list" where
  "mapKeys m = remdups (map fst m)"

text \<open>
  Modelled from the spec: \<^verbatim>\<open>HashMap\<close> of internal/storage (its source file is not part
  of the sources at hand).  Section 4.1: an insertion-order-preserving mapping from
  document id to document; \<open>put\<close> inserts or replaces and keeps the first-seen position,
  \<open>get\<close> returns the document or absent, \<open>remove\<close> tells whether something was removed,
  \<open>items\<close> yields the pairs in insertion order.
\<close>

type_synonym HashMap = "(string \<times> jvalue) list"

definition NewHashMap :: HashMap where
  "NewHashMap = []"

definition Put :: "HashMap \<Rightarrow> string \<Rightarrow> jvalue \<Rightarrow> HashMap" where
  "Put m k v = mapPut k v m"

definition Get :: "HashMap \<Rightarrow> string \<Rightarrow> jvalue option" where
  "Get m k = map_of m k"

definition Remove :: "HashMap \<Rightarrow> string \<Rightarrow> HashMap \<times> bool" where
  "Remove m k = (filter (\<lambda>(k', v). k' \<noteq> k) m, map_of m k \<noteq> None)"

definition Items :: "HashMap \<Rightarrow> (string \<times> jvalue) list" where
  "Items m = m"

section \<open>The collection of internal/storage/collection.go\<close>

text \<open>\<^verbatim>\<open>IndexFile\<close> and \<^verbatim>\<open>SerializedNode\<close>, as decoded from and encoded to JSON.\<close>

record SerializedNode =
  IsLeaf :: bool
  Keys :: "string list"
  Values :: "string list list"
  Children :: "int list"

record IndexFile =
  Field :: string
  Order :: "64 word"
  Nodes :: "SerializedNode list"

record Collection =
  Name :: string
  Data :: HashMap
  Indexes :: "(string \<times> BTree) list"

text \<open>
  The files under \<^verbatim>\<open>data/\<close>: the collection files and the index files by path, each
  with its decoded content, and the paths on which an operation of the file system
  fails.
\<close>

record Disk =
  dataFiles :: "(string \<times> (string \<times> jvalue) list) list"
  indexFiles :: "(string \<times> IndexFile) list"
  ioFails :: "string \<Rightarrow> bool"

datatype error =
    IndexAlreadyExists string
  | IndexDoesNotExist string
  | IOFailure string
  | Panic

definition NewCollection :: "string \<Rightarrow> Collection" where
  "NewCollection name = \<lparr>Name = name, Data = NewHashMap, Indexes = []\<rparr>"

definition GetByID :: "Collection \<Rightarrow> string \<Rightarrow> Document option" where
  "GetByID c ident =
     (case Get (Data c) ident of
        None \<Rightarrow> None
      | Some val \<Rightarrow> (case val of JObj doc \<Rightarrow> Some doc | _ \<Rightarrow> None))"

text \<open>\<^verbatim>\<open>updateIndexesOnDelete\<close> has an empty body.\<close>

definition updateIndexesOnDelete :: "Collection \<Rightarrow> string \<Rightarrow> Document \<Rightarrow> Collection" where
  "updateIndexesOnDelete c docID doc = c"

definition Delete :: "Collection \<Rightarrow> string \<Rightarrow> Collection \<times> bool" where
  "Delete c ident =
     (case GetByID c ident of
        None \<Rightarrow> (c, False)
      | Some doc \<Rightarrow>
          (let c1 = updateIndexesOnDelete c ident doc;
               (m, removed) = Remove (Data c1) ident
           in (c1\<lparr>Data := m\<rparr>, removed)))"

fun onlyDocs :: "(string \<times> jvalue) list \<Rightarrow> Document list" where
  "onlyDocs [] = []"
| "onlyDocs ((k, JObj doc) # items) = doc # onlyDocs items"
| "onlyDocs ((k, v) # items) = onlyDocs items"

definition All :: "Collection \<Rightarrow> Document list" where
  "All c = onlyDocs (Items (Data c))"

definition HasIndex :: "Collection \<Rightarrow> string \<Rightarrow> bool" where
  "HasIndex c fieldName \<longleftrightarrow> map_of (Indexes c) fieldName \<noteq> None"

definition GetIndex :: "Collection \<Rightarrow> string \<Rightarrow> BTree option" where
  "GetIndex c fieldName = map_of (Indexes c) fieldName"

text \<open>
  The loop that \<^verbatim>\<open>CreateIndex\<close> and \<^verbatim>\<open>RebuildAllIndexes\<close> share: every document with
  the field gets the entry (key of the field value, \<open>_id\<close>).  \<^verbatim>\<open>index.ValueToKey\<close> is not
  part of the sources at hand: it is the parameter \<open>enc\<close>, and \<open>None\<close> is a value that
  it does not encode.  The type assertion \<^verbatim>\<open>doc["_id"].(string)\<close> panics unless \<open>_id\<close> is
  a string.
\<close>

fun indexDocs ::
  "(jvalue \<Rightarrow> Key option) \<Rightarrow> string \<Rightarrow> Document list \<Rightarrow> BTree \<Rightarrow> BTree option" where
  "indexDocs enc fieldName [] btree = Some btree"
| "indexDocs enc fieldName (doc # docs) btree =
     (case map_of doc fieldName of
        None \<Rightarrow> indexDocs enc fieldName docs btree
      | Some fieldValue \<Rightarrow>
          (case map_of doc ''_id'' of
             Some (JStr docID) \<Rightarrow>
               (case enc fieldValue of
                  None \<Rightarrow> None
                | Some key \<Rightarrow>
                    (case Insert btree key docID of
                       None \<Rightarrow> None
                     | Some btree' \<Rightarrow> indexDocs enc fieldName docs btree'))
           | _ \<Rightarrow> None))"



text \<open>
  \<^verbatim>\<open>serializeBTree\<close>.  The first loop numbers the nodes breadth-first from the root
  (\<^verbatim>\<open>nodeIndexMap\<close>), the second loop emits them in the same order, skipping a node that
  it has visited; a child that the map does not hold reads as index 0.  The tree
  argument is never a nil pointer at the call sites.
\<close>

partial_function (option) numberNodes ::
  "(nat \<Rightarrow> node) \<Rightarrow> nat list \<Rightarrow> int \<Rightarrow> (nat \<Rightarrow> int option) \<Rightarrow> (nat \<Rightarrow> int option) option" where
  "numberNodes h queue idx nodeIndexMap =
     (case queue of
        [] \<Rightarrow> Some nodeIndexMap
      | a # rest \<Rightarrow>
          numberNodes h (if \<not> isLeaf (h a) then rest @ children (h a) else rest) (idx + 1)
            (nodeIndexMap(a \<mapsto> idx)))"

declare numberNodes.simps [code]

definition serializeNode :: "(nat \<Rightarrow> node) \<Rightarrow> (nat \<Rightarrow> int option) \<Rightarrow> nat \<Rightarrow> SerializedNode" where
  "serializeNode h nodeIndexMap a =
     \<lparr>IsLeaf = isLeaf (h a), Keys = keys (h a),
      Values = (if isLeaf (h a) then vals (h a) else []),
      Children = (if isLeaf (h a) then []
                  else map (\<lambda>c. case nodeIndexMap c of None \<Rightarrow> 0 | Some i \<Rightarrow> i)
                         (children (h a)))\<rparr>"

partial_function (option) serializeNodes ::
  "(nat \<Rightarrow> node) \<Rightarrow> (nat \<Rightarrow> int option) \<Rightarrow> nat list \<Rightarrow> nat set \<Rightarrow> SerializedNode list \<Rightarrow>
   SerializedNode list option" where
  "serializeNodes h nodeIndexMap queue visited nodes =
     (case queue of
        [] \<Rightarrow> Some nodes
      | a # rest \<Rightarrow>
          if a \<in> visited then serializeNodes h nodeIndexMap rest visited nodes
          else
            serializeNodes h nodeIndexMap
              (if isLeaf (h a) then rest else rest @ children (h a))
              (insert a visited) (nodes @ [serializeNode h nodeIndexMap a]))"

declare serializeNodes.simps [code]

definition serializeBTree :: "BTree \<Rightarrow> string \<Rightarrow> 64 word \<Rightarrow> IndexFile option" where
  "serializeBTree tree fieldName ord =
     (case root tree of
        None \<Rightarrow> Some \<lparr>Field = fieldName, Order = ord, Nodes = []\<rparr>
      | Some r \<Rightarrow>
          (case numberNodes (heap tree) [r] 0 Map.empty of
             None \<Rightarrow> None
           | Some nodeIndexMap \<Rightarrow>
               (case serializeNodes (heap tree) nodeIndexMap [r] {} [] of
                  None \<Rightarrow> None
                | Some nodes \<Rightarrow> Some \<lparr>Field = fieldName, Order = ord, Nodes = nodes\<rparr>)))"

text \<open>
  \<^verbatim>\<open>deserializeBTree\<close>.  Node \<open>i\<close> of the file is built at address \<open>i\<close>; then the
  children are linked (\<^verbatim>\<open>nodes[childIdx]\<close> panics on a negative index), then the leaves
  are chained in the order of the file.  \<^verbatim>\<open>NewBPlusTree(data.Order)\<close> allocates one more
  leaf, which \<^verbatim>\<open>SetRoot(nodes[0])\<close> leaves unreachable.
\<close>

definition buildNode :: "SerializedNode \<Rightarrow> node" where
  "buildNode sn =
     \<lparr>isLeaf = IsLeaf sn, keys = Keys sn,
      vals = (if IsLeaf sn \<and> Values sn \<noteq> [] then Values sn else []),
      children = [], nxt = None, parent = None\<rparr>"

fun addChildren :: "nat \<Rightarrow> nat \<Rightarrow> int list \<Rightarrow> (nat \<Rightarrow> node) \<Rightarrow> (nat \<Rightarrow> node) option" where
  "addChildren n i [] h = Some h"
| "addChildren n i (childIdx # cs) h =
     (if childIdx < int n
      then
        (if childIdx < 0 then None
         else
           (let c = nat childIdx;
                h1 = h(i := (h i)\<lparr>children := children (h i) @ [c]\<rparr>);
                h2 = h1(c := (h1 c)\<lparr>parent := Some i\<rparr>)
            in addChildren n i cs h2))
      else addChildren n i cs h)"

fun linkChildren ::
  "nat \<Rightarrow> (nat \<times> SerializedNode) list \<Rightarrow> (nat \<Rightarrow> node) \<Rightarrow> (nat \<Rightarrow> node) option" where
  "linkChildren n [] h = Some h"
| "linkChildren n ((i, sn) # rest) h =
     (if \<not> IsLeaf sn \<and> Children sn \<noteq> []
      then (case addChildren n i (Children sn) h of
              None \<Rightarrow> None
            | Some h' \<Rightarrow> linkChildren n rest h')
      else linkChildren n rest h)"

fun linkNext :: "nat list \<Rightarrow> nat option \<Rightarrow> (nat \<Rightarrow> node) \<Rightarrow> (nat \<Rightarrow> node)" where
  "linkNext [] prevLeaf h = h"
| "linkNext (i # rest) prevLeaf h =
     (if isLeaf (h i)
      then linkNext rest (Some i)
             (case prevLeaf of None \<Rightarrow> h | Some p \<Rightarrow> h(p := (h p)\<lparr>nxt := Some i\<rparr>))
      else linkNext rest prevLeaf h)"

definition deserializeBTree :: "IndexFile \<Rightarrow> BTree option" where
  "deserializeBTree data =
     (if Nodes data = [] then Some (NewBPlusTree (Order data))
      else
        (let n = length (Nodes data);
             h0 = (\<lambda>i. if i < n then buildNode (Nodes data ! i) else blank)
         in
           (case linkChildren n (zip [0..<n] (Nodes data)) h0 of
              None \<Rightarrow> None
            | Some h1 \<Rightarrow>
                Some \<lparr>root = Some 0, order = Order data,
                      heap = linkNext [0..<n] None h1, nalloc = n + 1\<rparr>)))"

text \<open>The paths of the files of a collection.\<close>

definition indexDir :: string where
  "indexDir = ''data/indexes''"

definition indexPath :: "string \<Rightarrow> string \<Rightarrow> string" where
  "indexPath name fieldName = indexDir @ ''/'' @ name @ ''_'' @ fieldName @ ''.idx''"

definition dataPath :: "string \<Rightarrow> string" where
  "dataPath name = ''data/'' @ name @ ''.json''"

text \<open>\<^verbatim>\<open>SaveIndex\<close> always passes the order 64 to \<^verbatim>\<open>serializeBTree\<close>.\<close>

definition SaveIndex :: "Collection \<Rightarrow> Disk \<Rightarrow> string \<Rightarrow> error option \<times> Disk" where
  "SaveIndex c disk fieldName =
     (case map_of (Indexes c) fieldName of
        None \<Rightarrow> (Some (IndexDoesNotExist fieldName), disk)
      | Some btree \<Rightarrow>
          if ioFails disk indexDir then (Some (IOFailure indexDir), disk)
          else
            (case serializeBTree btree fieldName 64 of
               None \<Rightarrow> (Some Panic, disk)
             | Some indexData \<Rightarrow>
                 if ioFails disk (indexPath (Name c) fieldName)
                 then (Some (IOFailure (indexPath (Name c) fieldName)), disk)
                 else (None, disk\<lparr>indexFiles :=
                         mapPut (indexPath (Name c) fieldName) indexData (indexFiles disk)\<rparr>)))"

definition LoadIndex :: "Collection \<Rightarrow> Disk \<Rightarrow> string \<Rightarrow> error option \<times> Collection" where
  "LoadIndex c disk fieldName =
     (case map_of (indexFiles disk) (indexPath (Name c) fieldName) of
        None \<Rightarrow> (None, c)
      | Some indexData \<Rightarrow>
          if ioFails disk (indexPath (Name c) fieldName)
          then (Some (IOFailure (indexPath (Name c) fieldName)), c)
          else
            (case deserializeBTree indexData of
               None \<Rightarrow> (Some Panic, c)
             | Some btree \<Rightarrow> (None, c\<lparr>Indexes := mapPut fieldName btree (Indexes c)\<rparr>)))"

text \<open>
  \<^verbatim>\<open>LoadAllIndexes\<close>: the entries of the index directory whose name starts with the
  collection name and an underscore and has the extension \<^verbatim>\<open>.idx\<close>.
\<close>

definition fileExt :: "string \<Rightarrow> string" where
  "fileExt name =
     (if CHR ''.'' \<in> set name
      then CHR ''.'' # rev (takeWhile (\<lambda>c. c \<noteq> CHR ''.'') (rev name))
      else [])"

definition dirEntries :: "Disk \<Rightarrow> string list" where
  "dirEntries disk =
     filter (\<lambda>name. CHR ''/'' \<notin> set name)
       (map (\<lambda>(p, f). drop (length indexDir + 1) p)
          (filter (\<lambda>(p, f). take (length indexDir + 1) p = indexDir @ ''/'') (indexFiles disk)))"

definition entryField :: "Collection \<Rightarrow> string \<Rightarrow> string option" where
  "entryField c name =
     (let prefix = Name c @ ''_'' in
      if length name > length prefix \<and> take (length prefix) name = prefix \<and>
         fileExt name = ''.idx''
      then Some (drop (length prefix) (take (length name - 4) name))
      else None)"

fun loadEntries :: "Collection \<Rightarrow> Disk \<Rightarrow> string list \<Rightarrow> error option \<times> Collection" where
  "loadEntries c disk [] = (None, c)"
| "loadEntries c disk (name # entries) =
     (case entryField c name of
        None \<Rightarrow> loadEntries c disk entries
      | Some fieldName \<Rightarrow>
          (case LoadIndex c disk fieldName of
             (e, c') \<Rightarrow>
               (case e of Some err \<Rightarrow> (Some err, c') | None \<Rightarrow> loadEntries c' disk entries)))"

definition LoadAllIndexes :: "Collection \<Rightarrow> Disk \<Rightarrow> error option \<times> Collection" where
  "LoadAllIndexes c disk =
     (if dirEntries disk = [] then (None, c)
      else if ioFails disk indexDir then (Some (IOFailure indexDir), c)
      else loadEntries c disk (dirEntries disk))"

definition LoadCollection :: "Disk \<Rightarrow> string \<Rightarrow> error + Collection" where
  "LoadCollection disk name =
     (case map_of (dataFiles disk) (dataPath name) of
        None \<Rightarrow> Inr (NewCollection name)
      | Some raw \<Rightarrow>
          if ioFails disk (dataPath name) then Inl (IOFailure (dataPath name))
          else Inr ((NewCollection name)
                 \<lparr>Data := fold (\<lambda>(k, v) m. Put m k v) raw NewHashMap\<rparr>))"

definition Save :: "Collection \<Rightarrow> Disk \<Rightarrow> error option \<times> Disk" where
  "Save c disk =
     (if ioFails disk ''data'' then (Some (IOFailure ''data''), disk)
      else if ioFails disk (dataPath (Name c)) then (Some (IOFailure (dataPath (Name c))), disk)
      else (None, disk\<lparr>dataFiles := mapPut (dataPath (Name c)) (Items (Data c)) (dataFiles disk)\<rparr>))"

text \<open>
  \<^verbatim>\<open>CreateIndex\<close>: the result is the error, if any, and the collection and the disk as
  the call leaves them.
\<close>

definition CreateIndex ::
  "(jvalue \<Rightarrow> Key option) \<Rightarrow> Collection \<Rightarrow> Disk \<Rightarrow> string \<Rightarrow> 64 word \<Rightarrow>
   error option \<times> Collection \<times> Disk" where
  "CreateIndex enc c disk fieldName ord =
     (if map_of (Indexes c) fieldName \<noteq> None
      then (Some (IndexAlreadyExists fieldName), c, disk)
      else
        (case indexDocs enc fieldName (All c) (NewBPlusTree ord) of
           None \<Rightarrow> (Some Panic, c, disk)
         | Some btree \<Rightarrow>
             (let c' = c\<lparr>Indexes := mapPut fieldName btree (Indexes c)\<rparr>;
                  (e, disk') = SaveIndex c' disk fieldName
              in (e, c', disk'))))"

text \<open>
  \<^verbatim>\<open>RebuildAllIndexes\<close>: the field names are collected, the map of indexes is emptied,
  and every field gets a new tree of order 64 over the documents of the store.
\<close>

fun rebuildFields ::
  "(jvalue \<Rightarrow> Key option) \<Rightarrow> Collection \<Rightarrow> Disk \<Rightarrow> string list \<Rightarrow>
   error option \<times> Collection \<times> Disk" where
  "rebuildFields enc c disk [] = (None, c, disk)"
| "rebuildFields enc c disk (fieldName # fieldNames) =
     (case indexDocs enc fieldName (All c) (NewBPlusTree 64) of
        None \<Rightarrow> (Some Panic, c, disk)
      | Some btree \<Rightarrow>
          (case SaveIndex (c\<lparr>Indexes := mapPut fieldName btree (Indexes c)\<rparr>) disk fieldName of
             (e, disk') \<Rightarrow>
               (case e of
                  Some err \<Rightarrow> (Some err, c\<lparr>Indexes := mapPut fieldName btree (Indexes c)\<rparr>, disk')
                | None \<Rightarrow>
                    rebuildFields enc (c\<lparr>Indexes := mapPut fieldName btree (Indexes c)\<rparr>) disk'
                      fieldNames)))"

definition RebuildAllIndexes ::
  "(jvalue \<Rightarrow> Key option) \<Rightarrow> Collection \<Rightarrow> Disk \<Rightarrow> error option \<times> Collection \<times> Disk" where
  "RebuildAllIndexes enc c disk =
     rebuildFields enc (c\<lparr>Indexes := []\<rparr>) disk (mapKeys (Indexes c))"



section \<open>The commands (unnamed source part\_001: find, delete, create\_index)\<close>

text \<open>
  \<^verbatim>\<open>index.ValuesToStrings\<close> is not part of the sources at hand; it turns each
  \<^verbatim>\<open>[]byte\<close> into the \<^verbatim>\<open>string\<close> of the same bytes.
\<close>

definition ValuesToStrings :: "Value list \<Rightarrow> string list" where
  "ValuesToStrings values = values"


text \<open>
  The type switch of \<^verbatim>\<open>findWithIndex\<close> on the condition, which computes \<^verbatim>\<open>docIDs\<close>: a
  number, string or boolean is a point lookup; in a map the first of \<^verbatim>\<open>$gt\<close>, \<^verbatim>\<open>$lt\<close>,
  \<^verbatim>\<open>$eq\<close>, \<^verbatim>\<open>$in\<close> that is present decides, and the other entries of the map are not
  looked at; anything else leaves \<^verbatim>\<open>docIDs\<close> nil.  \<open>None\<close> is a panic.
\<close>

fun encodeAll :: "(jvalue \<Rightarrow> Key option) \<Rightarrow> jvalue list \<Rightarrow> Key list option" where
  "encodeAll enc [] = Some []"
| "encodeAll enc (v # vs) =
     (case enc v of
        None \<Rightarrow> None
      | Some k \<Rightarrow> (case encodeAll enc vs of None \<Rightarrow> None | Some ks \<Rightarrow> Some (k # ks)))"

definition pointLookup :: "(jvalue \<Rightarrow> Key option) \<Rightarrow> BTree \<Rightarrow> jvalue \<Rightarrow> string list option" where
  "pointLookup enc btree v =
     (case enc v of
        None \<Rightarrow> None
      | Some key \<Rightarrow> map_option ValuesToStrings (Search btree key))"

definition operatorLookup ::
  "(jvalue \<Rightarrow> Key option) \<Rightarrow> BTree \<Rightarrow> (string \<times> jvalue) list \<Rightarrow> string list option" where
  "operatorLookup enc btree v =
     (case map_of v ''$gt'' of
        Some gtValue \<Rightarrow>
          (case enc gtValue of
             None \<Rightarrow> None
           | Some key \<Rightarrow> map_option ValuesToStrings (SearchGreaterThan btree key))
      | None \<Rightarrow>
          (case map_of v ''$lt'' of
             Some ltValue \<Rightarrow>
               (case enc ltValue of
                  None \<Rightarrow> None
                | Some key \<Rightarrow> map_option ValuesToStrings (SearchLessThan btree key))
           | None \<Rightarrow>
               (case map_of v ''$eq'' of
                  Some eqValue \<Rightarrow> pointLookup enc btree eqValue
                | None \<Rightarrow>
                    (case map_of v ''$in'' of
                       Some inValues \<Rightarrow>
                         (case inValues of
                            JArr inArray \<Rightarrow>
                              (case encodeAll enc inArray of
                                 None \<Rightarrow> None
                               | Some ks \<Rightarrow> map_option ValuesToStrings (SearchIn btree ks))
                          | _ \<Rightarrow> Some [])
                     | None \<Rightarrow> Some []))))"

fun conditionLookup ::
  "(jvalue \<Rightarrow> Key option) \<Rightarrow> BTree \<Rightarrow> jvalue \<Rightarrow> string list option" where
  "conditionLookup enc btree (JFloat x) = pointLookup enc btree (JFloat x)"
| "conditionLookup enc btree (JInt x) = pointLookup enc btree (JInt x)"
| "conditionLookup enc btree (JStr x) = pointLookup enc btree (JStr x)"
| "conditionLookup enc btree (JBool x) = pointLookup enc btree (JBool x)"
| "conditionLookup enc btree (JObj v) = operatorLookup enc btree v"
| "conditionLookup enc btree JNull = Some []"
| "conditionLookup enc btree (JArr x) = Some []"

fun fetchDocs :: "Collection \<Rightarrow> string list \<Rightarrow> Document list" where
  "fetchDocs coll [] = []"
| "fetchDocs coll (ident # docIDs) =
     (case GetByID coll ident of
        Some doc \<Rightarrow> doc # fetchDocs coll docIDs
      | None \<Rightarrow> fetchDocs coll docIDs)"

definition findWithIndex ::
  "(jvalue \<Rightarrow> Key option) \<Rightarrow> Collection \<Rightarrow> string \<Rightarrow> jvalue \<Rightarrow> Document list option" where
  "findWithIndex enc coll field condition =
     (case GetIndex coll field of
        None \<Rightarrow> Some []
      | Some btree \<Rightarrow>
          (case conditionLookup enc btree condition of
             None \<Rightarrow> None
           | Some docIDs \<Rightarrow> Some (fetchDocs coll docIDs)))"

text \<open>
  \<^verbatim>\<open>findFullScan\<close>; \<^verbatim>\<open>operators.MatchDocument\<close> is not part of the sources at hand and
  is the parameter \<open>matches\<close>.
\<close>

definition findFullScan ::
  "(Document \<Rightarrow> (string \<times> jvalue) list \<Rightarrow> bool) \<Rightarrow> Collection \<Rightarrow> (string \<times> jvalue) list \<Rightarrow>
   Document list" where
  "findFullScan matches coll conditions = filter (\<lambda>doc. matches doc conditions) (All coll)"




text \<open>
  \<^verbatim>\<open>cmdDelete\<close>: every matching document with a string \<open>_id\<close> is deleted from the
  store, the collection is saved, and all indexes are rebuilt.  The result is the
  collection and the disk at the end and the number of deleted documents.
\<close>

fun deleteMatching ::
  "(Document \<Rightarrow> (string \<times> jvalue) list \<Rightarrow> bool) \<Rightarrow> (string \<times> jvalue) list \<Rightarrow> Document list \<Rightarrow>
   Collection \<Rightarrow> nat \<Rightarrow> Collection \<times> nat" where
  "deleteMatching matches conditions [] coll deletedCount = (coll, deletedCount)"
| "deleteMatching matches conditions (doc # docs) coll deletedCount =
     (if matches doc conditions
      then
        (case map_of doc ''_id'' of
           Some (JStr ident) \<Rightarrow>
             deleteMatching matches conditions docs (fst (Delete coll ident))
               (if snd (Delete coll ident) then deletedCount + 1 else deletedCount)
         | _ \<Rightarrow> deleteMatching matches conditions docs coll deletedCount)
      else deleteMatching matches conditions docs coll deletedCount)"

definition deleteAndRebuild ::
  "(jvalue \<Rightarrow> Key option) \<Rightarrow> (Document \<Rightarrow> (string \<times> jvalue) list \<Rightarrow> bool) \<Rightarrow> Collection \<Rightarrow>
   Disk \<Rightarrow> (string \<times> jvalue) list \<Rightarrow> error + (Collection \<times> Disk \<times> nat)" where
  "deleteAndRebuild enc matches coll disk conditions =
     (case deleteMatching matches conditions (All coll) coll 0 of
        (coll1, deletedCount) \<Rightarrow>
          (case Save coll1 disk of
             (e, disk1) \<Rightarrow>
               (case e of
                  Some err \<Rightarrow> Inl err
                | None \<Rightarrow>
                    (case RebuildAllIndexes enc coll1 disk1 of
                       (e', coll2, disk2) \<Rightarrow>
                         (case e' of
                            Some err \<Rightarrow> Inl err
                          | None \<Rightarrow> Inr (coll2, disk2, deletedCount))))))"

definition cmdDelete ::
  "(jvalue \<Rightarrow> Key option) \<Rightarrow> (Document \<Rightarrow> (string \<times> jvalue) list \<Rightarrow> bool) \<Rightarrow> Disk \<Rightarrow> string \<Rightarrow>
   (string \<times> jvalue) list \<Rightarrow> error + (Collection \<times> Disk \<times> nat)" where
  "cmdDelete enc matches disk dbName conditions =
     (case LoadCollection disk dbName of
        Inl e \<Rightarrow> Inl e
      | Inr coll \<Rightarrow>
          (case LoadAllIndexes coll disk of
             (e, coll') \<Rightarrow>
               (case e of
                  Some err \<Rightarrow> Inl err
                | None \<Rightarrow> deleteAndRebuild enc matches coll' disk conditions)))"



section \<open>Key encoding and matching\<close>

text \<open>
  Modelled from the spec: \<^verbatim>\<open>index.ValueToKey\<close> (internal/index; its source file is not
  part of the sources at hand).  Section 3, key encoding: a one-byte type tag (null 0,
  false 1, true 2, integer 3, float 4, string 5); an integer is followed by its 8 bytes,
  big-endian, with the sign bit flipped; a float by its 8 IEEE-754 bytes, big-endian,
  all 64 bits inverted when the sign bit is set and only the sign bit flipped otherwise;
  a string by its bytes; encoding an array or a mapping is an error.
\<close>

definition be64 :: "64 word \<Rightarrow> string" where
  "be64 w = map (\<lambda>i. char_of (unat (drop_bit (8 * (7 - i)) w))) [0..<8]"

fun ValueToKey :: "jvalue \<Rightarrow> Key option" where
  "ValueToKey JNull = Some [CHR 0x00]"
| "ValueToKey (JBool False) = Some [CHR 0x01]"
| "ValueToKey (JBool True) = Some [CHR 0x02]"
| "ValueToKey (JInt w) = Some (CHR 0x03 # be64 (w XOR push_bit 63 1))"
| "ValueToKey (JFloat w) = Some (CHR 0x04 # be64 (if bit w 63 then NOT w else w XOR push_bit 63 1))"
| "ValueToKey (JStr s) = Some (CHR 0x05 # s)"
| "ValueToKey (JArr vs) = None"
| "ValueToKey (JObj m) = None"

text \<open>
  Modelled from the spec: \<^verbatim>\<open>operators.MatchDocument\<close> (internal/operators; its source
  file is not part of the sources at hand).  Section 4.4: every key of the condition
  mapping must hold; \<^verbatim>\<open>$and\<close> and \<^verbatim>\<open>$or\<close> take a list of condition objects; any other
  key is a field name whose value is a primitive (equality) or a mapping of comparators
  that must all hold: \<^verbatim>\<open>$eq\<close> deep equality, \<^verbatim>\<open>$gt\<close>, \<^verbatim>\<open>$gte\<close>, \<^verbatim>\<open>$lt\<close>, \<^verbatim>\<open>$lte\<close> numeric or
  lexicographic order (false on operands of different kinds), \<^verbatim>\<open>$in\<close> equality with a
  listed value, \<^verbatim>\<open>$like\<close> a pattern with \<^verbatim>\<open>%\<close> for any run and \<^verbatim>\<open>_\<close> for one
  character, anchored at both ends, on strings only.  On a missing field every predicate
  is false, except \<^verbatim>\<open>$eq\<close> with null.  What the spec leaves open is false here: an
  unknown operator, another key that starts with \<^verbatim>\<open>$\<close> at the top level.
\<close>

fun likeMatch :: "string \<Rightarrow> string \<Rightarrow> bool" where
  "likeMatch [] s = (s = [])"
| "likeMatch (p # ps) [] = (p = CHR ''%'' \<and> likeMatch ps [])"
| "likeMatch (p # ps) (c # cs) =
     (if p = CHR ''%'' then likeMatch ps (c # cs) \<or> likeMatch (p # ps) cs
      else (p = CHR ''_'' \<or> p = c) \<and> likeMatch ps cs)"

definition floatIsNaN :: "64 word \<Rightarrow> bool" where
  "floatIsNaN w \<longleftrightarrow> take_bit 63 w > push_bit 52 2047"

definition floatOrd :: "64 word \<Rightarrow> int" where
  "floatOrd w = (if bit w 63 then - uint (take_bit 63 w) else uint (take_bit 63 w))"

fun valueLess :: "jvalue \<Rightarrow> jvalue \<Rightarrow> bool option" where
  "valueLess (JInt a) (JInt b) = Some (sint a < sint b)"
| "valueLess (JFloat a) (JFloat b) =
     Some (\<not> floatIsNaN a \<and> \<not> floatIsNaN b \<and> floatOrd a < floatOrd b)"
| "valueLess (JStr a) (JStr b) = Some (a < b)"
| "valueLess a b = None"

fun matchOperator :: "string \<Rightarrow> jvalue \<Rightarrow> jvalue option \<Rightarrow> bool" where
  "matchOperator op arg None = (op = ''$eq'' \<and> arg = JNull)"
| "matchOperator op arg (Some x) =
     (if op = ''$eq'' then x = arg
      else if op = ''$gt'' then valueLess arg x = Some True
      else if op = ''$gte'' then valueLess x arg = Some False
      else if op = ''$lt'' then valueLess x arg = Some True
      else if op = ''$lte'' then valueLess arg x = Some False
      else if op = ''$in'' then (case arg of JArr vs \<Rightarrow> x \<in> set vs | _ \<Rightarrow> False)
      else if op = ''$like'' then
        (case (arg, x) of (JStr p, JStr s) \<Rightarrow> likeMatch p s | _ \<Rightarrow> False)
      else False)"

definition isOperatorMap :: "(string \<times> jvalue) list \<Rightarrow> bool" where
  "isOperatorMap m \<longleftrightarrow> m \<noteq> [] \<and> list_all (\<lambda>(k, v). take 1 k = ''$'') m"

fun matchField :: "jvalue \<Rightarrow> jvalue option \<Rightarrow> bool" where
  "matchField (JObj m) x =
     (if isOperatorMap m then list_all (\<lambda>(op, arg). matchOperator op arg x) m
      else x = Some (JObj m))"
| "matchField p x = (x = Some p)"

fun matchAll :: "Document \<Rightarrow> jvalue \<Rightarrow> bool" where
  "matchAll doc (JObj conditions) =
     list_all (\<lambda>(k, v).
        if k = ''$and'' then (case v of JArr cs \<Rightarrow> list_all (matchAll doc) cs | _ \<Rightarrow> False)
        else if k = ''$or'' then (case v of JArr cs \<Rightarrow> list_ex (matchAll doc) cs | _ \<Rightarrow> False)
        else if take 1 k = ''$'' then False
        else matchField v (map_of doc k)) conditions"
| "matchAll doc v = False"

definition MatchDocument :: "Document \<Rightarrow> (string \<times> jvalue) list \<Rightarrow> bool" where
  "MatchDocument doc conditions = matchAll doc (JObj conditions)"

section \<open>The tree that a store holds\<close>

text \<open>
  For the proofs, a B+tree is also read as a value: a leaf with its address, keys, value
  lists and sibling pointer, or an internal node with its address, keys and subtrees.
  \<open>rep h p t\<close> says that the store \<open>h\<close> holds the tree \<open>t\<close> below a parent pointer
  \<open>p\<close>: every node of \<open>t\<close> is stored at its address, with the pointers of the tree.
\<close>

datatype bt =
    BL nat "Key list" "Value list list" "nat option"
  | BN nat "Key list" "bt list"

fun addr :: "bt \<Rightarrow> nat" where
  "addr (BL a ks vs nx) = a"
| "addr (BN a ks cs) = a"

fun addrs :: "bt \<Rightarrow> nat list" where
  "addrs (BL a ks vs nx) = [a]"
| "addrs (BN a ks cs) = a # concat (map addrs cs)"

fun rep :: "(nat \<Rightarrow> node) \<Rightarrow> nat option \<Rightarrow> bt \<Rightarrow> bool" where
  "rep h p (BL a ks vs nx) \<longleftrightarrow>
     h a = \<lparr>isLeaf = True, keys = ks, vals = vs, children = [], nxt = nx, parent = p\<rparr>"
| "rep h p (BN a ks cs) \<longleftrightarrow>
     h a = \<lparr>isLeaf = False, keys = ks, vals = [], children = map addr cs, nxt = None,
            parent = p\<rparr> \<and>
     (\<forall>c \<in> set cs. rep h (Some a) c)"

text \<open>The lists of a node have the lengths that belong together.\<close>

fun shape :: "bt \<Rightarrow> bool" where
  "shape (BL a ks vs nx) \<longleftrightarrow> length vs = length ks"
| "shape (BN a ks cs) \<longleftrightarrow> length cs = length ks + 1 \<and> (\<forall>c \<in> set cs. shape c)"

text \<open>The child that \<^verbatim>\<open>findLeaf\<close> descends into, and the leaf that it reaches.\<close>

definition childIndex :: "Key list \<Rightarrow> Key \<Rightarrow> nat" where
  "childIndex ks key = length (takeWhile (\<lambda>k. \<not> key < k) ks)"

function leafOf :: "bt \<Rightarrow> Key \<Rightarrow> bt" where
  "leafOf (BL a ks vs nx) key = BL a ks vs nx"
| "leafOf (BN a ks cs) key =
     (if childIndex ks key < length cs then leafOf (cs ! childIndex ks key) key
      else BN a ks cs)"
  by pat_completeness auto
termination
  by (relation "measure (\<lambda>(t, k). size t)")
     (auto simp: less_Suc_eq_le intro!: size_list_estimation'[OF nth_mem])

text \<open>Insertion of an element into a list at a position, and of an entry into a leaf.\<close>

definition insAt :: "nat \<Rightarrow> 'a \<Rightarrow> 'a list \<Rightarrow> 'a list" where
  "insAt i x xs = take i xs @ x # drop i xs"

definition lowerPos :: "Key list \<Rightarrow> Key \<Rightarrow> nat" where
  "lowerPos ks key = length (takeWhile (\<lambda>k. k < key) ks)"

definition leafKeys :: "Key \<Rightarrow> Key list \<Rightarrow> Key list" where
  "leafKeys key ks =
     (if lowerPos ks key < length ks \<and> ks ! lowerPos ks key = key then ks
      else insAt (lowerPos ks key) key ks)"

definition leafVals :: "Key \<Rightarrow> Value \<Rightarrow> Key list \<Rightarrow> Value list list \<Rightarrow> Value list list" where
  "leafVals key v ks vs =
     (if lowerPos ks key < length ks \<and> ks ! lowerPos ks key = key
      then vs[lowerPos ks key := vs ! lowerPos ks key @ [v]]
      else insAt (lowerPos ks key) [v] vs)"

text \<open>
  The effect of \<^verbatim>\<open>Insert\<close> on the tree below a node: the same node with new content, or
  a split into a left node, a key to push up and a right node.  The natural number is
  the next free address.
\<close>

datatype ires = Same bt | Split bt Key bt

definition splitNode :: "64 word \<Rightarrow> nat \<Rightarrow> nat \<Rightarrow> Key list \<Rightarrow> bt list \<Rightarrow> ires \<times> nat" where
  "splitNode ord a n ks cs =
     (if overfull ord ks
      then (Split (BN a (take (length ks div 2) ks) (take (length ks div 2 + 1) cs))
                  (ks ! (length ks div 2))
                  (BN n (drop (length ks div 2 + 1) ks) (drop (length ks div 2 + 1) cs)),
            n + 1)
      else (Same (BN a ks cs), n))"

definition splitLeafNode ::
  "64 word \<Rightarrow> nat \<Rightarrow> nat \<Rightarrow> Key list \<Rightarrow> Value list list \<Rightarrow> nat option \<Rightarrow> ires \<times> nat" where
  "splitLeafNode ord a n ks vs nx =
     (if overfull ord ks
      then (Split (BL a (take (length ks div 2) ks) (take (length ks div 2) vs) (Some n))
                  (hd (drop (length ks div 2) ks))
                  (BL n (drop (length ks div 2) ks) (drop (length ks div 2) vs) nx),
            n + 1)
      else (Same (BL a ks vs nx), n))"

function treeIns :: "64 word \<Rightarrow> Key \<Rightarrow> Value \<Rightarrow> nat \<Rightarrow> bt \<Rightarrow> ires \<times> nat" where
  "treeIns ord key v n (BL a ks vs nx) =
     splitLeafNode ord a n (leafKeys key ks) (leafVals key v ks vs) nx"
| "treeIns ord key v n (BN a ks cs) =
     (if childIndex ks key < length cs
      then
        (case treeIns ord key v n (cs ! childIndex ks key) of
           (Same c', n') \<Rightarrow> (Same (BN a ks (cs[childIndex ks key := c'])), n')
         | (Split l k r, n') \<Rightarrow>
             splitNode ord a n' (insAt (lowerPos ks k) k ks)
               (insAt (lowerPos ks k + 1) r (cs[childIndex ks key := l])))
      else (Same (BN a ks cs), n))"
  by pat_completeness auto
termination
  by (relation "measure (\<lambda>(ord, key, v, n, t). size t)")
     (auto simp: less_Suc_eq_le intro!: size_list_estimation'[OF nth_mem])

text \<open>The effect of \<^verbatim>\<open>Insert\<close> on the whole tree: a split of the root gives a new root.\<close>

definition rootIns :: "64 word \<Rightarrow> Key \<Rightarrow> Value \<Rightarrow> nat \<Rightarrow> bt \<Rightarrow> bt \<times> nat" where
  "rootIns ord key v n t =
     (case treeIns ord key v n t of
        (Same t', n') \<Rightarrow> (t', n')
      | (Split l k r, n') \<Rightarrow> (BN n' [k] [l, r], n' + 1))"

text \<open>
  The part of \<^verbatim>\<open>Insert\<close> that follows \<^verbatim>\<open>findLeaf\<close>, and what remains to be done once
  the subtree below a node has been dealt with: nothing, or the call of
  \<^verbatim>\<open>insertInParent\<close> for the two halves of the node.
\<close>

definition insertAtLeaf :: "BTree \<Rightarrow> nat \<Rightarrow> Key \<Rightarrow> Value \<Rightarrow> BTree option" where
  "insertAtLeaf tree leaf key v =
     (case insertInLeaf tree leaf key v of
        None \<Rightarrow> None
      | Some t1 \<Rightarrow>
          if overfull (order t1) (keys (heap t1 leaf)) then splitLeaf t1 leaf else Some t1)"

fun finish :: "BTree \<Rightarrow> (nat \<Rightarrow> node) \<Rightarrow> ires \<times> nat \<Rightarrow> BTree option" where
  "finish tree h (Same t, n) = Some (tree\<lparr>heap := h, nalloc := n\<rparr>)"
| "finish tree h (Split l k r, n) =
     insertInParent (tree\<lparr>heap := h, nalloc := n\<rparr>) (addr l) k (addr r)"

fun repRes :: "(nat \<Rightarrow> node) \<Rightarrow> nat option \<Rightarrow> ires \<Rightarrow> bool" where
  "repRes h p (Same t) \<longleftrightarrow> rep h p t"
| "repRes h p (Split l k r) \<longleftrightarrow> rep h p l \<and> rep h p r"

fun resAddrs :: "ires \<Rightarrow> nat list" where
  "resAddrs (Same t) = addrs t"
| "resAddrs (Split l k r) = addrs l @ addrs r"

fun resAddr :: "ires \<Rightarrow> nat" where
  "resAddr (Same t) = addr t"
| "resAddr (Split l k r) = addr l"

fun shapeRes :: "ires \<Rightarrow> bool" where
  "shapeRes (Same t) \<longleftrightarrow> shape t"
| "shapeRes (Split l k r) \<longleftrightarrow> shape l \<and> shape r"

text \<open>
  \<open>holds tree t\<close>: the B+tree \<open>tree\<close> is the tree \<open>t\<close>, and every allocated node is a
  node of \<open>t\<close>.
\<close>

definition holds :: "BTree \<Rightarrow> bt \<Rightarrow> bool" where
  "holds tree t \<longleftrightarrow>
     root tree = Some (addr t) \<and> rep (heap tree) None t \<and> shape t \<and>
     distinct (addrs t) \<and> set (addrs t) = {..<nalloc tree}"

fun rootInsAll :: "64 word \<Rightarrow> (Key \<times> Value) list \<Rightarrow> bt \<times> nat \<Rightarrow> bt \<times> nat" where
  "rootInsAll ord [] s = s"
| "rootInsAll ord ((k, v) # kvs) s = rootInsAll ord kvs (rootIns ord k v (snd s) (fst s))"

text \<open>
  The orders for which \<^verbatim>\<open>order*2-1\<close> is the number \<open>2 * order - 1\<close> and at least 1.
\<close>

definition ordOK :: "64 word \<Rightarrow> bool" where
  "ordOK ord \<longleftrightarrow> 1 \<le> sint ord \<and> sint ord < 2 ^ 62"

text \<open>
  The keys of a tree (of its leaves and of its internal nodes), and the order of a tree:
  the keys of every node ascend strictly, and the keys below child \<open>i\<close> of a node are
  below the keys of the node from position \<open>i\<close> on and not below the keys before.
\<close>

fun allKeys :: "bt \<Rightarrow> Key set" where
  "allKeys (BL a ks vs nx) = set ks"
| "allKeys (BN a ks cs) = set ks \<union> (\<Union>c \<in> set cs. allKeys c)"

definition fits :: "Key list \<Rightarrow> nat \<Rightarrow> Key set \<Rightarrow> bool" where
  "fits ks i X \<longleftrightarrow> (\<forall>j < length ks. \<forall>x \<in> X. if i \<le> j then x < ks ! j else ks ! j \<le> x)"

fun ordered :: "bt \<Rightarrow> bool" where
  "ordered (BL a ks vs nx) \<longleftrightarrow> sorted_wrt (<) ks"
| "ordered (BN a ks cs) \<longleftrightarrow>
     sorted_wrt (<) ks \<and> (\<forall>c \<in> set cs. ordered c) \<and>
     (\<forall>i < length cs. fits ks i (allKeys (cs ! i)))"

fun resKeys :: "ires \<Rightarrow> Key set" where
  "resKeys (Same t) = allKeys t"
| "resKeys (Split l k r) = allKeys l \<union> {k} \<union> allKeys r"

fun orderedRes :: "ires \<Rightarrow> bool" where
  "orderedRes (Same t) \<longleftrightarrow> ordered t"
| "orderedRes (Split l k r) \<longleftrightarrow>
     ordered l \<and> ordered r \<and> (\<forall>x \<in> allKeys l. x < k) \<and> (\<forall>x \<in> allKeys r. k \<le> x) \<and>
     allKeys l \<noteq> {}"

text \<open>Every node has at most \<open>m\<close> keys.\<close>

fun bounded :: "nat \<Rightarrow> bt \<Rightarrow> bool" where
  "bounded m (BL a ks vs nx) \<longleftrightarrow> length ks \<le> m"
| "bounded m (BN a ks cs) \<longleftrightarrow> length ks \<le> m \<and> (\<forall>c \<in> set cs. bounded m c)"

fun boundedRes :: "nat \<Rightarrow> ires \<Rightarrow> bool" where
  "boundedRes m (Same t) \<longleftrightarrow> bounded m t"
| "boundedRes m (Split l k r) \<longleftrightarrow> bounded m l \<and> bounded m r"

text \<open>
  The entries of a tree: the keys of its leaves with their value lists, from left to
  right.  \<open>addEntry\<close> is what an insertion does to a list of entries with ascending
  keys.
\<close>

fun entries :: "bt \<Rightarrow> (Key \<times> Value list) list" where
  "entries (BL a ks vs nx) = zip ks vs"
| "entries (BN a ks cs) = concat (map entries cs)"

fun resEntries :: "ires \<Rightarrow> (Key \<times> Value list) list" where
  "resEntries (Same t) = entries t"
| "resEntries (Split l k r) = entries l @ entries r"

fun addEntry :: "Key \<Rightarrow> Value \<Rightarrow> (Key \<times> Value list) list \<Rightarrow> (Key \<times> Value list) list" where
  "addEntry k v [] = [(k, [v])]"
| "addEntry k v ((k', vs) # es) =
     (if k' < k then (k', vs) # addEntry k v es
      else if k' = k then (k', vs @ [v]) # es
      else (k, [v]) # (k', vs) # es)"

fun addEntries :: "(Key \<times> Value) list \<Rightarrow> (Key \<times> Value list) list \<Rightarrow> (Key \<times> Value list) list" where
  "addEntries [] es = es"
| "addEntries ((k, v) # kvs) es = addEntries kvs (addEntry k v es)"

text \<open>The leaves of a tree from left to right, and the chain of their sibling pointers.\<close>

fun leaves :: "bt \<Rightarrow> bt list" where
  "leaves (BL a ks vs nx) = [BL a ks vs nx]"
| "leaves (BN a ks cs) = concat (map leaves cs)"

fun resLeaves :: "ires \<Rightarrow> bt list" where
  "resLeaves (Same t) = leaves t"
| "resLeaves (Split l k r) = leaves l @ leaves r"

fun nxtOf :: "bt \<Rightarrow> nat option" where
  "nxtOf (BL a ks vs nx) = nx"
| "nxtOf (BN a ks cs) = None"

fun chained :: "bt list \<Rightarrow> nat option \<Rightarrow> bool" where
  "chained [] e \<longleftrightarrow> True"
| "chained [l] e \<longleftrightarrow> nxtOf l = e"
| "chained (l # l' # ls) e \<longleftrightarrow> nxtOf l = Some (addr l') \<and> chained (l' # ls) e"

text \<open>The leaves to the left and to the right of the leaf that \<^verbatim>\<open>findLeaf\<close> reaches.\<close>

function leavesBefore :: "bt \<Rightarrow> Key \<Rightarrow> bt list" where
  "leavesBefore (BL a ks vs nx) key = []"
| "leavesBefore (BN a ks cs) key =
     (if childIndex ks key < length cs
      then concat (map leaves (take (childIndex ks key) cs)) @
           leavesBefore (cs ! childIndex ks key) key
      else [])"
  by pat_completeness auto
termination
  by (relation "measure (\<lambda>(t, k). size t)")
     (auto simp: less_Suc_eq_le intro!: size_list_estimation'[OF nth_mem])

function leavesAfter :: "bt \<Rightarrow> Key \<Rightarrow> bt list" where
  "leavesAfter (BL a ks vs nx) key = []"
| "leavesAfter (BN a ks cs) key =
     (if childIndex ks key < length cs
      then leavesAfter (cs ! childIndex ks key) key @
           concat (map leaves (drop (Suc (childIndex ks key)) cs))
      else [])"
  by pat_completeness auto
termination
  by (relation "measure (\<lambda>(t, k). size t)")
     (auto simp: less_Suc_eq_le intro!: size_list_estimation'[OF nth_mem])

text \<open>
  The invariant of the trees that \<^verbatim>\<open>Insert\<close> builds, and the value list of a key in a list
  of entries.
\<close>

definition good :: "64 word \<Rightarrow> bt \<Rightarrow> bool" where
  "good ord t \<longleftrightarrow>
     shape t \<and> ordered t \<and> bounded (2 * nat (sint ord) - 1) t \<and> chained (leaves t) None \<and>
     sorted_wrt (<) (map fst (entries t))"

definition lookupE :: "(Key \<times> Value list) list \<Rightarrow> Key \<Rightarrow> Value list" where
  "lookupE es k = (case map_of es k of None \<Rightarrow> [] | Some vs \<Rightarrow> vs)"

text \<open>
  The range of \<^verbatim>\<open>RangeSearch\<close>: a key is in the range when it is above the lower bound,
  or equal to it and the bound is inclusive, and likewise for the upper bound; an absent
  bound does not restrict.  \<open>aboveEnd\<close> is the test on which the scan stops, and
  \<open>rangeList\<close> is the scan over a list of leaves.
\<close>

definition inRange :: "Key option \<Rightarrow> Key option \<Rightarrow> bool \<Rightarrow> bool \<Rightarrow> Key \<Rightarrow> bool" where
  "inRange lo hi incLo incHi k \<longleftrightarrow>
     (case lo of None \<Rightarrow> True | Some l \<Rightarrow> l < k \<or> (k = l \<and> incLo)) \<and>
     (case hi of None \<Rightarrow> True | Some u \<Rightarrow> k < u \<or> (k = u \<and> incHi))"

definition aboveEnd :: "Key option \<Rightarrow> bool \<Rightarrow> Key \<Rightarrow> bool" where
  "aboveEnd hi incHi k \<longleftrightarrow> (case hi of None \<Rightarrow> False | Some u \<Rightarrow> u < k \<or> (k = u \<and> \<not> incHi))"

fun keysOf :: "bt \<Rightarrow> Key list" where
  "keysOf (BL a ks vs nx) = ks"
| "keysOf (BN a ks cs) = ks"

fun valsOf :: "bt \<Rightarrow> Value list list" where
  "valsOf (BL a ks vs nx) = vs"
| "valsOf (BN a ks cs) = []"

fun rangeList ::
  "Key option \<Rightarrow> Key option \<Rightarrow> bool \<Rightarrow> bool \<Rightarrow> bt list \<Rightarrow> Value list \<Rightarrow> Value list option" where
  "rangeList lo hi incLo incHi [] result = Some result"
| "rangeList lo hi incLo incHi (l # ls) result =
     (case rangeKeys lo hi incLo incHi (valsOf l) 0 (keysOf l) result of
        None \<Rightarrow> None
      | Some (returned, result') \<Rightarrow>
          if returned then Some result'
          else if hi \<noteq> None \<and> keysOf l \<noteq> [] \<and> last (keysOf l) \<ge> the hi then Some result'
          else rangeList lo hi incLo incHi ls result')"

fun startOf :: "bt list \<Rightarrow> nat option" where
  "startOf [] = None"
| "startOf (l # ls) = Some (addr l)"

definition rangeOf ::
  "Key option \<Rightarrow> Key option \<Rightarrow> bool \<Rightarrow> bool \<Rightarrow> (Key \<times> Value list) list \<Rightarrow> Value list" where
  "rangeOf lo hi incLo incHi es =
     concat (map snd (filter (\<lambda>e. inRange lo hi incLo incHi (fst e)) es))"

text \<open>
  The nodes of trees in breadth-first order, as the queue of \<^verbatim>\<open>serializeBTree\<close> visits
  them, the numbering that its first loop computes for a list of addresses, and the
  number under which its second loop writes a child.
\<close>

function bfs :: "bt list \<Rightarrow> bt list" where
  "bfs [] = []"
| "bfs (BL a ks vs nx # q) = BL a ks vs nx # bfs q"
| "bfs (BN a ks cs # q) = BN a ks cs # bfs (q @ cs)"
  by pat_completeness auto
termination
  by (relation "measure (size_list size)") auto

fun number :: "nat list \<Rightarrow> int \<Rightarrow> (nat \<Rightarrow> int option) \<Rightarrow> (nat \<Rightarrow> int option)" where
  "number [] idx m = m"
| "number (a # as) idx m = number as (idx + 1) (m(a \<mapsto> idx))"

definition childNo :: "(nat \<Rightarrow> int option) \<Rightarrow> nat \<Rightarrow> nat" where
  "childNo m c = nat (case m c of None \<Rightarrow> 0 | Some i \<Rightarrow> i)"

text \<open>
  The children that \<^verbatim>\<open>deserializeBTree\<close> links to a node from its entry in the file, and
  a store that holds, under a renaming of the addresses, the keys, values and children
  of another store.
\<close>

definition fileChildren :: "SerializedNode option \<Rightarrow> nat list" where
  "fileChildren x =
     (case x of None \<Rightarrow> [] | Some sn \<Rightarrow> if IsLeaf sn then [] else map nat (Children sn))"

definition mirrors :: "(nat \<Rightarrow> node) \<Rightarrow> (nat \<Rightarrow> node) \<Rightarrow> (nat \<Rightarrow> nat) \<Rightarrow> nat set \<Rightarrow> bool" where
  "mirrors h h' \<rho> A \<longleftrightarrow>
     (\<forall>a \<in> A. isLeaf (h' (\<rho> a)) = isLeaf (h a) \<and> keys (h' (\<rho> a)) = keys (h a) \<and>
        (isLeaf (h a) \<longrightarrow> vals (h' (\<rho> a)) = vals (h a)) \<and>
        (\<not> isLeaf (h a) \<longrightarrow> children (h' (\<rho> a)) = map \<rho> (children (h a))))"

text \<open>
  The entries that the loop of \<^verbatim>\<open>CreateIndex\<close> and \<^verbatim>\<open>RebuildAllIndexes\<close> inserts for a
  list of documents, in the order of the insertions; \<open>None\<close> when the loop panics.
\<close>

fun indexPairs ::
  "(jvalue \<Rightarrow> Key option) \<Rightarrow> string \<Rightarrow> Document list \<Rightarrow> (Key \<times> Value) list option" where
  "indexPairs enc fieldName [] = Some []"
| "indexPairs enc fieldName (doc # docs) =
     (case map_of doc fieldName of
        None \<Rightarrow> indexPairs enc fieldName docs
      | Some fieldValue \<Rightarrow>
          (case map_of doc ''_id'' of
             Some (JStr docID) \<Rightarrow>
               (case enc fieldValue of
                  None \<Rightarrow> None
                | Some key \<Rightarrow>
                    (case indexPairs enc fieldName docs of
                       None \<Rightarrow> None
                     | Some kvs \<Rightarrow> Some ((key, docID) # kvs)))
           | _ \<Rightarrow> None))"

text \<open>
  The nodes of a tree, and the two halves \<open>y\<close> and \<open>x\<close> into which an insertion has split
  a node \<open>o\<close>: \<open>y\<close> stays at the address of \<open>o\<close>, the key list \<open>ks\<close> of \<open>o\<close> with the added
  key is too long for the order, \<open>y\<close> keeps the keys before the midpoint of \<open>ks\<close> and \<open>x\<close>
  gets the keys from the midpoint on (a leaf) or after the midpoint (an internal node).
\<close>

fun nodeSet :: "bt \<Rightarrow> bt set" where
  "nodeSet (BL a ks vs nx) = {BL a ks vs nx}"
| "nodeSet (BN a ks cs) = insert (BN a ks cs) (\<Union>c \<in> set cs. nodeSet c)"

fun resNodes :: "ires \<Rightarrow> bt set" where
  "resNodes (Same t) = nodeSet t"
| "resNodes (Split l k r) = nodeSet l \<union> nodeSet r"

fun isLeafOf :: "bt \<Rightarrow> bool" where
  "isLeafOf (BL a ks vs nx) \<longleftrightarrow> True"
| "isLeafOf (BN a ks cs) \<longleftrightarrow> False"

definition halves :: "64 word \<Rightarrow> bt \<Rightarrow> bt \<Rightarrow> bt \<Rightarrow> bool" where
  "halves ord o' y x \<longleftrightarrow>
     addr y = addr o' \<and> isLeafOf y = isLeafOf o' \<and> isLeafOf x = isLeafOf o' \<and>
     (isLeafOf x \<longrightarrow> nxtOf y = Some (addr x)) \<and>
     (\<exists>ks. (ks = keysOf o' \<or> (\<exists>pos k. ks = insAt pos k (keysOf o'))) \<and> overfull ord ks \<and>
        keysOf y = take (length ks div 2) ks \<and>
        keysOf x = drop (length ks div 2 + (if isLeafOf x then 0 else 1)) ks)"

section \<open>Proofs\<close>

lemma rep_root:
  "rep h p t \<Longrightarrow> parent (h (addr t)) = p"
  by (cases t) auto

lemma rep_cong:
  "rep h p t \<Longrightarrow> (\<forall>x \<in> set (addrs t). h' x = h x) \<Longrightarrow> rep h' p t"
proof (induction t arbitrary: p)
  case (BL a ks vs nx)
  then show ?case by simp
next
  case (BN a ks cs)
  have "rep h' (Some a) c" if "c \<in> set cs" for c
    using BN.IH [OF that, of "Some a"] BN.prems that by auto
  with BN.prems show ?case by simp
qed

lemma addr_in_addrs: "addr t \<in> set (addrs t)"
  by (cases t) auto

lemma rep_reparent:
  assumes "rep h p t" "distinct (addrs t)"
    and "h' (addr t) = (h (addr t))\<lparr>parent := p'\<rparr>"
    and "\<forall>x \<in> set (addrs t). x \<noteq> addr t \<longrightarrow> h' x = h x"
  shows "rep h' p' t"
proof (cases t)
  case (BL a ks vs nx)
  with assms show ?thesis by simp
next
  case (BN a ks cs)
  have "rep h' (Some a) c" if "c \<in> set cs" for c
  proof (rule rep_cong)
    show "rep h (Some a) c" using assms(1) BN that by simp
    show "\<forall>x\<in>set (addrs c). h' x = h x"
    proof
      fix x assume x: "x \<in> set (addrs c)"
      then have "x \<noteq> a" using assms(2) BN that by auto
      moreover have "x \<in> set (addrs t)" using x BN that by auto
      ultimately show "h' x = h x" using assms(4) BN by auto
    qed
  qed
  with assms BN show ?thesis by simp
qed

lemma childIndex_le: "childIndex ks key \<le> length ks"
  by (simp add: childIndex_def length_takeWhile_le)

lemma lowerPos_le: "lowerPos ks key \<le> length ks"
  by (simp add: lowerPos_def length_takeWhile_le)

lemma findLeaf_leafOf:
  "rep h p t \<Longrightarrow> shape t \<Longrightarrow> findLeaf h (addr t) key = Some (addr (leafOf t key))"
proof (induction t key arbitrary: p rule: leafOf.induct)
  case (1 a ks vs nx key)
  then show ?case by (subst findLeaf.simps) simp
next
  case (2 a ks cs key)
  let ?i = "childIndex ks key"
  have i: "?i < length cs" using 2 childIndex_le [of ks key] by simp
  have c: "cs ! ?i \<in> set cs" using i by simp
  have "rep h (Some a) (cs ! ?i)" "shape (cs ! ?i)" using 2 c by auto
  then have IH: "findLeaf h (addr (cs ! ?i)) key = Some (addr (leafOf (cs ! ?i) key))"
    using "2.IH" [OF i] by simp
  have ne: "cs \<noteq> []" using 2 by auto
  have last: "\<not> ?i < length ks \<Longrightarrow> last (map addr cs) = addr (cs ! ?i)"
    using 2 childIndex_le [of ks key] ne by (simp add: last_map last_conv_nth le_antisym)
  show ?case
    using 2 i IH last
    by (subst findLeaf.simps) (auto simp: childIndex_def Let_def)
qed

lemma leafOf_is_leaf: "shape t \<Longrightarrow> \<exists>a ks vs nx. leafOf t key = BL a ks vs nx"
proof (induction t key rule: leafOf.induct)
  case (1 a ks vs nx key)
  then show ?case by simp
next
  case (2 a ks cs key)
  have "childIndex ks key < length cs" using 2 childIndex_le [of ks key] by simp
  with 2 show ?case by auto
qed

lemma fold_parent:
  "fold (\<lambda>c h. h(c := (h c)\<lparr>parent := q\<rparr>)) as h =
     (\<lambda>x. if x \<in> set as then (h x)\<lparr>parent := q\<rparr> else h x)"
  by (induction as arbitrary: h) (auto simp: fun_eq_iff)

lemma leafKeys_ne: "leafKeys key ks \<noteq> []"
  by (auto simp: leafKeys_def insAt_def)

lemma length_leafVals:
  "length vs = length ks \<Longrightarrow> length (leafVals key v ks vs) = length (leafKeys key ks)"
  using lowerPos_le [of ks key]
  by (auto simp: leafVals_def leafKeys_def insAt_def)

lemma insertInLeaf_eq:
  assumes "heap tree a = \<lparr>isLeaf = True, keys = ks, vals = vs, children = [], nxt = nx, parent = p\<rparr>"
    and "length vs = length ks"
  shows "insertInLeaf tree a key v =
     Some (tree\<lparr>heap := (heap tree)(a := \<lparr>isLeaf = True, keys = leafKeys key ks,
        vals = leafVals key v ks vs, children = [], nxt = nx, parent = p\<rparr>)\<rparr>)"
  using assms lowerPos_le [of ks key]
  by (auto simp: insertInLeaf_def leafKeys_def leafVals_def lowerPos_def insAt_def Let_def)

lemma leaf_step:
  assumes h: "heap tree a = \<lparr>isLeaf = True, keys = ks, vals = vs, children = [], nxt = nx, parent = p\<rparr>"
    and len: "length vs = length ks"
    and a: "a < nalloc tree"
  shows "\<exists>h'. insertAtLeaf tree a key v =
            finish tree h' (splitLeafNode (order tree) a (nalloc tree) (leafKeys key ks)
                              (leafVals key v ks vs) nx) \<and>
          repRes h' p (fst (splitLeafNode (order tree) a (nalloc tree) (leafKeys key ks)
                              (leafVals key v ks vs) nx)) \<and>
          (\<forall>x. x \<noteq> a \<and> x \<noteq> nalloc tree \<longrightarrow> h' x = heap tree x)"
proof -
  let ?ks = "leafKeys key ks" and ?vs = "leafVals key v ks vs" and ?n = "nalloc tree"
  let ?h1 = "(heap tree)(a := \<lparr>isLeaf = True, keys = ?ks, vals = ?vs, children = [], nxt = nx, parent = p\<rparr>)"
  have il: "insertInLeaf tree a key v = Some (tree\<lparr>heap := ?h1\<rparr>)"
    by (rule insertInLeaf_eq [OF h len])
  have lv: "length ?vs = length ?ks" by (rule length_leafVals [OF len])
  show ?thesis
  proof (cases "overfull (order tree) ?ks")
    case False
    have "insertAtLeaf tree a key v = Some (tree\<lparr>heap := ?h1\<rparr>)"
      using False by (simp add: insertAtLeaf_def il)
    then show ?thesis using False
      by (intro exI [of _ ?h1]) (simp add: splitLeafNode_def)
  next
    case True
    let ?mid = "length ?ks div 2"
    let ?h2 = "(?h1(?n := \<lparr>isLeaf = True, keys = drop ?mid ?ks, vals = drop ?mid ?vs,
                            children = [], nxt = nx, parent = p\<rparr>))
                 (a := \<lparr>isLeaf = True, keys = take ?mid ?ks, vals = take ?mid ?vs,
                            children = [], nxt = Some ?n, parent = p\<rparr>)"
    have mid: "?mid < length ?ks" using leafKeys_ne [of key ks] by (cases ?ks) auto
    then obtain k0 rest where dr: "drop ?mid ?ks = k0 # rest"
      by (cases "drop ?mid ?ks") auto
    have "insertAtLeaf tree a key v =
        insertInParent (tree\<lparr>heap := ?h2, nalloc := ?n + 1\<rparr>) a (hd (drop ?mid ?ks)) ?n"
      using True a lv dr
      by (simp add: insertAtLeaf_def il splitLeaf_def Let_def)
    then show ?thesis using True a
      by (intro exI [of _ ?h2]) (simp add: splitLeafNode_def)
  qed
qed

lemma addr_hd: "addr t = hd (addrs t)"
  by (cases t) auto

lemma set_insAt: "set (insAt j x xs) = insert x (set xs)"
proof -
  have "set (take j xs) \<union> set (drop j xs) = set xs"
    by (metis append_take_drop_id set_append)
  then show ?thesis by (auto simp: insAt_def)
qed

lemma length_insAt: "length (insAt j x xs) = length xs + 1"
  by (simp add: insAt_def)

lemma map_insAt: "map f (insAt j x xs) = insAt j (f x) (map f xs)"
  by (simp add: insAt_def take_map drop_map)

lemma mset_concat_insAt:
  "mset (concat (map f (insAt j r cs))) = mset (concat (map f cs)) + mset (f r)"
proof -
  have "mset (concat (map f cs)) = mset (concat (map f (take j cs @ drop j cs)))"
    by simp
  also have "\<dots> = mset (concat (map f (take j cs))) + mset (concat (map f (drop j cs)))"
    by (simp del: append_take_drop_id)
  finally show ?thesis by (simp add: insAt_def)
qed

lemma split_step:
  assumes ha: "heap tree a = \<lparr>isLeaf = False, keys = ks, vals = [], children = map addr cs,
                              nxt = None, parent = p\<rparr>"
    and reps: "\<forall>c \<in> set cs. rep (heap tree) (Some a) c"
    and dist: "distinct (a # concat (map addrs cs))"
    and lt: "\<forall>x \<in> set (a # concat (map addrs cs)). x < nalloc tree"
    and ne: "ks \<noteq> []"
    and len: "length ks \<le> length cs"
  shows "\<exists>h'. splitInternalStep tree a =
            Some (tree\<lparr>heap := h', nalloc := nalloc tree + 1\<rparr>, ks ! (length ks div 2), nalloc tree) \<and>
          rep h' p (BN a (take (length ks div 2) ks) (take (length ks div 2 + 1) cs)) \<and>
          rep h' p (BN (nalloc tree) (drop (length ks div 2 + 1) ks) (drop (length ks div 2 + 1) cs)) \<and>
          (\<forall>x. x \<notin> set (a # concat (map addrs cs)) \<and> x \<noteq> nalloc tree \<longrightarrow> h' x = heap tree x)"
proof -
  let ?h = "heap tree" and ?n = "nalloc tree" and ?mid = "length ks div 2"
  let ?kept = "take (Suc ?mid) cs" and ?moved = "drop (Suc ?mid) cs"
  let ?new = "\<lparr>isLeaf = False, keys = drop (Suc ?mid) ks, vals = [],
               children = map addr ?moved, nxt = None, parent = p\<rparr>"
  let ?h4 = "\<lambda>x. if x \<in> set (map addr ?moved) then ((?h(?n := ?new)) x)\<lparr>parent := Some ?n\<rparr>
                  else (?h(?n := ?new)) x"
  let ?h5 = "?h4(a := \<lparr>isLeaf = False, keys = take ?mid ks, vals = [],
                children = map addr ?kept, nxt = None, parent = p\<rparr>)"
  have mid: "?mid < length ks" using ne by (cases ks) auto
  have mid1: "Suc ?mid \<le> length cs" using mid len by simp
  have an: "a \<noteq> ?n" using lt by auto
  have moved_sub: "set (map addr ?moved) \<subseteq> set (concat (map addrs cs))"
  proof
    fix x assume "x \<in> set (map addr ?moved)"
    then obtain c where c: "c \<in> set ?moved" "x = addr c" by auto
    then have "c \<in> set cs" by (meson in_set_dropD)
    with c show "x \<in> set (concat (map addrs cs))" using addr_in_addrs [of c] by auto
  qed
  have a_moved: "a \<notin> set (map addr ?moved)" using dist moved_sub by auto
  have n_moved: "?n \<notin> set (map addr ?moved)" using lt moved_sub by auto
  have h4a: "?h4 a = ?h a" using a_moved an by simp
  have step: "splitInternalStep tree a =
      Some (tree\<lparr>heap := ?h5, nalloc := ?n + 1\<rparr>, ks ! ?mid, ?n)"
    using mid mid1 ha an a_moved n_moved
    by (simp add: splitInternalStep_def Let_def fold_parent drop_map take_map)
  have split: "concat (map addrs cs) = concat (map addrs ?kept) @ concat (map addrs ?moved)"
    by (metis append_take_drop_id concat_append map_append)
  have "distinct (concat (map addrs cs))" using dist by simp
  then have "distinct (concat (map addrs ?kept) @ concat (map addrs ?moved))"
    by (metis split)
  then have disj: "set (concat (map addrs ?kept)) \<inter> set (concat (map addrs ?moved)) = {}"
    and dmoved: "distinct (concat (map addrs ?moved))"
    by (simp_all only: distinct_append)
  have kept: "rep ?h5 (Some a) c" if "c \<in> set ?kept" for c
  proof (rule rep_cong)
    have c: "c \<in> set cs" using that by (meson in_set_takeD)
    show "rep ?h (Some a) c" using reps c by simp
    show "\<forall>x\<in>set (addrs c). ?h5 x = ?h x"
    proof
      fix x assume x: "x \<in> set (addrs c)"
      then have xk: "x \<in> set (concat (map addrs ?kept))" using that by auto
      have "x \<in> set (concat (map addrs cs))" using x c by auto
      then have "x \<noteq> a" "x \<noteq> ?n" using dist lt by auto
      moreover have "x \<notin> set (map addr ?moved)"
      proof
        assume "x \<in> set (map addr ?moved)"
        then obtain c' where "c' \<in> set ?moved" "x = addr c'" by auto
        then have "x \<in> set (concat (map addrs ?moved))" using addr_in_addrs [of c'] by auto
        with xk disj show False by auto
      qed
      ultimately show "?h5 x = ?h x" by simp
    qed
  qed
  have moved: "rep ?h5 (Some ?n) c" if "c \<in> set ?moved" for c
  proof (rule rep_reparent)
    have c: "c \<in> set cs" using that by (meson in_set_dropD)
    show "rep ?h (Some a) c" using reps c by simp
    have sub: "set (addrs c) \<subseteq> set (concat (map addrs cs))" using c by auto
    show "distinct (addrs c)" using dist c by (auto simp: distinct_concat_iff)
    have ac: "addr c \<in> set (concat (map addrs cs))" using sub addr_in_addrs [of c] by auto
    then have "addr c < ?n" "addr c \<noteq> a" using dist lt by auto
    then have "addr c \<noteq> a" "addr c \<noteq> ?n" by auto
    then show "?h5 (addr c) = (?h (addr c))\<lparr>parent := Some ?n\<rparr>" using that by simp
    show "\<forall>x\<in>set (addrs c). x \<noteq> addr c \<longrightarrow> ?h5 x = ?h x"
    proof (intro ballI impI)
      fix x assume x: "x \<in> set (addrs c)" "x \<noteq> addr c"
      then have "x \<in> set (concat (map addrs cs))" using sub by auto
      then have "x < ?n" "x \<noteq> a" using dist lt by auto
      then have "x \<noteq> a" "x \<noteq> ?n" by auto
      moreover have "x \<notin> set (map addr ?moved)"
      proof
        assume "x \<in> set (map addr ?moved)"
        then obtain c' where c': "c' \<in> set ?moved" "x = addr c'" by auto
        have "x \<in> set (addrs c')" using c' addr_in_addrs [of c'] by simp
        moreover have "addrs c \<in> set (map addrs ?moved)" "addrs c' \<in> set (map addrs ?moved)"
          using that c' by auto
        ultimately have "addrs c = addrs c'"
          using dmoved x(1) by (auto simp: distinct_concat_iff)
        then show False using x c' by (simp add: addr_hd)
      qed
      ultimately show "?h5 x = ?h x" by simp
    qed
  qed
  have r1: "rep ?h5 p (BN a (take ?mid ks) ?kept)"
    using kept by simp
  have r2: "rep ?h5 p (BN ?n (drop (Suc ?mid) ks) ?moved)"
    using moved an n_moved by simp
  have frame: "\<forall>x. x \<notin> set (a # concat (map addrs cs)) \<and> x \<noteq> ?n \<longrightarrow> ?h5 x = ?h x"
    using moved_sub by auto
  show ?thesis
    using step r1 r2 frame by (intro exI [of _ ?h5]) simp
qed

lemma fun_upd_other_triv: "b \<noteq> a \<Longrightarrow> (f(a := x))(b := f b) = f(a := x)"
  by (auto simp: fun_eq_iff)

lemma parent_step:
  assumes ha: "heap tree a = \<lparr>isLeaf = False, keys = ks, vals = [], children = map addr cs,
                              nxt = None, parent = p\<rparr>"
    and reps: "\<forall>c \<in> set cs. rep (heap tree) (Some a) c"
    and repr: "rep (heap tree) (Some a) r"
    and left: "parent (heap tree left) = Some a"
    and dist: "distinct (a # concat (map addrs cs) @ addrs r)"
    and lt: "\<forall>x \<in> set (a # concat (map addrs cs) @ addrs r). x < nalloc tree"
    and len: "length cs = length ks + 1"
  shows "\<exists>h'. insertInParent tree left k (addr r) =
            finish tree h' (splitNode (order tree) a (nalloc tree) (insAt (lowerPos ks k) k ks)
                              (insAt (lowerPos ks k + 1) r cs)) \<and>
          repRes h' p (fst (splitNode (order tree) a (nalloc tree) (insAt (lowerPos ks k) k ks)
                              (insAt (lowerPos ks k + 1) r cs))) \<and>
          (\<forall>x. x \<notin> set (a # concat (map addrs cs) @ addrs r) \<and> x \<noteq> nalloc tree \<longrightarrow>
               h' x = heap tree x)"
proof -
  let ?pos = "lowerPos ks k" and ?n = "nalloc tree"
  let ?ks' = "insAt ?pos k ks" and ?cs' = "insAt (Suc ?pos) r cs"
  let ?h1 = "(heap tree)(a := \<lparr>isLeaf = False, keys = ?ks', vals = [],
                children = map addr ?cs', nxt = None, parent = p\<rparr>)"
  let ?t1 = "tree\<lparr>heap := ?h1\<rparr>"
  have pos: "Suc ?pos \<le> length cs" using lowerPos_le [of ks k] len by simp
  have ra: "addr r \<noteq> a" using dist addr_in_addrs [of r] by auto
  have rp: "(heap tree (addr r))\<lparr>parent := Some a\<rparr> = heap tree (addr r)"
    using rep_root [OF repr] by simp
  have unfold: "insertInParent tree left k (addr r) =
      (if overfull (order tree) ?ks'
       then (case splitInternalStep ?t1 a of
               None \<Rightarrow> None
             | Some (t3, keyToPushUp, newNode) \<Rightarrow> insertInParent t3 a keyToPushUp newNode)
       else Some ?t1)"
    using left ha pos ra rp
    by (subst insertInParent.simps)
       (simp add: Let_def lowerPos_def [symmetric] map_insAt insAt_def [symmetric]
          fun_upd_other_triv)
  have ms: "mset (concat (map addrs ?cs')) = mset (concat (map addrs cs) @ addrs r)"
    by (simp add: mset_concat_insAt)
  have dist': "distinct (a # concat (map addrs ?cs'))"
  proof -
    have "distinct (concat (map addrs ?cs'))"
      using dist mset_eq_imp_distinct_iff [OF ms] by simp
    moreover have "a \<notin> set (concat (map addrs ?cs'))"
      using dist mset_eq_setD [OF ms] by auto
    ultimately show ?thesis by simp
  qed
  have lt': "\<forall>x \<in> set (a # concat (map addrs ?cs')). x < ?n"
    using lt mset_eq_setD [OF ms] by auto
  have reps': "\<forall>c \<in> set ?cs'. rep ?h1 (Some a) c"
  proof
    fix c assume c: "c \<in> set ?cs'"
    then have "c = r \<or> c \<in> set cs" by (simp add: set_insAt)
    then have r0: "rep (heap tree) (Some a) c" using reps repr by auto
    have "a \<notin> set (addrs c)" using dist' c by auto
    then show "rep ?h1 (Some a) c" using r0 by (intro rep_cong [OF r0]) auto
  qed
  show ?thesis
  proof (cases "overfull (order tree) ?ks'")
    case False
    have "rep ?h1 p (BN a ?ks' ?cs')" using reps' by simp
    then show ?thesis using False unfold
      by (intro exI [of _ ?h1]) (simp add: splitNode_def)
  next
    case True
    have "\<exists>h'. splitInternalStep ?t1 a =
            Some (?t1\<lparr>heap := h', nalloc := nalloc ?t1 + 1\<rparr>, ?ks' ! (length ?ks' div 2), nalloc ?t1) \<and>
          rep h' p (BN a (take (length ?ks' div 2) ?ks') (take (length ?ks' div 2 + 1) ?cs')) \<and>
          rep h' p (BN (nalloc ?t1) (drop (length ?ks' div 2 + 1) ?ks') (drop (length ?ks' div 2 + 1) ?cs')) \<and>
          (\<forall>x. x \<notin> set (a # concat (map addrs ?cs')) \<and> x \<noteq> nalloc ?t1 \<longrightarrow> h' x = heap ?t1 x)"
    proof (rule split_step)
      show "heap ?t1 a = \<lparr>isLeaf = False, keys = ?ks', vals = [], children = map addr ?cs',
                              nxt = None, parent = p\<rparr>" by simp
      show "\<forall>c\<in>set ?cs'. rep (heap ?t1) (Some a) c" using reps' by simp
      show "distinct (a # concat (map addrs ?cs'))" by (rule dist')
      show "\<forall>x\<in>set (a # concat (map addrs ?cs')). x < nalloc ?t1" using lt' by simp
      show "?ks' \<noteq> []" by (simp add: insAt_def)
      show "length ?ks' \<le> length ?cs'" using len by (simp add: length_insAt)
    qed
    then obtain h' where
      st: "splitInternalStep ?t1 a =
            Some (tree\<lparr>heap := h', nalloc := ?n + 1\<rparr>, ?ks' ! (length ?ks' div 2), ?n)"
      and r1: "rep h' p (BN a (take (length ?ks' div 2) ?ks') (take (length ?ks' div 2 + 1) ?cs'))"
      and r2: "rep h' p (BN ?n (drop (length ?ks' div 2 + 1) ?ks') (drop (length ?ks' div 2 + 1) ?cs'))"
      and fr: "\<forall>x. x \<notin> set (a # concat (map addrs ?cs')) \<and> x \<noteq> ?n \<longrightarrow> h' x = ?h1 x"
      by auto
    have fr': "\<forall>x. x \<notin> set (a # concat (map addrs cs) @ addrs r) \<and> x \<noteq> ?n \<longrightarrow>
                 h' x = heap tree x"
      using fr mset_eq_setD [OF ms] by auto
    show ?thesis using True unfold st r1 r2 fr'
      by (intro exI [of _ h']) (simp add: splitNode_def)
  qed
qed

lemma mset_concat_update:
  assumes "i < length cs"
  shows "mset (concat (map f (cs[i := x]))) + mset (f (cs ! i)) =
         mset (concat (map f cs)) + mset (f x)"
proof -
  have 1: "cs = take i cs @ cs ! i # drop (Suc i) cs"
    using assms by (rule id_take_nth_drop)
  have 2: "cs[i := x] = take i cs @ x # drop (Suc i) cs"
    using assms by (rule upd_conv_take_nth_drop)
  have "mset (concat (map f cs)) =
        mset (concat (map f (take i cs))) + mset (f (cs ! i)) + mset (concat (map f (drop (Suc i) cs)))"
    by (subst 1) simp
  moreover have "mset (concat (map f (cs[i := x]))) =
        mset (concat (map f (take i cs))) + mset (f x) + mset (concat (map f (drop (Suc i) cs)))"
    by (subst 2) simp
  ultimately show ?thesis by simp
qed

lemma mset_concat_take_drop:
  "mset (concat (map f (take m cs))) + mset (concat (map f (drop m cs))) = mset (concat (map f cs))"
proof -
  have "mset (concat (map f cs)) = mset (concat (map f (take m cs @ drop m cs)))" by simp
  then show ?thesis by (simp del: append_take_drop_id)
qed

lemma splitNode_addr: "resAddr (fst (splitNode ord a n ks cs)) = a"
  by (simp add: splitNode_def)

lemma splitNode_next: "n \<le> snd (splitNode ord a n ks cs)"
  by (simp add: splitNode_def)

lemma splitNode_addrs:
  "mset (resAddrs (fst (splitNode ord a n ks cs))) =
     add_mset a (mset (concat (map addrs cs))) + mset [n..<snd (splitNode ord a n ks cs)]"
  by (simp add: splitNode_def mset_concat_take_drop [symmetric, of addrs cs "Suc (length ks div 2)"])

lemma splitNode_shape:
  assumes "length cs = length ks + 1" "ks \<noteq> []" "\<forall>c \<in> set cs. shape c"
  shows "shapeRes (fst (splitNode ord a n ks cs))"
proof -
  have "length ks div 2 < length ks" using assms(2) by (cases ks) auto
  then show ?thesis using assms
    by (auto simp: splitNode_def Suc_diff_Suc dest: in_set_takeD in_set_dropD)
qed

lemma splitLeafNode_addr: "resAddr (fst (splitLeafNode ord a n ks vs nx)) = a"
  by (simp add: splitLeafNode_def)

lemma splitLeafNode_next: "n \<le> snd (splitLeafNode ord a n ks vs nx)"
  by (simp add: splitLeafNode_def)

lemma splitLeafNode_addrs:
  "mset (resAddrs (fst (splitLeafNode ord a n ks vs nx))) =
     {#a#} + mset [n..<snd (splitLeafNode ord a n ks vs nx)]"
  by (simp add: splitLeafNode_def)

lemma splitLeafNode_shape:
  "length vs = length ks \<Longrightarrow> shapeRes (fst (splitLeafNode ord a n ks vs nx))"
  by (simp add: splitLeafNode_def)

lemma treeIns_addr: "shape t \<Longrightarrow> resAddr (fst (treeIns ord key v n t)) = addr t"
proof (induction ord key v n t rule: treeIns.induct)
  case (1 ord key v n a ks vs nx)
  then show ?case by (simp add: splitLeafNode_addr)
next
  case (2 ord key v n a ks cs)
  then show ?case
    by (auto simp: splitNode_addr split: prod.split ires.split)
qed

lemma treeIns_shape: "shape t \<Longrightarrow> shapeRes (fst (treeIns ord key v n t))"
proof (induction ord key v n t rule: treeIns.induct)
  case (1 ord key v n a ks vs nx)
  then show ?case by (simp add: splitLeafNode_shape length_leafVals)
next
  case (2 ord key v n a ks cs)
  let ?i = "childIndex ks key"
  have i: "?i < length cs" using 2 childIndex_le [of ks key] by simp
  have sh: "shape (cs ! ?i)" using 2 i by simp
  obtain res n' where res: "treeIns ord key v n (cs ! ?i) = (res, n')"
    by (cases "treeIns ord key v n (cs ! ?i)")
  have IH: "shapeRes res" using "2.IH" [OF i sh] res by simp
  show ?case
  proof (cases res)
    case (Same c')
    have "\<forall>c \<in> set (cs[?i := c']). shape c"
      using 2 IH Same by (auto dest!: set_update_subset_insert [THEN subsetD])
    then show ?thesis using 2 i res Same by simp
  next
    case (Split l k r)
    have "\<forall>c \<in> set (insAt (lowerPos ks k + 1) r (cs[?i := l])). shape c"
      using 2 IH Split by (auto simp: set_insAt dest!: set_update_subset_insert [THEN subsetD])
    then have "shapeRes (fst (splitNode ord a n' (insAt (lowerPos ks k) k ks)
                 (insAt (lowerPos ks k + 1) r (cs[?i := l]))))"
      using 2 by (intro splitNode_shape) (auto simp: length_insAt insAt_def)
    then show ?thesis using i res Split by simp
  qed
qed

lemma treeIns_addrs:
  "shape t \<Longrightarrow>
   n \<le> snd (treeIns ord key v n t) \<and>
   mset (resAddrs (fst (treeIns ord key v n t))) =
     mset (addrs t) + mset [n..<snd (treeIns ord key v n t)]"
proof (induction ord key v n t rule: treeIns.induct)
  case (1 ord key v n a ks vs nx)
  then show ?case by (simp add: splitLeafNode_addrs splitLeafNode_next)
next
  case (2 ord key v n a ks cs)
  let ?i = "childIndex ks key"
  have i: "?i < length cs" using 2 childIndex_le [of ks key] by simp
  have sh: "shape (cs ! ?i)" using 2 i by simp
  obtain res n' where res: "treeIns ord key v n (cs ! ?i) = (res, n')"
    by (cases "treeIns ord key v n (cs ! ?i)")
  have IH: "n \<le> n'" "mset (resAddrs res) = mset (addrs (cs ! ?i)) + mset [n..<n']"
    using "2.IH" [OF i sh] res by simp_all
  show ?case
  proof (cases res)
    case (Same c')
    have "mset (concat (map addrs (cs[?i := c']))) + mset (addrs (cs ! ?i)) =
          mset (concat (map addrs cs)) + mset (addrs c')"
      by (rule mset_concat_update [OF i])
    then have "mset (concat (map addrs (cs[?i := c']))) =
          mset (concat (map addrs cs)) + mset [n..<n']"
      using IH Same by simp
    then show ?thesis using i res Same IH by simp
  next
    case (Split l k r)
    let ?cs' = "insAt (lowerPos ks k + 1) r (cs[?i := l])"
    let ?sn = "splitNode ord a n' (insAt (lowerPos ks k) k ks) ?cs'"
    have "mset (concat (map addrs (cs[?i := l]))) + mset (addrs (cs ! ?i)) =
          mset (concat (map addrs cs)) + mset (addrs l)"
      by (rule mset_concat_update [OF i])
    then have "mset (concat (map addrs ?cs')) + mset (addrs (cs ! ?i)) =
          mset (concat (map addrs cs)) + mset (addrs l) + mset (addrs r)"
      by (simp add: mset_concat_insAt)
    moreover have "mset (addrs l) + mset (addrs r) = mset (addrs (cs ! ?i)) + mset [n..<n']"
      using IH Split by simp
    ultimately have "mset (concat (map addrs ?cs')) + mset (addrs (cs ! ?i)) =
          (mset (concat (map addrs cs)) + mset [n..<n']) + mset (addrs (cs ! ?i))"
      by (simp only: add.assoc) (simp only: add.commute)
    then have cs': "mset (concat (map addrs ?cs')) = mset (concat (map addrs cs)) + mset [n..<n']"
      by (simp only: add_right_cancel)
    have n': "n' \<le> snd ?sn" by (rule splitNode_next)
    have "mset [n..<snd ?sn] = mset [n..<n'] + mset [n'..<snd ?sn]"
      using IH(1) n' by (metis mset_append upt_add_eq_append le_Suc_ex)
    then have "mset (resAddrs (fst ?sn)) = mset (addrs (BN a ks cs)) + mset [n..<snd ?sn]"
      using cs' by (simp add: splitNode_addrs)
    then show ?thesis using i res Split IH n' by simp
  qed
qed

lemma distinct_concat_nth_disj:
  assumes "distinct (concat xss)" "i < length xss" "j < length xss" "i \<noteq> j"
  shows "set (xss ! i) \<inter> set (xss ! j) = {}"
proof -
  have aux: "set (xss ! i) \<inter> set (xss ! j) = {}"
    if "i < j" "j < length xss" "distinct (concat xss)" for i j
  proof -
    have "xss = take j xss @ xss ! j # drop (Suc j) xss"
      using that by (simp add: id_take_nth_drop)
    then have "distinct (concat (take j xss) @ xss ! j @ concat (drop (Suc j) xss))"
      using that(3) by (metis concat.simps(2) concat_append)
    then have "set (concat (take j xss)) \<inter> set (xss ! j) = {}" by auto
    moreover have "xss ! i \<in> set (take j xss)"
      using that by (metis in_set_conv_nth length_take min.absorb2 less_imp_le nth_take)
    ultimately show ?thesis by auto
  qed
  show ?thesis
  proof (cases "i < j")
    case True
    then show ?thesis using aux assms by simp
  next
    case False
    then have "j < i" using assms(4) by simp
    then have "set (xss ! j) \<inter> set (xss ! i) = {}" using aux assms by simp
    then show ?thesis by auto
  qed
qed

lemma in_set_updateD:
  "c \<in> set (cs[i := x]) \<Longrightarrow> c = x \<or> (\<exists>j < length cs. j \<noteq> i \<and> c = cs ! j)"
  by (metis in_set_conv_nth length_list_update nth_list_update_eq nth_list_update_neq)

lemma map_update_same:
  "f x = f (cs ! i) \<Longrightarrow> map f (cs[i := x]) = map f cs"
  by (induction cs arbitrary: i) (auto split: nat.split)

lemma finish_upd [simp]:
  "finish (tree\<lparr>heap := h, nalloc := n\<rparr>) h' res = finish tree h' res"
proof -
  obtain r n' where "res = (r, n')" by (cases res)
  then show ?thesis by (cases r) simp_all
qed

lemma ins_refine:
  assumes "rep (heap tree) p t" "shape t" "distinct (addrs t)"
    and "\<forall>x \<in> set (addrs t). x < n" "order tree = ord" "nalloc tree = n"
  shows "\<exists>h'. insertAtLeaf tree (addr (leafOf t key)) key v =
            finish tree h' (treeIns ord key v n t) \<and>
          repRes h' p (fst (treeIns ord key v n t)) \<and>
          (\<forall>x. x < n \<and> x \<notin> set (addrs t) \<longrightarrow> h' x = heap tree x)"
  using assms
proof (induction ord key v n t arbitrary: p rule: treeIns.induct)
  case (1 ord key v n a ks vs nx)
  have "\<exists>h'. insertAtLeaf tree a key v =
            finish tree h' (splitLeafNode (order tree) a (nalloc tree) (leafKeys key ks)
                              (leafVals key v ks vs) nx) \<and>
          repRes h' p (fst (splitLeafNode (order tree) a (nalloc tree) (leafKeys key ks)
                              (leafVals key v ks vs) nx)) \<and>
          (\<forall>x. x \<noteq> a \<and> x \<noteq> nalloc tree \<longrightarrow> h' x = heap tree x)"
    using 1 by (intro leaf_step) auto
  then show ?case using 1 by auto
next
  case (2 ord key v n a ks cs)
  let ?i = "childIndex ks key" and ?h = "heap tree"
  let ?c = "cs ! ?i"
  have i: "?i < length cs" using 2 childIndex_le [of ks key] by simp
  have cin: "?c \<in> set cs" using i by simp
  have ha: "?h a = \<lparr>isLeaf = False, keys = ks, vals = [], children = map addr cs, nxt = None,
                    parent = p\<rparr>"
    and reps: "\<forall>c \<in> set cs. rep ?h (Some a) c"
    using "2.prems"(1) by simp_all
  have dcs: "distinct (concat (map addrs cs))" and acs: "a \<notin> set (concat (map addrs cs))"
    using "2.prems"(3) by simp_all
  have ltn: "a < n" "\<forall>x \<in> set (concat (map addrs cs)). x < n" using "2.prems"(4) by simp_all
  have subc: "set (addrs ?c) \<subseteq> set (concat (map addrs cs))" using cin by auto
  have dc: "distinct (addrs ?c)" using dcs cin by (auto simp: distinct_concat_iff)
  have "\<exists>h'. insertAtLeaf tree (addr (leafOf ?c key)) key v =
            finish tree h' (treeIns ord key v n ?c) \<and>
          repRes h' (Some a) (fst (treeIns ord key v n ?c)) \<and>
          (\<forall>x. x < n \<and> x \<notin> set (addrs ?c) \<longrightarrow> h' x = ?h x)"
    using "2.prems" i cin reps dc subc ltn
    by (intro "2.IH") auto
  then obtain h1 where
    e1: "insertAtLeaf tree (addr (leafOf ?c key)) key v = finish tree h1 (treeIns ord key v n ?c)"
    and r1: "repRes h1 (Some a) (fst (treeIns ord key v n ?c))"
    and f1: "\<forall>x. x < n \<and> x \<notin> set (addrs ?c) \<longrightarrow> h1 x = ?h x"
    by blast
  obtain res n1 where res: "treeIns ord key v n ?c = (res, n1)"
    by (cases "treeIns ord key v n ?c")
  have shc: "shape ?c" using "2.prems"(2) cin by simp
  have n1: "n \<le> n1" and ms: "mset (resAddrs res) = mset (addrs ?c) + mset [n..<n1]"
    using treeIns_addrs [OF shc, of n ord key v] res by simp_all
  have ra: "resAddr res = addr ?c" using treeIns_addr [OF shc, of ord key v n] res by simp
  have h1a: "h1 a = ?h a" using f1 ltn acs subc by auto
  have sib: "rep h1 (Some a) (cs ! j)" if "j < length cs" "j \<noteq> ?i" for j
  proof (rule rep_cong)
    show "rep ?h (Some a) (cs ! j)" using reps that by simp
    have "set (map addrs cs ! j) \<inter> set (map addrs cs ! ?i) = {}"
      using dcs that i by (intro distinct_concat_nth_disj) auto
    then have dj: "set (addrs (cs ! j)) \<inter> set (addrs ?c) = {}" using that i by simp
    show "\<forall>x\<in>set (addrs (cs ! j)). h1 x = ?h x"
    proof
      fix x assume x: "x \<in> set (addrs (cs ! j))"
      then have "x \<in> set (concat (map addrs cs))" using that by auto
      then have "x < n" using ltn(2) by blast
      moreover have "x \<notin> set (addrs ?c)" using x dj by auto
      ultimately show "h1 x = ?h x" using f1 by simp
    qed
  qed
  have lf: "leafOf (BN a ks cs) key = leafOf ?c key" using i by simp
  show ?case
  proof (cases res)
    case (Same c')
    have ac': "addr c' = addr ?c" using ra Same by simp
    have r1': "rep h1 (Some a) c'" using r1 res Same by simp
    have "\<forall>c \<in> set (cs[?i := c']). rep h1 (Some a) c"
      using sib r1' by (auto dest!: in_set_updateD)
    moreover have "map addr (cs[?i := c']) = map addr cs"
      using ac' by (rule map_update_same)
    ultimately have "rep h1 p (BN a ks (cs[?i := c']))" using h1a ha by simp
    moreover have "\<forall>x. x < n \<and> x \<notin> set (addrs (BN a ks cs)) \<longrightarrow> h1 x = ?h x"
      using f1 subc by auto
    ultimately show ?thesis using e1 res Same i lf
      by (intro exI [of _ h1]) simp
  next
    case (Split l k r)
    let ?t1 = "tree\<lparr>heap := h1, nalloc := n1\<rparr>"
    let ?cs1 = "cs[?i := l]"
    have al: "addr l = addr ?c" using ra Split by simp
    have rl: "rep h1 (Some a) l" and rr: "rep h1 (Some a) r" using r1 res Split by simp_all
    have reps1: "\<forall>c \<in> set ?cs1. rep h1 (Some a) c"
      using sib rl by (auto dest!: in_set_updateD)
    have maddr: "map addr ?cs1 = map addr cs" using al by (rule map_update_same)
    have "mset (concat (map addrs ?cs1)) + mset (addrs ?c) =
          mset (concat (map addrs cs)) + mset (addrs l)"
      by (rule mset_concat_update [OF i])
    then have "(mset (concat (map addrs ?cs1)) + mset (addrs r)) + mset (addrs ?c) =
          mset (concat (map addrs cs)) + (mset (addrs l) + mset (addrs r))"
      by (simp add: ac_simps)
    also have "\<dots> = (mset (concat (map addrs cs)) + mset [n..<n1]) + mset (addrs ?c)"
      using ms Split by (simp add: ac_simps)
    finally have ms1: "mset (concat (map addrs ?cs1) @ addrs r) =
          mset (concat (map addrs cs) @ [n..<n1])"
      by simp
    have "set (concat (map addrs cs)) \<inter> set [n..<n1] = {}" using ltn(2) by fastforce
    then have "distinct (concat (map addrs cs) @ [n..<n1])" using dcs by simp
    then have d1: "distinct (concat (map addrs ?cs1) @ addrs r)"
      using mset_eq_imp_distinct_iff [OF ms1] by simp
    have s1: "set (concat (map addrs ?cs1) @ addrs r) = set (concat (map addrs cs)) \<union> {n..<n1}"
      using mset_eq_setD [OF ms1] by simp
    have "\<exists>h'. insertInParent ?t1 (addr l) k (addr r) =
            finish ?t1 h' (splitNode (order ?t1) a (nalloc ?t1) (insAt (lowerPos ks k) k ks)
                              (insAt (lowerPos ks k + 1) r ?cs1)) \<and>
          repRes h' p (fst (splitNode (order ?t1) a (nalloc ?t1) (insAt (lowerPos ks k) k ks)
                              (insAt (lowerPos ks k + 1) r ?cs1))) \<and>
          (\<forall>x. x \<notin> set (a # concat (map addrs ?cs1) @ addrs r) \<and> x \<noteq> nalloc ?t1 \<longrightarrow>
               h' x = heap ?t1 x)"
    proof (rule parent_step)
      show "heap ?t1 a = \<lparr>isLeaf = False, keys = ks, vals = [], children = map addr ?cs1,
                              nxt = None, parent = p\<rparr>"
        using h1a ha maddr by simp
      show "\<forall>c\<in>set ?cs1. rep (heap ?t1) (Some a) c" using reps1 by simp
      show "rep (heap ?t1) (Some a) r" using rr by simp
      show "parent (heap ?t1 (addr l)) = Some a" using rep_root [OF rl] by simp
      show "distinct (a # concat (map addrs ?cs1) @ addrs r)"
        using d1 s1 acs ltn by auto
      have S: "set (a # concat (map addrs ?cs1) @ addrs r) =
                 insert a (set (concat (map addrs cs)) \<union> {n..<n1})"
        by (simp only: list.set s1)
      have "\<forall>x\<in>set (concat (map addrs cs)). x < n1" using ltn(2) n1 by fastforce
      then show "\<forall>x\<in>set (a # concat (map addrs ?cs1) @ addrs r). x < nalloc ?t1"
        unfolding S using ltn(1) n1 by auto
      show "length ?cs1 = length ks + 1" using "2.prems"(2) by simp
    qed
    then obtain h2 where
      e2: "insertInParent ?t1 (addr l) k (addr r) =
            finish tree h2 (splitNode ord a n1 (insAt (lowerPos ks k) k ks)
                              (insAt (lowerPos ks k + 1) r ?cs1))"
      and r2: "repRes h2 p (fst (splitNode ord a n1 (insAt (lowerPos ks k) k ks)
                              (insAt (lowerPos ks k + 1) r ?cs1)))"
      and f2: "\<forall>x. x \<notin> set (a # concat (map addrs ?cs1) @ addrs r) \<and> x \<noteq> n1 \<longrightarrow> h2 x = h1 x"
      using "2.prems"(5) by auto
    have "\<forall>x. x < n \<and> x \<notin> set (addrs (BN a ks cs)) \<longrightarrow> h2 x = ?h x"
    proof (intro allI impI)
      fix x assume x: "x < n \<and> x \<notin> set (addrs (BN a ks cs))"
      then have "x \<notin> set (a # concat (map addrs ?cs1) @ addrs r)" "x \<noteq> n1"
        using s1 n1 by auto
      then have "h2 x = h1 x" using f2 by simp
      moreover have "h1 x = ?h x" using f1 x subc by auto
      ultimately show "h2 x = ?h x" by simp
    qed
    then show ?thesis using e1 e2 r2 res Split i lf
      by (intro exI [of _ h2]) simp
  qed
qed

lemma Insert_insertAtLeaf:
  assumes "root tree = Some (addr t)" "rep (heap tree) p t" "shape t"
  shows "Insert tree key v = insertAtLeaf tree (addr (leafOf t key)) key v"
  using assms findLeaf_leafOf [OF assms(2,3), of key]
  by (simp add: Insert_def insertAtLeaf_def)

lemma new_root:
  assumes rl: "rep h None l" and rr: "rep h None r"
    and dist: "distinct (addrs l @ addrs r)"
    and lt: "\<forall>x \<in> set (addrs l @ addrs r). x < n"
  shows "\<exists>h'. insertInParent (tree\<lparr>heap := h, nalloc := n\<rparr>) (addr l) k (addr r) =
             Some (tree\<lparr>root := Some n, heap := h', nalloc := n + 1\<rparr>) \<and>
           rep h' None (BN n [k] [l, r])"
proof -
  let ?new = "\<lparr>isLeaf = False, keys = [k], vals = [], children = [addr l, addr r],
               nxt = None, parent = None\<rparr>"
  let ?h' = "(h(n := ?new, addr l := (h (addr l))\<lparr>parent := Some n\<rparr>))
               (addr r := (h (addr r))\<lparr>parent := Some n\<rparr>)"
  have al: "addr l \<in> set (addrs l)" and ar: "addr r \<in> set (addrs r)"
    by (rule addr_in_addrs)+
  have ne: "addr l \<noteq> n" "addr r \<noteq> n" "addr l \<noteq> addr r"
    using al ar lt dist by auto
  have "insertInParent (tree\<lparr>heap := h, nalloc := n\<rparr>) (addr l) k (addr r) =
          Some (tree\<lparr>root := Some n, heap := ?h', nalloc := n + 1\<rparr>)"
    using rep_root [OF rl] ne
    by (subst insertInParent.simps) (simp add: Let_def)
  moreover have "rep ?h' (Some n) l"
  proof (rule rep_reparent [OF rl])
    show "distinct (addrs l)" using dist by simp
    show "?h' (addr l) = (h (addr l))\<lparr>parent := Some n\<rparr>" using ne by simp
    show "\<forall>x\<in>set (addrs l). x \<noteq> addr l \<longrightarrow> ?h' x = h x"
      using dist lt ar by auto
  qed
  moreover have "rep ?h' (Some n) r"
  proof (rule rep_reparent [OF rr])
    show "distinct (addrs r)" using dist by simp
    show "?h' (addr r) = (h (addr r))\<lparr>parent := Some n\<rparr>" using ne by simp
    show "\<forall>x\<in>set (addrs r). x \<noteq> addr r \<longrightarrow> ?h' x = h x"
      using dist lt al by auto
  qed
  ultimately show ?thesis using ne by (intro exI [of _ ?h']) simp
qed

lemma holds_lt: "holds tree t \<Longrightarrow> \<forall>x \<in> set (addrs t). x < nalloc tree"
  by (auto simp: holds_def)

lemma Insert_refine:
  assumes "holds tree t"
  shows "\<exists>tree'. Insert tree key v = Some tree' \<and>
           holds tree' (fst (rootIns (order tree) key v (nalloc tree) t)) \<and>
           order tree' = order tree \<and>
           nalloc tree' = snd (rootIns (order tree) key v (nalloc tree) t)"
proof -
  let ?n = "nalloc tree" and ?ord = "order tree"
  have rt: "root tree = Some (addr t)" and rp: "rep (heap tree) None t" and sh: "shape t"
    and di: "distinct (addrs t)" and se: "set (addrs t) = {..<?n}"
    using assms by (simp_all add: holds_def)
  have lt: "\<forall>x \<in> set (addrs t). x < ?n" using se by simp
  obtain res n' where res: "treeIns ?ord key v ?n t = (res, n')"
    by (cases "treeIns ?ord key v ?n t")
  have "\<exists>h'. insertAtLeaf tree (addr (leafOf t key)) key v =
            finish tree h' (treeIns ?ord key v ?n t) \<and>
          repRes h' None (fst (treeIns ?ord key v ?n t)) \<and>
          (\<forall>x. x < ?n \<and> x \<notin> set (addrs t) \<longrightarrow> h' x = heap tree x)"
    by (rule ins_refine [OF rp sh di lt refl refl])
  then obtain h' where
    e0: "insertAtLeaf tree (addr (leafOf t key)) key v = finish tree h' (treeIns ?ord key v ?n t)"
    and r0: "repRes h' None (fst (treeIns ?ord key v ?n t))"
    by blast
  have e: "Insert tree key v = finish tree h' (res, n')"
    using e0 Insert_insertAtLeaf [OF rt rp sh, of key v] res by simp
  have r: "repRes h' None res" using r0 res by simp
  have n': "?n \<le> n'" and ms: "mset (resAddrs res) = mset (addrs t @ [?n..<n'])"
    using treeIns_addrs [OF sh, of ?n ?ord key v] res by simp_all
  have "set (addrs t) \<inter> set [?n..<n'] = {}" unfolding se by auto
  then have "distinct (addrs t @ [?n..<n'])" using di by simp
  then have dres: "distinct (resAddrs res)" using mset_eq_imp_distinct_iff [OF ms] by simp
  have "set (addrs t @ [?n..<n']) = {..<n'}"
    unfolding set_append se using n' by (simp add: ivl_disj_un)
  then have sres: "set (resAddrs res) = {..<n'}"
    using mset_eq_setD [OF ms] by simp
  have shres: "shapeRes res" using treeIns_shape [OF sh, of ?ord key v ?n] res by simp
  have ares: "resAddr res = addr t" using treeIns_addr [OF sh, of ?ord key v ?n] res by simp
  have ri: "rootIns ?ord key v ?n t =
      (case res of Same t' \<Rightarrow> (t', n') | Split l k r \<Rightarrow> (BN n' [k] [l, r], n' + 1))"
    using res by (simp add: rootIns_def)
  show ?thesis
  proof (cases res)
    case (Same t')
    have "Insert tree key v = Some (tree\<lparr>heap := h', nalloc := n'\<rparr>)"
      using e Same by simp
    moreover have "holds (tree\<lparr>heap := h', nalloc := n'\<rparr>) t'"
      using r dres sres shres ares rt Same by (simp add: holds_def)
    ultimately show ?thesis using Same ri by simp
  next
    case (Split l k r')
    have "\<exists>h''. insertInParent (tree\<lparr>heap := h', nalloc := n'\<rparr>) (addr l) k (addr r') =
             Some (tree\<lparr>root := Some n', heap := h'', nalloc := n' + 1\<rparr>) \<and>
           rep h'' None (BN n' [k] [l, r'])"
    proof (rule new_root)
      show "rep h' None l" "rep h' None r'" using r Split by simp_all
      show "distinct (addrs l @ addrs r')" using dres Split by simp
      show "\<forall>x\<in>set (addrs l @ addrs r'). x < n'" using sres Split by auto
    qed
    then obtain h'' where
      i: "Insert tree key v = Some (tree\<lparr>root := Some n', heap := h'', nalloc := n' + 1\<rparr>)"
      and rr: "rep h'' None (BN n' [k] [l, r'])"
      using e Split by auto
    have d2: "distinct (addrs (BN n' [k] [l, r']))"
      using dres sres Split by auto
    have s2: "set (addrs (BN n' [k] [l, r'])) = {..<n' + 1}"
      using sres Split by (auto simp: lessThan_Suc)
    have sh2: "shape (BN n' [k] [l, r'])" using shres Split by simp
    have "holds (tree\<lparr>root := Some n', heap := h'', nalloc := n' + 1\<rparr>) (BN n' [k] [l, r'])"
      unfolding holds_def using rr d2 s2 sh2 by simp
    then show ?thesis using i Split ri by simp
  qed
qed

lemma holds_New: "holds (NewBPlusTree ord) (BL 0 [] [] None)"
  by (auto simp: holds_def NewBPlusTree_def)

lemma insertAll_refine:
  assumes "holds tree t"
  shows "\<exists>tree'. insertAll tree kvs = Some tree' \<and>
           holds tree' (fst (rootInsAll (order tree) kvs (t, nalloc tree))) \<and>
           order tree' = order tree \<and>
           nalloc tree' = snd (rootInsAll (order tree) kvs (t, nalloc tree))"
  using assms
proof (induction kvs arbitrary: tree t)
  case Nil
  then show ?case by simp
next
  case (Cons kv kvs)
  obtain k v where kv: "kv = (k, v)" by (cases kv)
  obtain tree1 where t1: "Insert tree k v = Some tree1"
    "holds tree1 (fst (rootIns (order tree) k v (nalloc tree) t))"
    "order tree1 = order tree"
    "nalloc tree1 = snd (rootIns (order tree) k v (nalloc tree) t)"
    using Insert_refine [OF Cons.prems] by blast
  show ?case using Cons.IH [OF t1(2)] t1 kv by simp
qed

lemma sint_thresh:
  assumes "ordOK ord"
  shows "sint (ord * 2 - 1) = 2 * sint ord - 1"
proof -
  have r: "- (2 ^ 63) \<le> 2 * sint ord - 1" "2 * sint ord - 1 < 2 ^ 63"
    using assms by (simp_all add: ordOK_def)
  have r2: "- (2 ^ 63) \<le> sint ord * 2" "sint ord * 2 < 2 ^ 63"
    using assms by (simp_all add: ordOK_def)
  have "sint (ord * 2) = sint ord * 2"
    using r2 by (simp add: sint_word_ariths signed_take_bit_int_eq_self)
  then have "sint (ord * 2 - 1) = signed_take_bit 63 (sint ord * 2 - 1)"
    by (simp add: sint_word_ariths)
  also have "\<dots> = 2 * sint ord - 1"
    using r by (simp add: signed_take_bit_int_eq_self mult.commute)
  finally show ?thesis .
qed

lemma overfull_iff: "ordOK ord \<Longrightarrow> overfull ord ks \<longleftrightarrow> 2 * sint ord \<le> int (length ks)"
  by (auto simp: overfull_def sint_thresh)

lemma ordOK_64: "ordOK 64"
  by (simp add: ordOK_def)


lemma overfull_ge2: "ordOK ord \<Longrightarrow> overfull ord ks \<Longrightarrow> 2 \<le> length ks"
  by (simp add: overfull_iff ordOK_def)

text \<open>Insertion into the keys and values of a leaf.\<close>

lemma lowerPos_Cons:
  "lowerPos (x # xs) key = (if x < key then Suc (lowerPos xs key) else 0)"
  by (simp add: lowerPos_def)

lemma leaf_addEntry:
  "length vs = length ks \<Longrightarrow>
   zip (leafKeys key ks) (leafVals key v ks vs) = addEntry key v (zip ks vs)"
proof (induction ks arbitrary: vs)
  case Nil
  then show ?case by (simp add: leafKeys_def leafVals_def lowerPos_def insAt_def)
next
  case (Cons x xs)
  then obtain w ws where vs: "vs = w # ws" "length ws = length xs" by (cases vs) auto
  have IH: "zip (leafKeys key xs) (leafVals key v xs ws) = addEntry key v (zip xs ws)"
    using Cons.IH vs by simp
  show ?case
  proof (cases "x < key")
    case True
    have "leafKeys key (x # xs) = x # leafKeys key xs"
      using True by (simp add: leafKeys_def lowerPos_Cons insAt_def)
    moreover have "leafVals key v (x # xs) (w # ws) = w # leafVals key v xs ws"
      using True by (simp add: leafVals_def lowerPos_Cons insAt_def)
    ultimately show ?thesis using True IH vs by simp
  next
    case False
    then show ?thesis using vs
      by (auto simp: leafKeys_def leafVals_def lowerPos_Cons insAt_def)
  qed
qed

lemma map_fst_addEntry: "set (map fst (addEntry k v es)) = insert k (set (map fst es))"
proof (induction es)
  case Nil
  then show ?case by simp
next
  case (Cons e es)
  obtain k' vs where e: "e = (k', vs)" by (cases e)
  have "set (map fst (addEntry k v ((k', vs) # es))) = insert k (insert k' (set (map fst es)))"
    using Cons.IH by (cases "k' < k"; cases "k' = k") (simp_all add: insert_commute)
  then show ?case using e by simp
qed

lemma map_fst_addEntry_set: "fst ` set (addEntry k v es) = insert k (fst ` set es)"
  using map_fst_addEntry [of k v es] by simp

lemma sorted_addEntry:
  "sorted_wrt (<) (map fst es) \<Longrightarrow> sorted_wrt (<) (map fst (addEntry k v es))"
proof (induction es)
  case Nil
  then show ?case by simp
next
  case (Cons e es)
  obtain k' vs where e: "e = (k', vs)" by (cases e)
  have "\<forall>y \<in> fst ` set (addEntry k v es). k' < y" if "k' < k"
    using Cons.prems e that by (auto simp: map_fst_addEntry_set)
  then show ?case using Cons e by auto
qed

lemma leafKeys_addEntry:
  "leafKeys key ks = map fst (addEntry key v (zip ks (map (\<lambda>_. []) ks)))"
proof -
  have "map fst (zip (leafKeys key ks) (leafVals key v ks (map (\<lambda>_. []) ks))) = leafKeys key ks"
    using length_leafVals [of "map (\<lambda>_. []) ks" ks key v] by simp
  then show ?thesis using leaf_addEntry [of "map (\<lambda>_. []) ks" ks key v] by simp
qed

lemma sorted_leafKeys: "sorted_wrt (<) ks \<Longrightarrow> sorted_wrt (<) (leafKeys key ks)"
  using sorted_addEntry [of "zip ks (map (\<lambda>_. []) ks)" key undefined]
  by (simp add: leafKeys_addEntry [of key ks undefined])

lemma set_leafKeys: "set (leafKeys key ks) = insert key (set ks)"
  using map_fst_addEntry_set [of key undefined "zip ks (map (\<lambda>_. []) ks)"]
  by (simp add: leafKeys_addEntry [of key ks undefined] flip: set_map)

lemma nth_insAt:
  "i \<le> length xs \<Longrightarrow>
   insAt i x xs ! j = (if j < i then xs ! j else if j = i then x else xs ! (j - 1))"
  by (auto simp: insAt_def nth_append nth_Cons' min_def)

lemma childIndex_before: "j < childIndex ks key \<Longrightarrow> ks ! j \<le> key"
proof -
  assume j: "j < childIndex ks key"
  then have "takeWhile (\<lambda>k. \<not> key < k) ks ! j = ks ! j"
    by (simp add: childIndex_def takeWhile_nth)
  moreover have "takeWhile (\<lambda>k. \<not> key < k) ks ! j \<in> set (takeWhile (\<lambda>k. \<not> key < k) ks)"
    using j by (simp add: childIndex_def)
  ultimately show ?thesis by (metis set_takeWhileD not_less)
qed

lemma childIndex_at: "childIndex ks key < length ks \<Longrightarrow> key < ks ! childIndex ks key"
  using nth_length_takeWhile [of "\<lambda>k. \<not> key < k" ks] by (simp add: childIndex_def)

lemma fits_childIndex:
  assumes "sorted_wrt (<) ks"
  shows "fits ks (childIndex ks key) {key}"
  unfolding fits_def
proof (intro allI impI ballI)
  fix j x assume j: "j < length ks" and "x \<in> {key}"
  then have x: "x = key" by simp
  let ?i = "childIndex ks key"
  show "if ?i \<le> j then x < ks ! j else ks ! j \<le> x"
  proof (cases "?i \<le> j")
    case True
    then have i: "?i < length ks" using j by simp
    have "key < ks ! ?i" by (rule childIndex_at [OF i])
    moreover have "ks ! ?i \<le> ks ! j"
      using True j assms by (cases "?i = j") (auto simp: sorted_wrt_iff_nth_less less_imp_le)
    ultimately show ?thesis using True x by simp
  next
    case False
    then show ?thesis using x childIndex_before [of j ks key] by simp
  qed
qed

lemma fits_Un: "fits ks i (X \<union> Y) \<longleftrightarrow> fits ks i X \<and> fits ks i Y"
  by (auto simp: fits_def)

lemma fits_mono: "fits ks i Y \<Longrightarrow> X \<subseteq> Y \<Longrightarrow> fits ks i X"
  by (auto simp: fits_def)

lemma lowerPos_eq:
  assumes "i \<le> length ks" "\<forall>j < i. ks ! j < k" "\<forall>j. i \<le> j \<and> j < length ks \<longrightarrow> k < ks ! j"
  shows "lowerPos ks k = i"
proof -
  have "takeWhile (\<lambda>x. x < k) ks = take i ks"
  proof (rule takeWhile_eq_take_P_nth)
    show "\<And>j. j < i \<Longrightarrow> j < length ks \<Longrightarrow> ks ! j < k" using assms(2) by simp
    show "i < length ks \<Longrightarrow> \<not> ks ! i < k" using assms(3) by (auto simp: not_less less_imp_le)
  qed
  then show ?thesis using assms(1) by (simp add: lowerPos_def)
qed

lemma sorted_insAt:
  assumes "sorted_wrt (<) (ks :: Key list)" "i \<le> length ks" "\<forall>j < i. ks ! j < k"
    and "\<forall>j. i \<le> j \<and> j < length ks \<longrightarrow> k < ks ! j"
  shows "sorted_wrt (<) (insAt i k ks)"
proof -
  have "sorted_wrt (<) (take i ks)" "sorted_wrt (<) (drop i ks)"
    using assms(1) by (simp_all add: sorted_wrt_take sorted_wrt_drop)
  moreover have tk: "\<forall>x \<in> set (take i ks). x < k"
    using assms(2,3) by (auto simp: in_set_conv_nth)
  moreover have dk: "\<forall>y \<in> set (drop i ks). k < y"
    using assms(2,4) by (auto simp: in_set_conv_nth)
  moreover have "\<forall>x \<in> set (take i ks). \<forall>y \<in> set (drop i ks). x < y"
  proof (intro ballI)
    fix x y assume "x \<in> set (take i ks)" "y \<in> set (drop i ks)"
    then have "x < k" "k < y" using tk dk by auto
    then show "x < y" by (rule less_trans)
  qed
  ultimately show ?thesis by (simp add: insAt_def sorted_wrt_append)
qed

text \<open>Insertion of the halves of a split child into a node.\<close>

lemma node_ins:
  assumes so: "sorted_wrt (<) ks" and len: "length cs = length ks + 1"
    and ft: "\<forall>j < length cs. fits ks j (allKeys (cs ! j))"
    and i: "i = childIndex ks key"
    and sub: "allKeys l \<union> {k} \<union> allKeys r \<subseteq> insert key (allKeys (cs ! i))"
    and lk: "\<forall>x \<in> allKeys l. x < k" and rk: "\<forall>x \<in> allKeys r. k \<le> x"
    and ne: "allKeys l \<noteq> {}"
  shows "lowerPos ks k = i"
    and "sorted_wrt (<) (insAt i k ks)"
    and "\<forall>j < length cs + 1.
           fits (insAt i k ks) j (allKeys (insAt (i + 1) r (cs[i := l]) ! j))"
proof -
  have ilen: "i \<le> length ks" "i < length cs" using i childIndex_le [of ks key] len by simp_all
  have "fits ks i (allKeys (cs ! i))" using ft ilen by simp
  moreover have "fits ks i {key}" using fits_childIndex [OF so] i by simp
  ultimately have "fits ks i (insert key (allKeys (cs ! i)))"
    using fits_Un [of ks i "{key}" "allKeys (cs ! i)"] by simp
  then have slot: "fits ks i (allKeys l \<union> {k} \<union> allKeys r)"
    using sub by (rule fits_mono)
  have slotD: "\<And>j x. j < length ks \<Longrightarrow> x \<in> allKeys l \<union> {k} \<union> allKeys r \<Longrightarrow>
      (if i \<le> j then x < ks ! j else ks ! j \<le> x)"
    using slot unfolding fits_def by blast
  have oldD: "\<And>j' j x. j' < length cs \<Longrightarrow> j < length ks \<Longrightarrow> x \<in> allKeys (cs ! j') \<Longrightarrow>
      (if j' \<le> j then x < ks ! j else ks ! j \<le> x)"
    using ft unfolding fits_def by blast
  obtain x0 where x0: "x0 \<in> allKeys l" using ne by auto
  have lowk: "\<forall>j < i. ks ! j < k"
  proof (intro allI impI)
    fix j assume j: "j < i"
    then have "ks ! j \<le> x0" using slotD [of j x0] x0 ilen by simp
    then show "ks ! j < k" using lk x0 by auto
  qed
  have highk: "\<forall>j. i \<le> j \<and> j < length ks \<longrightarrow> k < ks ! j"
    using slotD [of _ k] by auto
  show "lowerPos ks k = i" by (rule lowerPos_eq [OF ilen(1) lowk highk])
  show "sorted_wrt (<) (insAt i k ks)" by (rule sorted_insAt [OF so ilen(1) lowk highk])
  show "\<forall>j < length cs + 1.
           fits (insAt i k ks) j (allKeys (insAt (i + 1) r (cs[i := l]) ! j))"
    unfolding fits_def
  proof (intro allI impI ballI)
    fix j' j x
    assume j': "j' < length cs + 1" and j: "j < length (insAt i k ks)"
      and x: "x \<in> allKeys (insAt (i + 1) r (cs[i := l]) ! j')"
    have jl: "j \<le> length ks" using j by (simp add: length_insAt)
    have kj: "insAt i k ks ! j = (if j < i then ks ! j else if j = i then k else ks ! (j - 1))"
      using ilen by (simp add: nth_insAt)
    have cj: "insAt (i + 1) r (cs[i := l]) ! j' =
        (if j' < i then cs ! j' else if j' = i then l else if j' = i + 1 then r else cs ! (j' - 1))"
      using ilen by (auto simp: nth_insAt)
    consider (before) "j' < i" | (left) "j' = i" | (right) "j' = i + 1" | (after) "i + 1 < j'"
      by linarith
    then show "if j' \<le> j then x < insAt i k ks ! j else insAt i k ks ! j \<le> x"
    proof cases
      case before
      then have xc: "x \<in> allKeys (cs ! j')" using x cj by simp
      have j'c: "j' < length cs" "j' < length ks" using before ilen by simp_all
      consider "j < i" | "j = i" | "i < j" by linarith
      then show ?thesis
      proof cases
        case 1
        then show ?thesis using oldD [OF j'c(1) _ xc, of j] kj ilen by simp
      next
        case 2
        have "x < ks ! j'" using oldD [OF j'c(1) j'c(2) xc] by simp
        moreover have "ks ! j' < k" using lowk before by simp
        ultimately show ?thesis using 2 kj before by simp
      next
        case 3
        then have "j - 1 < length ks" "j' \<le> j - 1" using jl before by simp_all
        then show ?thesis using oldD [OF j'c(1) _ xc, of "j - 1"] kj 3 before by simp
      qed
    next
      case left
      then have xl: "x \<in> allKeys l" using x cj by simp
      consider "j < i" | "j = i" | "i < j" by linarith
      then show ?thesis
      proof cases
        case 1
        then show ?thesis using slotD [of j x] xl kj ilen left by simp
      next
        case 2
        then show ?thesis using lk xl kj left by simp
      next
        case 3
        then have "j - 1 < length ks" "i \<le> j - 1" using jl by simp_all
        then show ?thesis using slotD [of "j - 1" x] xl kj 3 left by simp
      qed
    next
      case right
      then have xr: "x \<in> allKeys r" using x cj by simp
      consider "j < i" | "j = i" | "i < j" by linarith
      then show ?thesis
      proof cases
        case 1
        then show ?thesis using slotD [of j x] xr kj ilen right by simp
      next
        case 2
        then show ?thesis using rk xr kj right by simp
      next
        case 3
        then have "j - 1 < length ks" "i \<le> j - 1" using jl by simp_all
        then show ?thesis using slotD [of "j - 1" x] xr kj 3 right by simp
      qed
    next
      case after
      then have xc: "x \<in> allKeys (cs ! (j' - 1))" using x cj by simp
      have j'c: "j' - 1 < length cs" "i < j' - 1" using after j' by simp_all
      have il: "i < length ks" using j'c len by simp
      consider "j < i" | "j = i" | "i < j" by linarith
      then show ?thesis
      proof cases
        case 1
        then show ?thesis using oldD [OF j'c(1) _ xc, of j] kj ilen after by simp
      next
        case 2
        have "ks ! i \<le> x" using oldD [OF j'c(1) il xc] j'c by simp
        moreover have "k < ks ! i" using highk il by simp
        ultimately show ?thesis using 2 kj after by simp
      next
        case 3
        then have "j - 1 < length ks" using jl by simp
        moreover have "(j' - 1 \<le> j - 1) = (j' \<le> j)" using after 3 by auto
        ultimately show ?thesis using oldD [OF j'c(1) _ xc, of "j - 1"] kj 3 after
          by (auto split: if_splits)
      qed
    qed
  qed
qed

lemma allKeys_children:
  "allKeys (BN a ks cs) = set ks \<union> (\<Union>j < length cs. allKeys (cs ! j))"
proof -
  have "(\<Union>c \<in> set cs. allKeys c) = (\<Union>j < length cs. allKeys (cs ! j))"
    by (force simp: in_set_conv_nth)
  then show ?thesis by simp
qed

lemma splitNode_ordered:
  assumes ok: "ordOK ord" and so: "sorted_wrt (<) ks" and len: "length cs = length ks + 1"
    and oc: "\<forall>c \<in> set cs. ordered c"
    and ft: "\<forall>j < length cs. fits ks j (allKeys (cs ! j))"
  shows "orderedRes (fst (splitNode ord a n ks cs))"
    and "resKeys (fst (splitNode ord a n ks cs)) = allKeys (BN a ks cs)"
proof -
  let ?m = "length ks div 2"
  have oldD: "\<And>j' j x. j' < length cs \<Longrightarrow> j < length ks \<Longrightarrow> x \<in> allKeys (cs ! j') \<Longrightarrow>
      (if j' \<le> j then x < ks ! j else ks ! j \<le> x)"
    using ft unfolding fits_def by blast
  have both: "orderedRes (fst (splitNode ord a n ks cs)) \<and>
      resKeys (fst (splitNode ord a n ks cs)) = allKeys (BN a ks cs)"
  proof (cases "overfull ord ks")
    case False
    then show ?thesis using so oc ft by (simp add: splitNode_def)
  next
    case True
    have l2: "2 \<le> length ks" by (rule overfull_ge2 [OF ok True])
    then have m: "1 \<le> ?m" "?m < length ks" by auto
    have ksplit: "ks = take ?m ks @ ks ! ?m # drop (Suc ?m) ks"
      using m by (simp add: id_take_nth_drop)
    have so': "sorted_wrt (<) (take ?m ks @ ks ! ?m # drop (Suc ?m) ks)"
      using so ksplit by simp
    have sl: "sorted_wrt (<) (take ?m ks)" and sr: "sorted_wrt (<) (drop (Suc ?m) ks)"
      and kl: "\<forall>x \<in> set (take ?m ks). x < ks ! ?m"
      and kr: "\<forall>x \<in> set (drop (Suc ?m) ks). ks ! ?m < x"
      using so' by (auto simp: sorted_wrt_append)
    let ?L = "BN a (take ?m ks) (take (Suc ?m) cs)"
    let ?R = "BN n (drop (Suc ?m) ks) (drop (Suc ?m) cs)"
    have fl: "\<forall>j < length (take (Suc ?m) cs). fits (take ?m ks) j (allKeys (take (Suc ?m) cs ! j))"
      unfolding fits_def
    proof (intro allI impI ballI)
      fix j' j x
      assume a: "j' < length (take (Suc ?m) cs)" "j < length (take ?m ks)"
        "x \<in> allKeys (take (Suc ?m) cs ! j')"
      then have "j' < length cs" "j < length ks" "x \<in> allKeys (cs ! j')"
        using m len by simp_all
      then show "if j' \<le> j then x < take ?m ks ! j else take ?m ks ! j \<le> x"
        using oldD [of j' j x] a by simp
    qed
    have fr: "\<forall>j < length (drop (Suc ?m) cs).
        fits (drop (Suc ?m) ks) j (allKeys (drop (Suc ?m) cs ! j))"
      unfolding fits_def
    proof (intro allI impI ballI)
      fix j' j x
      assume a: "j' < length (drop (Suc ?m) cs)" "j < length (drop (Suc ?m) ks)"
        "x \<in> allKeys (drop (Suc ?m) cs ! j')"
      then have "Suc ?m + j' < length cs" "Suc ?m + j < length ks"
        "x \<in> allKeys (cs ! (Suc ?m + j'))"
        using m len by simp_all
      then show "if j' \<le> j then x < drop (Suc ?m) ks ! j else drop (Suc ?m) ks ! j \<le> x"
        using oldD [of "Suc ?m + j'" "Suc ?m + j" x] m by (auto split: if_splits)
    qed
    have oL: "ordered ?L" using sl oc fl by (auto dest: in_set_takeD)
    have oR: "ordered ?R" using sr oc fr by (auto dest: in_set_dropD)
    have cl: "\<forall>x \<in> allKeys ?L. x < ks ! ?m"
    proof
      fix x assume "x \<in> allKeys ?L"
      then have "x \<in> set (take ?m ks) \<or> (\<exists>c \<in> set (take (Suc ?m) cs). x \<in> allKeys c)"
        by auto
      then show "x < ks ! ?m"
      proof
        assume "x \<in> set (take ?m ks)"
        then show ?thesis using kl by simp
      next
        assume "\<exists>c \<in> set (take (Suc ?m) cs). x \<in> allKeys c"
        then obtain j' where j': "j' < length (take (Suc ?m) cs)"
          "x \<in> allKeys (take (Suc ?m) cs ! j')"
          by (auto simp: in_set_conv_nth)
        then have "j' < length cs" "j' \<le> ?m" "x \<in> allKeys (cs ! j')"
          using m len by simp_all
        then show ?thesis using oldD [of j' ?m x] m by simp
      qed
    qed
    have cr: "\<forall>x \<in> allKeys ?R. ks ! ?m \<le> x"
    proof
      fix x assume "x \<in> allKeys ?R"
      then have "x \<in> set (drop (Suc ?m) ks) \<or> (\<exists>c \<in> set (drop (Suc ?m) cs). x \<in> allKeys c)"
        by auto
      then show "ks ! ?m \<le> x"
      proof
        assume "x \<in> set (drop (Suc ?m) ks)"
        then show ?thesis using kr by (simp add: less_imp_le)
      next
        assume "\<exists>c \<in> set (drop (Suc ?m) cs). x \<in> allKeys c"
        then obtain j' where j': "j' < length (drop (Suc ?m) cs)"
          "x \<in> allKeys (drop (Suc ?m) cs ! j')"
          by (auto simp: in_set_conv_nth)
        then have "Suc ?m + j' < length cs" "x \<in> allKeys (cs ! (Suc ?m + j'))"
          using m len by simp_all
        then show ?thesis using oldD [of "Suc ?m + j'" ?m x] m by simp
      qed
    qed
    have "take ?m ks \<noteq> []" using m by auto
    then have neL: "allKeys ?L \<noteq> {}" by simp
    have "set ks = set (take ?m ks) \<union> {ks ! ?m} \<union> set (drop (Suc ?m) ks)"
      by (subst ksplit) auto
    moreover have "set cs = set (take (Suc ?m) cs) \<union> set (drop (Suc ?m) cs)"
      by (metis append_take_drop_id set_append)
    ultimately have "allKeys ?L \<union> {ks ! ?m} \<union> allKeys ?R = allKeys (BN a ks cs)"
      by auto
    then show ?thesis using True oL oR cl cr neL by (simp add: splitNode_def)
  qed
  show "orderedRes (fst (splitNode ord a n ks cs))"
    and "resKeys (fst (splitNode ord a n ks cs)) = allKeys (BN a ks cs)"
    using both by simp_all
qed

lemma splitLeafNode_ordered:
  assumes ok: "ordOK ord" and so: "sorted_wrt (<) ks"
  shows "orderedRes (fst (splitLeafNode ord a n ks vs nx))"
    and "resKeys (fst (splitLeafNode ord a n ks vs nx)) = set ks"
proof -
  let ?m = "length ks div 2"
  have both: "orderedRes (fst (splitLeafNode ord a n ks vs nx)) \<and>
      resKeys (fst (splitLeafNode ord a n ks vs nx)) = set ks"
  proof (cases "overfull ord ks")
    case False
    then show ?thesis using so by (simp add: splitLeafNode_def)
  next
    case True
    have l2: "2 \<le> length ks" by (rule overfull_ge2 [OF ok True])
    then have m: "1 \<le> ?m" "?m < length ks" by auto
    have ksplit: "ks = take ?m ks @ ks ! ?m # drop (Suc ?m) ks"
      using m by (simp add: id_take_nth_drop)
    have dr: "drop ?m ks = ks ! ?m # drop (Suc ?m) ks"
      using m by (simp add: Cons_nth_drop_Suc)
    have so': "sorted_wrt (<) (take ?m ks @ ks ! ?m # drop (Suc ?m) ks)"
      using so ksplit by simp
    have sl: "sorted_wrt (<) (take ?m ks)" and sr: "sorted_wrt (<) (drop ?m ks)"
      and kl: "\<forall>x \<in> set (take ?m ks). x < ks ! ?m"
      and kr: "\<forall>x \<in> set (drop (Suc ?m) ks). ks ! ?m < x"
      using so' so by (auto simp: sorted_wrt_append sorted_wrt_drop)
    have "take ?m ks \<noteq> []" using m by auto
    moreover have "set ks = set (take ?m ks) \<union> set (drop ?m ks)"
      by (metis append_take_drop_id set_append)
    ultimately show ?thesis using True sl sr kl kr dr
      by (auto simp: splitLeafNode_def less_imp_le)
  qed
  show "orderedRes (fst (splitLeafNode ord a n ks vs nx))"
    and "resKeys (fst (splitLeafNode ord a n ks vs nx)) = set ks"
    using both by simp_all
qed

lemma allKeys_child: "c \<in> set cs \<Longrightarrow> allKeys c \<subseteq> allKeys (BN a ks cs)"
  by auto

lemma treeIns_BN_Same:
  assumes "childIndex ks key < length cs"
    and "treeIns ord key v n (cs ! childIndex ks key) = (Same c', n')"
  shows "treeIns ord key v n (BN a ks cs) = (Same (BN a ks (cs[childIndex ks key := c'])), n')"
  using assms by simp

lemma treeIns_BN_Split:
  assumes "childIndex ks key < length cs"
    and "treeIns ord key v n (cs ! childIndex ks key) = (Split l k r, n')"
  shows "treeIns ord key v n (BN a ks cs) =
     splitNode ord a n' (insAt (lowerPos ks k) k ks)
       (insAt (lowerPos ks k + 1) r (cs[childIndex ks key := l]))"
  using assms by simp

lemma treeIns_ordered_aux:
  assumes ok: "ordOK ord"
  shows "ordered t \<Longrightarrow> shape t \<Longrightarrow>
     orderedRes (fst (treeIns ord key v n t)) \<and>
     resKeys (fst (treeIns ord key v n t)) \<subseteq> insert key (allKeys t) \<and>
     (\<forall>a ks cs l k r n'. t = BN a ks cs \<longrightarrow>
        treeIns ord key v n (cs ! childIndex ks key) = (Split l k r, n') \<longrightarrow>
        lowerPos ks k = childIndex ks key)"
  using ok
proof (induction ord key v n t rule: treeIns.induct)
  case (1 ord key v n a ks vs nx)
  have "sorted_wrt (<) (leafKeys key ks)" using 1 by (simp add: sorted_leafKeys)
  then show ?case
    using splitLeafNode_ordered [OF "1.prems"(3), of "leafKeys key ks" a n "leafVals key v ks vs" nx]
    by (simp add: set_leafKeys)
next
  case (2 ord key v n a ks cs)
  let ?i = "childIndex ks key"
  let ?c = "cs ! ?i"
  have so: "sorted_wrt (<) ks" and oc: "\<forall>c \<in> set cs. ordered c"
    and ft: "\<forall>j < length cs. fits ks j (allKeys (cs ! j))"
    using "2.prems"(1) by simp_all
  have len: "length cs = length ks + 1" and shc: "\<forall>c \<in> set cs. shape c"
    using "2.prems"(2) by simp_all
  have i: "?i < length cs" using len childIndex_le [of ks key] by simp
  have cin: "?c \<in> set cs" using i by simp
  obtain res n' where res: "treeIns ord key v n ?c = (res, n')"
    by (cases "treeIns ord key v n ?c")
  have IH: "orderedRes res" "resKeys res \<subseteq> insert key (allKeys ?c)"
    using "2.IH" [OF i] oc shc cin "2.prems"(3) res by simp_all
  have slot: "fits ks ?i (insert key (allKeys ?c))"
    using fits_Un [of ks ?i "{key}" "allKeys ?c"] fits_childIndex [OF so, of key] ft i by simp
  show ?case
  proof (cases res)
    case (Same c')
    have oc': "\<forall>c \<in> set (cs[?i := c']). ordered c"
      using oc IH Same by (auto dest!: in_set_updateD)
    have ft': "\<forall>j < length (cs[?i := c']). fits ks j (allKeys (cs[?i := c'] ! j))"
    proof (intro allI impI)
      fix j assume j: "j < length (cs[?i := c'])"
      show "fits ks j (allKeys (cs[?i := c'] ! j))"
      proof (cases "j = ?i")
        case True
        then show ?thesis using fits_mono [OF slot] IH(2) Same i by simp
      next
        case False
        then show ?thesis using ft j by simp
      qed
    qed
    have sub: "allKeys (BN a ks (cs[?i := c'])) \<subseteq> insert key (allKeys (BN a ks cs))"
    proof
      fix x assume "x \<in> allKeys (BN a ks (cs[?i := c']))"
      then have "x \<in> set ks \<or> (\<exists>c \<in> set (cs[?i := c']). x \<in> allKeys c)" by auto
      then show "x \<in> insert key (allKeys (BN a ks cs))"
      proof
        assume "x \<in> set ks" then show ?thesis by simp
      next
        assume "\<exists>c \<in> set (cs[?i := c']). x \<in> allKeys c"
        then obtain c where c: "c \<in> set (cs[?i := c'])" "x \<in> allKeys c" by auto
        then have "c = c' \<or> c \<in> set cs" by (auto dest!: in_set_updateD)
        then show ?thesis
        proof
          assume "c = c'"
          then have "x \<in> insert key (allKeys ?c)" using c IH(2) Same by auto
          then show ?thesis using allKeys_child [OF cin, of a ks] by auto
        next
          assume "c \<in> set cs"
          then show ?thesis using c allKeys_child [of c cs a ks] by auto
        qed
      qed
    qed
    have "treeIns ord key v n (BN a ks cs) = (Same (BN a ks (cs[?i := c'])), n')"
      using treeIns_BN_Same [OF i] res Same by simp
    then show ?thesis using so oc' ft' sub res Same by simp
  next
    case (Split l k r)
    let ?ks' = "insAt ?i k ks" and ?cs' = "insAt (?i + 1) r (cs[?i := l])"
    have ni: "lowerPos ks k = ?i" "sorted_wrt (<) ?ks'"
      "\<forall>j < length cs + 1. fits ?ks' j (allKeys (?cs' ! j))"
      using node_ins [OF so len ft refl, of l k r key] IH Split by simp_all
    have eq: "treeIns ord key v n (BN a ks cs) = splitNode ord a n' ?ks' ?cs'"
      using treeIns_BN_Split [OF i] res Split ni(1) by simp
    have cs'set: "set ?cs' \<subseteq> insert r (insert l (set cs))"
      by (auto simp: set_insAt dest!: in_set_updateD)
    have oc': "\<forall>c \<in> set ?cs'. ordered c" using cs'set oc IH(1) Split by auto
    have len': "length ?cs' = length ?ks' + 1" using len by (simp add: length_insAt)
    have ft': "\<forall>j < length ?cs'. fits ?ks' j (allKeys (?cs' ! j))"
      using ni(3) by (simp add: length_insAt)
    have sn: "orderedRes (fst (splitNode ord a n' ?ks' ?cs'))"
      "resKeys (fst (splitNode ord a n' ?ks' ?cs')) = allKeys (BN a ?ks' ?cs')"
      using splitNode_ordered [OF "2.prems"(3) ni(2) len' oc' ft'] by simp_all
    have sub: "allKeys (BN a ?ks' ?cs') \<subseteq> insert key (allKeys (BN a ks cs))"
    proof
      fix x assume "x \<in> allKeys (BN a ?ks' ?cs')"
      then have "x = k \<or> x \<in> set ks \<or> (\<exists>c \<in> set ?cs'. x \<in> allKeys c)"
        by (auto simp: set_insAt)
      then have "x \<in> resKeys res \<or> x \<in> set ks \<or> (\<exists>c \<in> set cs. x \<in> allKeys c)"
        using cs'set Split by auto
      then show "x \<in> insert key (allKeys (BN a ks cs))"
        using IH(2) allKeys_child [OF cin, of a ks] by auto
    qed
    show ?thesis using eq sn sub res Split ni(1) by simp
  qed
qed

lemma treeIns_ordered:
  assumes "ordOK ord" "ordered t" "shape t"
  shows "orderedRes (fst (treeIns ord key v n t))"
    and "resKeys (fst (treeIns ord key v n t)) \<subseteq> insert key (allKeys t)"
  using treeIns_ordered_aux [OF assms] by simp_all

lemma treeIns_BN_Split_pos:
  assumes "ordOK ord" "ordered (BN a ks cs)" "shape (BN a ks cs)"
    and "treeIns ord key v n (cs ! childIndex ks key) = (Split l k r, n')"
  shows "treeIns ord key v n (BN a ks cs) =
     splitNode ord a n' (insAt (childIndex ks key) k ks)
       (insAt (childIndex ks key + 1) r (cs[childIndex ks key := l]))"
proof -
  have i: "childIndex ks key < length cs" using assms(3) childIndex_le [of ks key] by simp
  have "lowerPos ks k = childIndex ks key"
    using treeIns_ordered_aux [OF assms(1,2,3), of key v n] assms(4) by blast
  then show ?thesis using treeIns_BN_Split [OF i assms(4)] by simp
qed

lemma length_leafKeys: "length (leafKeys key ks) \<le> length ks + 1"
  using lowerPos_le [of ks key] by (auto simp: leafKeys_def insAt_def)

lemma overfull_nat:
  assumes "ordOK ord" "sint ord = int M"
  shows "overfull ord ks \<longleftrightarrow> 2 * M \<le> length ks"
proof -
  have "overfull ord ks \<longleftrightarrow> int (2 * M) \<le> int (length ks)"
    using assms by (simp add: overfull_iff)
  then show ?thesis by (simp only: of_nat_le_iff)
qed

lemma splitLeafNode_bounded:
  assumes "ordOK ord" "sint ord = int M" "length ks \<le> 2 * M"
  shows "boundedRes (2 * M - 1) (fst (splitLeafNode ord a n ks vs nx))"
proof -
  have M: "1 \<le> M" using assms(1,2) by (simp add: ordOK_def)
  show ?thesis
  proof (cases "overfull ord ks")
    case True
    then have "length ks = 2 * M" using assms overfull_nat [OF assms(1,2)] by simp
    then show ?thesis using True M by (simp add: splitLeafNode_def)
  next
    case False
    then have "length ks \<le> 2 * M - 1" using overfull_nat [OF assms(1,2), of ks] by simp
    then show ?thesis using False by (simp add: splitLeafNode_def)
  qed
qed

lemma splitNode_bounded:
  assumes "ordOK ord" "sint ord = int M" "length ks \<le> 2 * M"
    and "\<forall>c \<in> set cs. bounded (2 * M - 1) c"
  shows "boundedRes (2 * M - 1) (fst (splitNode ord a n ks cs))"
proof -
  have M: "1 \<le> M" using assms(1,2) by (simp add: ordOK_def)
  show ?thesis
  proof (cases "overfull ord ks")
    case True
    then have "length ks = 2 * M" using assms overfull_nat [OF assms(1,2)] by simp
    then show ?thesis using True M assms(4)
      by (auto simp: splitNode_def dest: in_set_takeD in_set_dropD)
  next
    case False
    then have "length ks \<le> 2 * M - 1" using overfull_nat [OF assms(1,2), of ks] by simp
    then show ?thesis using False assms(4) by (simp add: splitNode_def)
  qed
qed

lemma treeIns_bounded:
  assumes "ordOK ord" "sint ord = int M"
  shows "bounded (2 * M - 1) t \<Longrightarrow> shape t \<Longrightarrow>
     boundedRes (2 * M - 1) (fst (treeIns ord key v n t))"
  using assms
proof (induction ord key v n t rule: treeIns.induct)
  case (1 ord key v n a ks vs nx)
  have M: "1 \<le> M" using "1.prems"(3,4) by (simp add: ordOK_def)
  have "length (leafKeys key ks) \<le> 2 * M"
    using "1.prems"(1) length_leafKeys [of key ks] M by simp
  then show ?case using splitLeafNode_bounded [OF "1.prems"(3,4)] by simp
next
  case (2 ord key v n a ks cs)
  let ?i = "childIndex ks key"
  have M: "1 \<le> M" using "2.prems"(3,4) by (simp add: ordOK_def)
  have i: "?i < length cs" using "2.prems"(2) childIndex_le [of ks key] by simp
  have cin: "cs ! ?i \<in> set cs" using i by simp
  obtain res n' where res: "treeIns ord key v n (cs ! ?i) = (res, n')"
    by (cases "treeIns ord key v n (cs ! ?i)")
  have IH: "boundedRes (2 * M - 1) res"
    using "2.IH" [OF i] "2.prems" cin res by simp
  show ?case
  proof (cases res)
    case (Same c')
    have "\<forall>c \<in> set (cs[?i := c']). bounded (2 * M - 1) c"
      using "2.prems"(1) IH Same by (auto dest!: in_set_updateD)
    then show ?thesis using "2.prems"(1) i res Same by simp
  next
    case (Split l k r)
    let ?ks' = "insAt (lowerPos ks k) k ks"
    let ?cs' = "insAt (lowerPos ks k + 1) r (cs[?i := l])"
    have "\<forall>c \<in> set ?cs'. bounded (2 * M - 1) c"
      using "2.prems"(1) IH Split by (auto simp: set_insAt dest!: in_set_updateD)
    moreover have "length ?ks' \<le> 2 * M" using "2.prems"(1) M by (auto simp: length_insAt)
    ultimately have "boundedRes (2 * M - 1) (fst (splitNode ord a n' ?ks' ?cs'))"
      by (intro splitNode_bounded [OF "2.prems"(3,4)])
    then show ?thesis using i res Split by simp
  qed
qed

lemma leaves_split:
  "shape t \<Longrightarrow> leaves t = leavesBefore t key @ leafOf t key # leavesAfter t key"
proof (induction t key rule: leafOf.induct)
  case (1 a ks vs nx key)
  then show ?case by simp
next
  case (2 a ks cs key)
  let ?i = "childIndex ks key"
  have i: "?i < length cs" using 2 childIndex_le [of ks key] by simp
  have "cs = take ?i cs @ cs ! ?i # drop (Suc ?i) cs" using i by (rule id_take_nth_drop)
  then have "concat (map leaves cs) =
      concat (map leaves (take ?i cs)) @ leaves (cs ! ?i) @ concat (map leaves (drop (Suc ?i) cs))"
    by (metis concat.simps(2) concat_append list.simps(9) map_append)
  moreover have "leaves (cs ! ?i) =
      leavesBefore (cs ! ?i) key @ leafOf (cs ! ?i) key # leavesAfter (cs ! ?i) key"
    using 2 i by simp
  ultimately show ?case using i by simp
qed

lemma leafOf_shape: "shape t \<Longrightarrow> shape (leafOf t key)"
proof (induction t key rule: leafOf.induct)
  case (1 a ks vs nx key)
  then show ?case by simp
next
  case (2 a ks cs key)
  have "childIndex ks key < length cs" using 2 childIndex_le [of ks key] by simp
  with 2 show ?case by simp
qed

lemma leaves_allKeys: "l \<in> set (leaves t) \<Longrightarrow> allKeys l \<subseteq> allKeys t"
proof (induction t)
  case (BL a ks vs nx)
  then show ?case by simp
next
  case (BN a ks cs)
  then obtain c where c: "c \<in> set cs" "l \<in> set (leaves c)" by auto
  then have "allKeys l \<subseteq> allKeys c" using BN.IH by simp
  then show ?case using c(1) by auto
qed

lemma leaves_around:
  "ordered t \<Longrightarrow> shape t \<Longrightarrow>
   (\<forall>l \<in> set (leavesBefore t key). \<forall>x \<in> allKeys l. x < key) \<and>
   (\<forall>l \<in> set (leavesAfter t key). \<forall>x \<in> allKeys l. key < x)"
proof (induction t key rule: leafOf.induct)
  case (1 a ks vs nx key)
  then show ?case by simp
next
  case (2 a ks cs key)
  let ?i = "childIndex ks key"
  have so: "sorted_wrt (<) ks" and ft: "\<forall>j < length cs. fits ks j (allKeys (cs ! j))"
    using "2.prems"(1) by simp_all
  have len: "length cs = length ks + 1" using "2.prems"(2) by simp
  have i: "?i < length cs" using len childIndex_le [of ks key] by simp
  have IH: "(\<forall>l \<in> set (leavesBefore (cs ! ?i) key). \<forall>x \<in> allKeys l. x < key) \<and>
            (\<forall>l \<in> set (leavesAfter (cs ! ?i) key). \<forall>x \<in> allKeys l. key < x)"
    using "2.IH" [OF i] "2.prems" i by simp
  have oldD: "\<And>j' j x. j' < length cs \<Longrightarrow> j < length ks \<Longrightarrow> x \<in> allKeys (cs ! j') \<Longrightarrow>
      (if j' \<le> j then x < ks ! j else ks ! j \<le> x)"
    using ft unfolding fits_def by blast
  have before: "x < key"
    if lc: "l \<in> set (concat (map leaves (take ?i cs)))" and xl: "x \<in> allKeys l" for l x
  proof -
    obtain c where c: "c \<in> set (take ?i cs)" "l \<in> set (leaves c)" using lc by auto
    then obtain j where j: "j < ?i" "c = cs ! j"
      by (auto simp: in_set_conv_nth)
    have xc: "x \<in> allKeys (cs ! j)" using leaves_allKeys [OF c(2)] xl j by auto
    have "j < length ks" using j i len by simp
    then have "x < ks ! j" using oldD [of j j x] xc j i by simp
    moreover have "ks ! j \<le> key" using childIndex_before [OF j(1)] .
    ultimately show ?thesis by simp
  qed
  have after: "key < x"
    if lc: "l \<in> set (concat (map leaves (drop (Suc ?i) cs)))" and xl: "x \<in> allKeys l" for l x
  proof -
    obtain c where c: "c \<in> set (drop (Suc ?i) cs)" "l \<in> set (leaves c)" using lc by auto
    then obtain j where j: "j < length (drop (Suc ?i) cs)" "c = drop (Suc ?i) cs ! j"
      by (auto simp: in_set_conv_nth)
    then have j': "Suc ?i + j < length cs" "c = cs ! (Suc ?i + j)" using i by simp_all
    have xc: "x \<in> allKeys (cs ! (Suc ?i + j))" using leaves_allKeys [OF c(2)] xl j' by auto
    have il: "?i < length ks" using j' len by simp
    then have "ks ! ?i \<le> x" using oldD [of "Suc ?i + j" ?i x] xc j' by simp
    moreover have "key < ks ! ?i" by (rule childIndex_at [OF il])
    ultimately show ?thesis by simp
  qed
  have "x < key" if l: "l \<in> set (leavesBefore (BN a ks cs) key)" and x: "x \<in> allKeys l" for l x
  proof -
    have "l \<in> set (concat (map leaves (take ?i cs))) \<or> l \<in> set (leavesBefore (cs ! ?i) key)"
      using l i by (simp del: set_concat)
    then show ?thesis using before [of l x] IH x by blast
  qed
  moreover have "key < x"
    if l: "l \<in> set (leavesAfter (BN a ks cs) key)" and x: "x \<in> allKeys l" for l x
  proof -
    have "l \<in> set (concat (map leaves (drop (Suc ?i) cs))) \<or> l \<in> set (leavesAfter (cs ! ?i) key)"
      using l i by (simp del: set_concat) blast
    then show ?thesis using after [of l x] IH x by blast
  qed
  ultimately show ?case by blast
qed

lemma insAt_update:
  "i < length cs \<Longrightarrow> insAt (Suc i) r (cs[i := l]) = take i cs @ l # r # drop (Suc i) cs"
  by (simp add: insAt_def upd_conv_take_nth_drop min_def)

lemma resLeaves_splitNode: "resLeaves (fst (splitNode ord a n ks cs)) = concat (map leaves cs)"
proof -
  have "concat (map leaves (take m cs)) @ concat (map leaves (drop m cs)) = concat (map leaves cs)"
    for m by (metis append_take_drop_id concat_append map_append)
  then show ?thesis by (simp add: splitNode_def)
qed

lemma treeIns_leaves:
  assumes "ordOK ord"
  shows "ordered t \<Longrightarrow> shape t \<Longrightarrow>
     resLeaves (fst (treeIns ord key v n t)) =
       leavesBefore t key @ resLeaves (fst (treeIns ord key v n (leafOf t key))) @
       leavesAfter t key"
  using assms
proof (induction ord key v n t rule: treeIns.induct)
  case (1 ord key v n a ks vs nx)
  then show ?case by simp
next
  case (2 ord key v n a ks cs)
  let ?i = "childIndex ks key"
  let ?c = "cs ! ?i"
  have i: "?i < length cs" using "2.prems"(2) childIndex_le [of ks key] by simp
  have cin: "?c \<in> set cs" using i by simp
  obtain res n' where res: "treeIns ord key v n ?c = (res, n')"
    by (cases "treeIns ord key v n ?c")
  have IH: "resLeaves res =
       leavesBefore ?c key @ resLeaves (fst (treeIns ord key v n (leafOf ?c key))) @
       leavesAfter ?c key"
    using "2.IH" [OF i] "2.prems" cin res by simp
  have "resLeaves (fst (treeIns ord key v n (BN a ks cs))) =
      concat (map leaves (take ?i cs)) @ resLeaves res @ concat (map leaves (drop (Suc ?i) cs))"
  proof (cases res)
    case (Same c')
    have "cs[?i := c'] = take ?i cs @ c' # drop (Suc ?i) cs"
      using i by (rule upd_conv_take_nth_drop)
    then have "concat (map leaves (cs[?i := c'])) =
        concat (map leaves (take ?i cs)) @ leaves c' @ concat (map leaves (drop (Suc ?i) cs))"
      by simp
    then show ?thesis using i res Same by simp
  next
    case (Split l k r)
    have "treeIns ord key v n (BN a ks cs) =
        splitNode ord a n' (insAt ?i k ks) (insAt (?i + 1) r (cs[?i := l]))"
      using treeIns_BN_Split_pos [OF "2.prems"(3,1,2)] res Split by simp
    moreover have "insAt (?i + 1) r (cs[?i := l]) = take ?i cs @ l # r # drop (Suc ?i) cs"
      using insAt_update [OF i] by simp
    ultimately show ?thesis using Split by (simp add: resLeaves_splitNode)
  qed
  then show ?case using IH i by simp
qed

lemma concat_map_leaves:
  "(\<forall>c \<in> set cs. f c = concat (map g (h c))) \<Longrightarrow>
   concat (map f cs) = concat (map g (concat (map h cs)))"
  by (induction cs) auto

lemma entries_leaves: "entries t = concat (map entries (leaves t))"
proof (induction t)
  case (BL a ks vs nx)
  then show ?case by simp
next
  case (BN a ks cs)
  then show ?case using concat_map_leaves [of cs entries entries leaves] by simp
qed

lemma resEntries_leaves: "resEntries res = concat (map entries (resLeaves res))"
  by (cases res) (simp_all add: entries_leaves [symmetric])

lemma leaves_are_leaves: "l \<in> set (leaves t) \<Longrightarrow> \<exists>a ks vs nx. l = BL a ks vs nx"
  by (induction t) auto

lemma entries_keys: "e \<in> set (entries t) \<Longrightarrow> fst e \<in> allKeys t"
proof (induction t)
  case (BL a ks vs nx)
  then have "(fst e, snd e) \<in> set (zip ks vs)" by simp
  then have "fst e \<in> set ks" by (rule set_zip_leftD)
  then show ?case by simp
next
  case (BN a ks cs)
  then show ?case by auto
qed

lemma addEntry_append_left:
  "\<forall>e \<in> set A. fst e < k \<Longrightarrow> addEntry k v (A @ B) = A @ addEntry k v B"
  by (induction A) auto

lemma addEntry_append_right:
  "\<forall>e \<in> set C. k < fst e \<Longrightarrow> addEntry k v (B @ C) = addEntry k v B @ C"
proof (induction B)
  case Nil
  then show ?case by (cases C) auto
next
  case (Cons b B)
  then show ?case by (cases b) auto
qed

lemma resEntries_splitLeafNode:
  "resEntries (fst (splitLeafNode ord a n ks vs nx)) = zip ks vs"
proof -
  have "zip (take m ks) (take m vs) @ zip (drop m ks) (drop m vs) = zip ks vs" for m
    by (metis append_take_drop_id drop_zip take_zip)
  then show ?thesis by (simp add: splitLeafNode_def)
qed

lemma treeIns_entries:
  assumes ok: "ordOK ord" and ord: "ordered t" and sh: "shape t"
  shows "resEntries (fst (treeIns ord key v n t)) = addEntry key v (entries t)"
proof -
  obtain a ks vs nx where lf: "leafOf t key = BL a ks vs nx"
    using leafOf_is_leaf [OF sh, of key] by blast
  have len: "length vs = length ks" using leafOf_shape [OF sh, of key] lf by simp
  let ?A = "concat (map entries (leavesBefore t key))"
  let ?C = "concat (map entries (leavesAfter t key))"
  have around: "(\<forall>l \<in> set (leavesBefore t key). \<forall>x \<in> allKeys l. x < key) \<and>
                (\<forall>l \<in> set (leavesAfter t key). \<forall>x \<in> allKeys l. key < x)"
    by (rule leaves_around [OF ord sh])
  have A: "\<forall>e \<in> set ?A. fst e < key"
  proof
    fix e assume "e \<in> set ?A"
    then obtain l where "l \<in> set (leavesBefore t key)" "e \<in> set (entries l)" by auto
    then show "fst e < key" using around entries_keys [of e l] by blast
  qed
  have C: "\<forall>e \<in> set ?C. key < fst e"
  proof
    fix e assume "e \<in> set ?C"
    then obtain l where "l \<in> set (leavesAfter t key)" "e \<in> set (entries l)" by auto
    then show "key < fst e" using around entries_keys [of e l] by blast
  qed
  have "entries t = ?A @ zip ks vs @ ?C"
    using leaves_split [OF sh, of key] lf by (simp add: entries_leaves [of t])
  moreover have "resEntries (fst (treeIns ord key v n t)) =
      ?A @ zip (leafKeys key ks) (leafVals key v ks vs) @ ?C"
    using treeIns_leaves [OF ok ord sh, of key v n] lf
    by (simp add: resEntries_leaves [of "fst (treeIns ord key v n t)"]
         resEntries_leaves [symmetric] resEntries_splitLeafNode)
  ultimately show ?thesis
    using leaf_addEntry [OF len, of key v] addEntry_append_left [OF A]
      addEntry_append_right [OF C] by simp
qed

text \<open>The chain of the leaves.\<close>

lemma chained_Cons:
  "ls \<noteq> [] \<Longrightarrow> chained (x # ls) e \<longleftrightarrow> nxtOf x = Some (addr (hd ls)) \<and> chained ls e"
  by (cases ls) auto

lemma chained_append:
  "ys \<noteq> [] \<Longrightarrow> chained (xs @ ys) e \<longleftrightarrow> chained xs (Some (addr (hd ys))) \<and> chained ys e"
proof (induction xs)
  case Nil
  then show ?case by simp
next
  case (Cons x xs)
  show ?case
  proof (cases xs)
    case Nil
    then show ?thesis using Cons.prems by (simp add: chained_Cons)
  next
    case (Cons x' xs')
    then show ?thesis using Cons.IH Cons.prems by (simp add: chained_Cons)
  qed
qed

lemma chained_head_cong:
  "nxtOf l' = nxtOf l \<Longrightarrow> chained (l' # ys) e = chained (l # ys) e"
  by (cases ys) auto

lemma chained_replace:
  assumes "chained (xs @ l # ys) e" "seg \<noteq> []" "addr (hd seg) = addr l"
    and "chained seg (nxtOf l)"
  shows "chained (xs @ seg @ ys) e"
proof -
  have 1: "chained xs (Some (addr l))" "chained (l # ys) e"
    using assms(1) chained_append [of "l # ys" xs e] by simp_all
  have 2: "chained (seg @ ys) e"
  proof (cases ys)
    case Nil
    then show ?thesis using 1(2) assms(4) by simp
  next
    case (Cons y ys')
    then have "nxtOf l = Some (addr (hd ys))" "chained ys e" using 1(2) by simp_all
    then show ?thesis using assms(4) Cons chained_append [of ys seg e] by simp
  qed
  show ?thesis
    using 1(1) 2 assms(2,3) chained_append [of "seg @ ys" xs e] by simp
qed

lemma treeIns_chained:
  assumes ok: "ordOK ord" and ord: "ordered t" and sh: "shape t"
    and ch: "chained (leaves t) e"
  shows "chained (resLeaves (fst (treeIns ord key v n t))) e"
proof -
  obtain a ks vs nx where lf: "leafOf t key = BL a ks vs nx"
    using leafOf_is_leaf [OF sh, of key] by blast
  let ?seg = "resLeaves (fst (splitLeafNode ord a n (leafKeys key ks) (leafVals key v ks vs) nx))"
  have seg: "?seg \<noteq> []" "addr (hd ?seg) = a" "chained ?seg nx"
    by (simp_all add: splitLeafNode_def)
  have "chained (leavesBefore t key @ BL a ks vs nx # leavesAfter t key) e"
    using ch leaves_split [OF sh, of key] lf by simp
  then have "chained (leavesBefore t key @ ?seg @ leavesAfter t key) e"
    using seg by (intro chained_replace [of _ "BL a ks vs nx"]) simp_all
  then show ?thesis using treeIns_leaves [OF ok ord sh, of key v n] lf by simp
qed

lemma rootIns_good:
  assumes ok: "ordOK ord" and g: "good ord t"
  shows "good ord (fst (rootIns ord key v n t))"
    and "entries (fst (rootIns ord key v n t)) = addEntry key v (entries t)"
proof -
  let ?m = "2 * nat (sint ord) - 1"
  have sh: "shape t" and ord: "ordered t" and bd: "bounded ?m t"
    and ch: "chained (leaves t) None" and se: "sorted_wrt (<) (map fst (entries t))"
    using g by (simp_all add: good_def)
  have "1 \<le> sint ord" using ok by (simp add: ordOK_def)
  then have M: "sint ord = int (nat (sint ord))" "1 \<le> nat (sint ord)"
    by linarith+
  obtain res n' where res: "treeIns ord key v n t = (res, n')"
    by (cases "treeIns ord key v n t")
  have r1: "shapeRes res" using treeIns_shape [OF sh, of ord key v n] res by simp
  have r2: "orderedRes res" using treeIns_ordered(1) [OF ok ord sh, of key v n] res by simp
  have r3: "boundedRes ?m res" using treeIns_bounded [OF ok M(1) bd sh, of key v n] res by simp
  have r4: "chained (resLeaves res) None" using treeIns_chained [OF ok ord sh ch, of key v n] res by simp
  have r5: "resEntries res = addEntry key v (entries t)"
    using treeIns_entries [OF ok ord sh, of key v n] res by simp
  have r6: "sorted_wrt (<) (map fst (resEntries res))" using r5 se by (simp add: sorted_addEntry)
  have both: "good ord (fst (rootIns ord key v n t)) \<and>
      entries (fst (rootIns ord key v n t)) = addEntry key v (entries t)"
  proof (cases res)
    case (Same t')
    then show ?thesis using r1 r2 r3 r4 r5 r6 res by (simp add: rootIns_def good_def)
  next
    case (Split l k r)
    have "fits [k] 0 (allKeys l)" "fits [k] (Suc 0) (allKeys r)"
      using r2 Split by (simp_all add: fits_def)
    then have "\<forall>i < length [l, r]. fits [k] i (allKeys ([l, r] ! i))"
      by (simp add: less_Suc_eq)
    then have "ordered (BN n' [k] [l, r])" using r2 Split by simp
    moreover have "bounded ?m (BN n' [k] [l, r])" using r3 Split M(2) by simp
    ultimately show ?thesis using r1 r4 r5 r6 Split res by (simp add: rootIns_def good_def)
  qed
  show "good ord (fst (rootIns ord key v n t))"
    and "entries (fst (rootIns ord key v n t)) = addEntry key v (entries t)"
    using both by simp_all
qed

lemma rootInsAll_good:
  assumes ok: "ordOK ord"
  shows "good ord t \<Longrightarrow>
     good ord (fst (rootInsAll ord kvs (t, n))) \<and>
     entries (fst (rootInsAll ord kvs (t, n))) = addEntries kvs (entries t)"
proof (induction kvs arbitrary: t n)
  case Nil
  then show ?case by simp
next
  case (Cons kv kvs)
  obtain k v where kv: "kv = (k, v)" by (cases kv)
  obtain t' n' where r: "rootIns ord k v n t = (t', n')" by (cases "rootIns ord k v n t")
  have "good ord t'" "entries t' = addEntry k v (entries t)"
    using rootIns_good [OF ok Cons.prems, of k v n] r by simp_all
  then show ?case using Cons.IH [of t' n'] kv r by simp
qed

lemma good_New: "good ord (BL 0 [] [] None)"
  by (simp add: good_def)

text \<open>What a sequence of \<^verbatim>\<open>Insert\<close> calls builds.\<close>

lemma insertAll_good:
  assumes ok: "ordOK (order tree)" and h: "holds tree t" and g: "good (order tree) t"
  shows "\<exists>tree' t'. insertAll tree kvs = Some tree' \<and> holds tree' t' \<and>
           good (order tree) t' \<and> order tree' = order tree \<and>
           entries t' = addEntries kvs (entries t)"
proof -
  obtain tree' where t: "insertAll tree kvs = Some tree'"
    "holds tree' (fst (rootInsAll (order tree) kvs (t, nalloc tree)))"
    "order tree' = order tree"
    using insertAll_refine [OF h, of kvs] by blast
  then show ?thesis using rootInsAll_good [OF ok g, of kvs "nalloc tree"] by blast
qed

lemma Insert_good:
  assumes ok: "ordOK (order tree)" and h: "holds tree t" and g: "good (order tree) t"
  shows "\<exists>tree' t'. Insert tree key v = Some tree' \<and> holds tree' t' \<and>
           good (order tree) t' \<and> order tree' = order tree \<and>
           entries t' = addEntry key v (entries t)"
proof -
  obtain tree' where t: "Insert tree key v = Some tree'"
    "holds tree' (fst (rootIns (order tree) key v (nalloc tree) t))"
    "order tree' = order tree"
    using Insert_refine [OF h, of key v] by blast
  then show ?thesis using rootIns_good [OF ok g, of key v "nalloc tree"] by blast
qed

lemma built_good:
  assumes ok: "ordOK ord"
  shows "\<exists>tree t. insertAll (NewBPlusTree ord) kvs = Some tree \<and> holds tree t \<and>
           good ord t \<and> order tree = ord \<and> entries t = addEntries kvs []"
proof -
  have o: "order (NewBPlusTree ord) = ord" by (simp add: NewBPlusTree_def)
  show ?thesis
    using insertAll_good [of "NewBPlusTree ord" "BL 0 [] [] None" kvs] ok o holds_New good_New
    by simp
qed

lemma rep_leafOf: "rep h p t \<Longrightarrow> shape t \<Longrightarrow> \<exists>p'. rep h p' (leafOf t key)"
proof (induction t key arbitrary: p rule: leafOf.induct)
  case (1 a ks vs nx key)
  then show ?case by auto
next
  case (2 a ks cs key)
  have i: "childIndex ks key < length cs" using 2 childIndex_le [of ks key] by simp
  then have c: "cs ! childIndex ks key \<in> set cs" by simp
  then have "rep h (Some a) (cs ! childIndex ks key)" "shape (cs ! childIndex ks key)"
    using "2.prems" by auto
  then have "\<exists>p'. rep h p' (leafOf (cs ! childIndex ks key) key)"
    using "2.IH" [OF i] by blast
  then show ?case using i by simp
qed

lemma leafLookup_zip:
  "length vs = i + length ks \<Longrightarrow>
   leafLookup ks vs i key = Some (lookupE (zip ks (drop i vs)) key)"
proof (induction ks arbitrary: i)
  case Nil
  then show ?case by (simp add: lookupE_def)
next
  case (Cons k ks)
  have i: "i < length vs" using Cons.prems by simp
  have d: "drop i vs = vs ! i # drop (Suc i) vs" using i by (simp add: Cons_nth_drop_Suc)
  have "leafLookup ks vs (Suc i) key = Some (lookupE (zip ks (drop (Suc i) vs)) key)"
    using Cons.IH [of "Suc i"] Cons.prems by simp
  then show ?case using i d by (simp add: lookupE_def)
qed

lemma map_of_append_notin:
  "\<forall>e \<in> set A. fst e \<noteq> key \<Longrightarrow> map_of (A @ B) key = map_of B key"
  by (induction A) auto

lemma map_of_append_notin_right:
  "\<forall>e \<in> set C. fst e \<noteq> key \<Longrightarrow> map_of (B @ C) key = map_of B key"
proof (induction B)
  case Nil
  then have "map_of C key = None" by (induction C) auto
  then show ?case by simp
next
  case (Cons b B)
  then show ?case by (cases b) auto
qed

lemma lookupE_mid:
  assumes "\<forall>e \<in> set A. fst e \<noteq> key" "\<forall>e \<in> set C. fst e \<noteq> key"
  shows "lookupE (A @ B @ C) key = lookupE B key"
  using map_of_append_notin [OF assms(1), of "B @ C"] map_of_append_notin_right [OF assms(2), of B]
  by (simp add: lookupE_def)

lemma entries_around:
  assumes ord: "ordered t" and sh: "shape t"
  shows "entries t = concat (map entries (leavesBefore t key)) @ entries (leafOf t key) @
                     concat (map entries (leavesAfter t key))"
    and "\<forall>e \<in> set (concat (map entries (leavesBefore t key))). fst e < key"
    and "\<forall>e \<in> set (concat (map entries (leavesAfter t key))). key < fst e"
proof -
  have around: "(\<forall>l \<in> set (leavesBefore t key). \<forall>x \<in> allKeys l. x < key) \<and>
                (\<forall>l \<in> set (leavesAfter t key). \<forall>x \<in> allKeys l. key < x)"
    by (rule leaves_around [OF ord sh])
  show "\<forall>e \<in> set (concat (map entries (leavesBefore t key))). fst e < key"
  proof
    fix e assume "e \<in> set (concat (map entries (leavesBefore t key)))"
    then obtain l where "l \<in> set (leavesBefore t key)" "e \<in> set (entries l)" by auto
    then show "fst e < key" using around entries_keys [of e l] by blast
  qed
  show "\<forall>e \<in> set (concat (map entries (leavesAfter t key))). key < fst e"
  proof
    fix e assume "e \<in> set (concat (map entries (leavesAfter t key)))"
    then obtain l where "l \<in> set (leavesAfter t key)" "e \<in> set (entries l)" by auto
    then show "key < fst e" using around entries_keys [of e l] by blast
  qed
  show "entries t = concat (map entries (leavesBefore t key)) @ entries (leafOf t key) @
                     concat (map entries (leavesAfter t key))"
    using leaves_split [OF sh, of key] by (simp add: entries_leaves [of t])
qed

lemma Search_entries:
  assumes h: "holds tree t" and ord: "ordered t"
  shows "Search tree key = Some (lookupE (entries t) key)"
proof -
  have rt: "root tree = Some (addr t)" and rp: "rep (heap tree) None t" and sh: "shape t"
    using h by (simp_all add: holds_def)
  obtain a ks vs nx where lf: "leafOf t key = BL a ks vs nx"
    using leafOf_is_leaf [OF sh, of key] by blast
  have len: "length vs = length ks" using leafOf_shape [OF sh, of key] lf by simp
  obtain p' where "rep (heap tree) p' (BL a ks vs nx)" using rep_leafOf [OF rp sh, of key] lf by auto
  then have hp: "keys (heap tree a) = ks" "vals (heap tree a) = vs" by simp_all
  have "Search tree key = leafLookup ks vs 0 key"
    using rt findLeaf_leafOf [OF rp sh, of key] lf hp by (simp add: Search_def)
  also have "\<dots> = Some (lookupE (zip ks vs) key)"
    using leafLookup_zip [of vs 0 ks key] len by simp
  also have "lookupE (zip ks vs) key = lookupE (entries t) key"
  proof -
    have "\<forall>e \<in> set (concat (map entries (leavesBefore t key))). fst e \<noteq> key"
      "\<forall>e \<in> set (concat (map entries (leavesAfter t key))). fst e \<noteq> key"
      using entries_around(2,3) [OF ord sh, of key] by fastforce+
    then show ?thesis
      using lookupE_mid [of "concat (map entries (leavesBefore t key))" key
          "concat (map entries (leavesAfter t key))" "zip ks vs"]
        entries_around(1) [OF ord sh, of key] lf by simp
  qed
  finally show ?thesis .
qed

lemma lookupE_notin: "\<forall>e \<in> set es. fst e \<noteq> key \<Longrightarrow> lookupE es key = []"
proof -
  assume "\<forall>e \<in> set es. fst e \<noteq> key"
  then have "map_of es key = None" by (induction es) auto
  then show ?thesis by (simp add: lookupE_def)
qed

lemma lookupE_addEntry:
  "sorted_wrt (<) (map fst es) \<Longrightarrow>
   lookupE (addEntry k v es) key = (if key = k then lookupE es k @ [v] else lookupE es key)"
proof (induction es)
  case Nil
  then show ?case by (simp add: lookupE_def)
next
  case (Cons e es)
  obtain k' vs where e: "e = (k', vs)" by (cases e)
  have so: "sorted_wrt (<) (map fst es)" and gt: "\<forall>y \<in> set es. k' < fst y"
    using Cons.prems e by auto
  consider "k' < k" | "k' = k" | "k < k'" by (metis not_less_iff_gr_or_eq)
  then show ?case
  proof cases
    case 1
    then show ?thesis using Cons.IH [OF so] e by (auto simp: lookupE_def)
  next
    case 2
    then show ?thesis using e by (auto simp: lookupE_def)
  next
    case 3
    have "\<forall>y \<in> set ((k', vs) # es). fst y \<noteq> k" using gt 3 by auto
    then have "lookupE ((k', vs) # es) k = []" by (rule lookupE_notin)
    then show ?thesis using 3 e by (auto simp: lookupE_def)
  qed
qed

lemma lookupE_addEntries:
  "sorted_wrt (<) (map fst es) \<Longrightarrow>
   lookupE (addEntries kvs es) key = lookupE es key @ map snd (filter (\<lambda>kv. fst kv = key) kvs)"
proof (induction kvs arbitrary: es)
  case Nil
  then show ?case by simp
next
  case (Cons kv kvs)
  obtain k v where kv: "kv = (k, v)" by (cases kv)
  have "sorted_wrt (<) (map fst (addEntry k v es))" using Cons.prems by (rule sorted_addEntry)
  then show ?case using Cons.IH [of "addEntry k v es"] kv lookupE_addEntry [OF Cons.prems, of k v key]
    by auto
qed

lemma sorted_addEntries:
  "sorted_wrt (<) (map fst es) \<Longrightarrow> sorted_wrt (<) (map fst (addEntries kvs es))"
proof (induction kvs arbitrary: es)
  case Nil
  then show ?case by simp
next
  case (Cons kv kvs)
  then show ?case by (cases kv) (simp add: sorted_addEntry)
qed

text \<open>The nodes of a tree in the store.\<close>

lemma rep_bounded:
  "rep h p t \<Longrightarrow> bounded m t \<Longrightarrow> \<forall>a \<in> set (addrs t). length (keys (h a)) \<le> m"
proof (induction t arbitrary: p)
  case (BL a ks vs nx)
  then show ?case by simp
next
  case (BN a ks cs)
  have "\<forall>x \<in> set (addrs c). length (keys (h x)) \<le> m" if "c \<in> set cs" for c
    using BN.IH [OF that, of "Some a"] BN.prems that by simp
  then show ?case using BN.prems by auto
qed

lemma rep_sorted:
  "rep h p t \<Longrightarrow> ordered t \<Longrightarrow> \<forall>a \<in> set (addrs t). sorted_wrt (<) (keys (h a))"
proof (induction t arbitrary: p)
  case (BL a ks vs nx)
  then show ?case by simp
next
  case (BN a ks cs)
  have "\<forall>x \<in> set (addrs c). sorted_wrt (<) (keys (h x))" if "c \<in> set cs" for c
    using BN.IH [OF that, of "Some a"] BN.prems that by simp
  then show ?case using BN.prems by auto
qed

lemma leafOf_ordered: "ordered t \<Longrightarrow> shape t \<Longrightarrow> ordered (leafOf t key)"
proof (induction t key rule: leafOf.induct)
  case (1 a ks vs nx key)
  then show ?case by simp
next
  case (2 a ks cs key)
  have i: "childIndex ks key < length cs" using 2 childIndex_le [of ks key] by simp
  then have "cs ! childIndex ks key \<in> set cs" by simp
  then show ?case using 2 i by simp
qed

lemma lookupE_in_keys: "lookupE (zip ks vs) k \<noteq> [] \<Longrightarrow> k \<in> set ks"
proof -
  assume "lookupE (zip ks vs) k \<noteq> []"
  then obtain w where "map_of (zip ks vs) k = Some w"
    by (auto simp: lookupE_def split: option.splits)
  then have "(k, w) \<in> set (zip ks vs)" by (rule map_of_SomeD)
  then show ?thesis by (rule set_zip_leftD)
qed

lemma found_leaf:
  assumes h: "holds tree t" and ord: "ordered t"
  shows "\<exists>r leaf. root tree = Some r \<and> findLeaf (heap tree) r key = Some leaf \<and>
           isLeaf (heap tree leaf) \<and> sorted_wrt (<) (keys (heap tree leaf)) \<and>
           (lookupE (entries t) key \<noteq> [] \<longrightarrow> key \<in> set (keys (heap tree leaf)))"
proof -
  have rt: "root tree = Some (addr t)" and rp: "rep (heap tree) None t" and sh: "shape t"
    using h by (simp_all add: holds_def)
  obtain a ks vs nx where lf: "leafOf t key = BL a ks vs nx"
    using leafOf_is_leaf [OF sh, of key] by blast
  obtain p' where "rep (heap tree) p' (BL a ks vs nx)" using rep_leafOf [OF rp sh, of key] lf by auto
  then have hp: "keys (heap tree a) = ks" "isLeaf (heap tree a)" by simp_all
  have so: "sorted_wrt (<) ks" using leafOf_ordered [OF ord sh, of key] lf by simp
  have "\<forall>e \<in> set (concat (map entries (leavesBefore t key))). fst e \<noteq> key"
    "\<forall>e \<in> set (concat (map entries (leavesAfter t key))). fst e \<noteq> key"
    using entries_around(2,3) [OF ord sh, of key] by fastforce+
  then have "lookupE (entries t) key = lookupE (zip ks vs) key"
    using lookupE_mid [of "concat (map entries (leavesBefore t key))" key
          "concat (map entries (leavesAfter t key))" "zip ks vs"]
        entries_around(1) [OF ord sh, of key] lf by simp
  then have "lookupE (entries t) key \<noteq> [] \<longrightarrow> key \<in> set ks"
    using lookupE_in_keys [of ks vs key] by simp
  then show ?thesis using rt findLeaf_leafOf [OF rp sh, of key] lf hp so by simp
qed

lemma chained_start: "chained (l # ls) e \<Longrightarrow> ls \<noteq> [] \<Longrightarrow> nxtOf l = startOf ls \<and> chained ls e"
  by (cases ls) auto

lemma rangeLeaves_list:
  assumes "\<forall>l \<in> set ls. keys (h (addr l)) = keysOf l \<and> vals (h (addr l)) = valsOf l \<and>
                        nxt (h (addr l)) = nxtOf l"
    and "chained ls None"
  shows "rangeLeaves h lo hi incLo incHi (startOf ls) result = rangeList lo hi incLo incHi ls result"
  using assms
proof (induction ls arbitrary: result)
  case Nil
  then show ?case by (subst rangeLeaves.simps) simp
next
  case (Cons l ls)
  have nx: "nxt (h (addr l)) = startOf ls"
  proof (cases ls)
    case Nil
    then show ?thesis using Cons.prems by simp
  next
    case (Cons l' ls')
    then show ?thesis using Cons.prems by simp
  qed
  have ch: "chained ls None"
  proof (cases ls)
    case Nil
    then show ?thesis by simp
  next
    case (Cons l' ls')
    then show ?thesis using Cons.prems by simp
  qed
  have IH: "\<And>r. rangeLeaves h lo hi incLo incHi (startOf ls) r = rangeList lo hi incLo incHi ls r"
    using Cons.IH Cons.prems(1) ch by simp
  show ?case
    using Cons.prems(1) nx IH
    by (subst rangeLeaves.simps) (auto split: option.splits prod.splits)
qed

lemma inRange_not_above: "inRange lo hi incLo incHi k \<Longrightarrow> \<not> aboveEnd hi incHi k"
  by (auto simp: inRange_def aboveEnd_def split: option.splits)

lemma aboveEnd_up: "aboveEnd hi incHi k \<Longrightarrow> k < k' \<Longrightarrow> aboveEnd hi incHi k'"
  by (auto simp: aboveEnd_def split: option.splits)

lemma rangeOf_none:
  "\<forall>e \<in> set es. \<not> inRange lo hi incLo incHi (fst e) \<Longrightarrow> rangeOf lo hi incLo incHi es = []"
  by (induction es) (auto simp: rangeOf_def)

lemma rangeOf_append:
  "rangeOf lo hi incLo incHi (xs @ ys) = rangeOf lo hi incLo incHi xs @ rangeOf lo hi incLo incHi ys"
  by (simp add: rangeOf_def)

lemma rangeKeys_spec:
  "sorted_wrt (<) ks \<Longrightarrow> length vs = i + length ks \<Longrightarrow>
   \<exists>ret. rangeKeys lo hi incLo incHi vs i ks result =
            Some (ret, result @ rangeOf lo hi incLo incHi (zip ks (drop i vs))) \<and>
          (ret \<longrightarrow> (\<exists>k \<in> set ks. aboveEnd hi incHi k))"
proof (induction ks arbitrary: i result)
  case Nil
  then show ?case by (intro exI [of _ False]) (simp add: rangeOf_def)
next
  case (Cons k ks)
  have i: "i < length vs" using Cons.prems by simp
  have d: "drop i vs = vs ! i # drop (Suc i) vs" using i by (simp add: Cons_nth_drop_Suc)
  have so: "sorted_wrt (<) ks" and gt: "\<forall>k' \<in> set ks. k < k'" using Cons.prems(1) by simp_all
  have len: "length vs = Suc i + length ks" using Cons.prems(2) by simp
  let ?below = "case lo of None \<Rightarrow> False | Some s \<Rightarrow> k < s \<or> (k = s \<and> \<not> incLo)"
  let ?above = "case hi of None \<Rightarrow> False | Some e \<Rightarrow> k > e \<or> (k = e \<and> \<not> incHi)"
  have inr: "inRange lo hi incLo incHi k \<longleftrightarrow> \<not> ?below \<and> \<not> ?above"
    by (auto simp: inRange_def split: option.splits)
  have ab: "?above \<longleftrightarrow> aboveEnd hi incHi k" by (simp add: aboveEnd_def)
  show ?case
  proof (cases ?below)
    case True
    obtain ret where "rangeKeys lo hi incLo incHi vs (Suc i) ks result =
            Some (ret, result @ rangeOf lo hi incLo incHi (zip ks (drop (Suc i) vs)))"
        "ret \<longrightarrow> (\<exists>k \<in> set ks. aboveEnd hi incHi k)"
      using Cons.IH [OF so len, of result] by blast
    then show ?thesis using True inr d by (auto simp: rangeOf_def)
  next
    case False
    show ?thesis
    proof (cases ?above)
      case True
      have "\<forall>e \<in> set (zip (k # ks) (drop i vs)). \<not> inRange lo hi incLo incHi (fst e)"
      proof
        fix e assume "e \<in> set (zip (k # ks) (drop i vs))"
        then have "fst e \<in> set (k # ks)" by (metis prod.collapse set_zip_leftD)
        then have "fst e = k \<or> k < fst e" using gt by auto
        then have "aboveEnd hi incHi (fst e)" using True ab aboveEnd_up [of hi incHi k] by auto
        then show "\<not> inRange lo hi incLo incHi (fst e)" using inRange_not_above by blast
      qed
      then have "rangeOf lo hi incLo incHi (zip (k # ks) (drop i vs)) = []"
        by (rule rangeOf_none)
      then show ?thesis using False True ab by (intro exI [of _ True]) simp
    next
      case above: False
      obtain ret where "rangeKeys lo hi incLo incHi vs (Suc i) ks (result @ vs ! i) =
            Some (ret, (result @ vs ! i) @ rangeOf lo hi incLo incHi (zip ks (drop (Suc i) vs)))"
        "ret \<longrightarrow> (\<exists>k \<in> set ks. aboveEnd hi incHi k)"
        using Cons.IH [OF so len, of "result @ vs ! i"] by blast
      then show ?thesis using False above inr d i by (auto simp: rangeOf_def)
    qed
  qed
qed

lemma rangeList_spec:
  assumes "\<forall>l \<in> set ls. \<exists>a ks vs nx. l = BL a ks vs nx \<and> length vs = length ks"
    and "sorted_wrt (<) (map fst (concat (map entries ls)))"
  shows "rangeList lo hi incLo incHi ls result =
           Some (result @ rangeOf lo hi incLo incHi (concat (map entries ls)))"
  using assms
proof (induction ls arbitrary: result)
  case Nil
  then show ?case by (simp add: rangeOf_def)
next
  case (Cons l ls)
  obtain a ks vs nx where l: "l = BL a ks vs nx" "length vs = length ks"
    using Cons.prems(1) by auto
  let ?rest = "concat (map entries ls)"
  have mf: "map fst (zip ks vs) = ks" using l(2) by simp
  have so: "sorted_wrt (<) ks" "sorted_wrt (<) (map fst ?rest)"
    and lt: "\<forall>x \<in> set ks. \<forall>y \<in> set (map fst ?rest). x < y"
    using Cons.prems(2) l mf by (simp_all add: sorted_wrt_append)
  obtain ret where rk: "rangeKeys lo hi incLo incHi vs 0 ks result =
            Some (ret, result @ rangeOf lo hi incLo incHi (zip ks vs))"
      and ret: "ret \<longrightarrow> (\<exists>k \<in> set ks. aboveEnd hi incHi k)"
    using rangeKeys_spec [OF so(1), of vs 0 lo hi incLo incHi result] l(2) by auto
  have IH: "\<And>r. rangeList lo hi incLo incHi ls r = Some (r @ rangeOf lo hi incLo incHi ?rest)"
    using Cons.IH Cons.prems(1) so(2) by simp
  have stop: "rangeOf lo hi incLo incHi ?rest = []" if ex: "\<exists>k \<in> set ks. aboveEnd hi incHi k"
  proof (rule rangeOf_none, rule ballI)
    fix e assume e: "e \<in> set ?rest"
    from ex obtain k where k: "k \<in> set ks" "aboveEnd hi incHi k" by blast
    have "k < fst e" using lt k(1) e by auto
    then have "aboveEnd hi incHi (fst e)" using k(2) aboveEnd_up by blast
    then show "\<not> inRange lo hi incLo incHi (fst e)" using inRange_not_above by blast
  qed
  have brk': "rangeOf lo hi incLo incHi ?rest = []"
    if hn: "hi \<noteq> None" and kn: "ks \<noteq> []" and le: "the hi \<le> last ks"
  proof (rule rangeOf_none, rule ballI)
    fix e assume e: "e \<in> set ?rest"
    from hn obtain u where u: "hi = Some u" by blast
    have "last ks \<in> set ks" using kn by simp
    then have "last ks < fst e" using lt e by auto
    then have "u < fst e" using le u by simp
    then have "aboveEnd hi incHi (fst e)" using u by (simp add: aboveEnd_def)
    then show "\<not> inRange lo hi incLo incHi (fst e)" using inRange_not_above by blast
  qed
  have ent: "concat (map entries (l # ls)) = zip ks vs @ ?rest" using l by simp
  show ?case
    unfolding ent rangeOf_append
    using rk ret stop brk' IH l(1) by auto
qed

lemma leaves_ne: "shape t \<Longrightarrow> leaves t \<noteq> []"
proof (induction t)
  case (BL a ks vs nx)
  then show ?case by simp
next
  case (BN a ks cs)
  then obtain c cs' where cs: "cs = c # cs'" by (cases cs) auto
  then have "leaves c \<noteq> []" using BN by simp
  then show ?case using cs by simp
qed

lemma findLeftmostLeaf_leaves:
  "rep h p t \<Longrightarrow> shape t \<Longrightarrow> findLeftmostLeaf h (addr t) = startOf (leaves t)"
proof (induction t arbitrary: p)
  case (BL a ks vs nx)
  then show ?case by (subst findLeftmostLeaf.simps) simp
next
  case (BN a ks cs)
  then obtain c cs' where cs: "cs = c # cs'" by (cases cs) auto
  have ne: "leaves c \<noteq> []" using leaves_ne [of c] BN.prems cs by simp
  have "findLeftmostLeaf h (addr c) = startOf (leaves c)"
    using BN.IH [of c "Some a"] BN.prems cs by simp
  moreover have "startOf (leaves c @ concat (map leaves cs')) = startOf (leaves c)"
    using ne by (cases "leaves c") auto
  ultimately show ?case using BN.prems cs
    by (subst findLeftmostLeaf.simps) simp
qed

lemma rep_leaves: "rep h p t \<Longrightarrow> l \<in> set (leaves t) \<Longrightarrow> \<exists>p'. rep h p' l"
proof (induction t arbitrary: p)
  case (BL a ks vs nx)
  then show ?case by auto
next
  case (BN a ks cs)
  then obtain c where c: "c \<in> set cs" "l \<in> set (leaves c)" by auto
  then have "rep h (Some a) c" using BN.prems by simp
  then show ?case using BN.IH [OF c(1) _ c(2)] by blast
qed

lemma shape_leaves: "shape t \<Longrightarrow> l \<in> set (leaves t) \<Longrightarrow> shape l"
proof (induction t)
  case (BL a ks vs nx)
  then show ?case by auto
next
  case (BN a ks cs)
  then show ?case by auto
qed

lemma leaf_data:
  assumes "rep h p t" "shape t"
  shows "\<forall>l \<in> set (leaves t). keys (h (addr l)) = keysOf l \<and> vals (h (addr l)) = valsOf l \<and>
                        nxt (h (addr l)) = nxtOf l"
    and "\<forall>l \<in> set (leaves t). \<exists>a ks vs nx. l = BL a ks vs nx \<and> length vs = length ks"
proof -
  have *: "keys (h (addr l)) = keysOf l \<and> vals (h (addr l)) = valsOf l \<and> nxt (h (addr l)) = nxtOf l \<and>
        (\<exists>a ks vs nx. l = BL a ks vs nx \<and> length vs = length ks)"
    if l: "l \<in> set (leaves t)" for l
  proof -
    obtain a ks vs nx where b: "l = BL a ks vs nx" using leaves_are_leaves [OF l] by blast
    obtain p' where "rep h p' l" using rep_leaves [OF assms(1) l] by blast
    moreover have "shape l" by (rule shape_leaves [OF assms(2) l])
    ultimately show ?thesis using b by simp
  qed
  show "\<forall>l \<in> set (leaves t). keys (h (addr l)) = keysOf l \<and> vals (h (addr l)) = valsOf l \<and>
                        nxt (h (addr l)) = nxtOf l"
    using * by blast
  show "\<forall>l \<in> set (leaves t). \<exists>a ks vs nx. l = BL a ks vs nx \<and> length vs = length ks"
    using * by blast
qed

lemma RangeSearch_entries:
  assumes h: "holds tree t" and g: "good (order tree) t"
  shows "RangeSearch tree lo hi incLo incHi = Some (rangeOf lo hi incLo incHi (entries t))"
proof -
  have rt: "root tree = Some (addr t)" and rp: "rep (heap tree) None t" and sh: "shape t"
    using h by (simp_all add: holds_def)
  have ord: "ordered t" and ch: "chained (leaves t) None"
    and so: "sorted_wrt (<) (map fst (entries t))"
    using g by (simp_all add: good_def)
  note ld = leaf_data [OF rp sh]
  show ?thesis
  proof (cases lo)
    case None
    have "RangeSearch tree lo hi incLo incHi =
        rangeLeaves (heap tree) lo hi incLo incHi (startOf (leaves t)) []"
    proof -
      obtain l ls where "leaves t = l # ls" using leaves_ne [OF sh] by (cases "leaves t") auto
      then show ?thesis
        using rt None findLeftmostLeaf_leaves [OF rp sh] by (simp add: RangeSearch_def)
    qed
    also have "\<dots> = rangeList lo hi incLo incHi (leaves t) []"
      by (rule rangeLeaves_list [OF ld(1) ch])
    also have "\<dots> = Some ([] @ rangeOf lo hi incLo incHi (concat (map entries (leaves t))))"
      using so by (intro rangeList_spec [OF ld(2)]) (simp add: entries_leaves [symmetric])
    finally show ?thesis by (simp add: entries_leaves [symmetric])
  next
    case (Some s)
    let ?B = "leavesBefore t s" and ?A = "leavesAfter t s" and ?l = "leafOf t s"
    have sp: "leaves t = ?B @ ?l # ?A" by (rule leaves_split [OF sh])
    have ch': "chained (?l # ?A) None"
      using ch sp chained_append [of "?l # ?A" ?B None] by simp
    have sub: "set (?l # ?A) \<subseteq> set (leaves t)" using sp by auto
    have ld1: "\<forall>l \<in> set (?l # ?A). keys (heap tree (addr l)) = keysOf l \<and>
        vals (heap tree (addr l)) = valsOf l \<and> nxt (heap tree (addr l)) = nxtOf l"
      using ld(1) sub by blast
    have ld2: "\<forall>l \<in> set (?l # ?A). \<exists>a ks vs nx. l = BL a ks vs nx \<and> length vs = length ks"
      using ld(2) sub by blast
    have ent: "entries t = concat (map entries ?B) @ concat (map entries (?l # ?A))"
      using sp by (simp add: entries_leaves [of t])
    have so': "sorted_wrt (<) (map fst (concat (map entries (?l # ?A))))"
      using so unfolding ent by (simp add: sorted_wrt_append)
    have "\<forall>e \<in> set (concat (map entries ?B)). \<not> inRange lo hi incLo incHi (fst e)"
    proof
      fix e assume "e \<in> set (concat (map entries ?B))"
      then have "fst e < s" using entries_around(2) [OF ord sh, of s] by blast
      then show "\<not> inRange lo hi incLo incHi (fst e)" using Some by (auto simp: inRange_def)
    qed
    then have none: "rangeOf lo hi incLo incHi (concat (map entries ?B)) = []"
      by (rule rangeOf_none)
    have "RangeSearch tree lo hi incLo incHi =
        rangeLeaves (heap tree) lo hi incLo incHi (startOf (?l # ?A)) []"
      using rt Some findLeaf_leafOf [OF rp sh, of s] by (simp add: RangeSearch_def)
    also have "\<dots> = rangeList lo hi incLo incHi (?l # ?A) []"
      by (rule rangeLeaves_list [OF ld1 ch'])
    also have "\<dots> = Some ([] @ rangeOf lo hi incLo incHi (concat (map entries (?l # ?A))))"
      by (rule rangeList_spec [OF ld2 so'])
    finally show ?thesis unfolding ent rangeOf_append none by simp
  qed
qed

text \<open>The entries after a history of insertions, read off the history.\<close>

lemma set_fst_addEntries:
  "fst ` set (addEntries kvs es) = fst ` set kvs \<union> fst ` set es"
proof (induction kvs arbitrary: es)
  case Nil
  then show ?case by simp
next
  case (Cons kv kvs)
  then show ?case by (cases kv) (simp add: map_fst_addEntry_set)
qed

lemma entries_by_lookup:
  "distinct (map fst es) \<Longrightarrow> es = map (\<lambda>k. (k, lookupE es k)) (map fst es)"
proof (induction es)
  case Nil
  then show ?case by simp
next
  case (Cons e es)
  obtain k vs where e: "e = (k, vs)" by (cases e)
  have d: "distinct (map fst es)" and nk: "k \<notin> fst ` set es" using Cons.prems e by simp_all
  have "map (\<lambda>k'. (k', lookupE (e # es) k')) (map fst es) = map (\<lambda>k'. (k', lookupE es k')) (map fst es)"
  proof (rule map_cong [OF refl])
    fix k' assume "k' \<in> set (map fst es)"
    then have "k' \<noteq> k" using nk by auto
    then show "(k', lookupE (e # es) k') = (k', lookupE es k')" using e by (simp add: lookupE_def)
  qed
  also have "\<dots> = es" using Cons.IH [OF d] by simp
  finally have tl: "map (\<lambda>k'. (k', lookupE (e # es) k')) (map fst es) = es" .
  have hd: "lookupE (e # es) k = vs" using e by (simp add: lookupE_def)
  have "map (\<lambda>k'. (k', lookupE (e # es) k')) (map fst (e # es)) =
        (k, lookupE (e # es) k) # map (\<lambda>k'. (k', lookupE (e # es) k')) (map fst es)"
    using e by simp
  then show ?case unfolding tl hd using e by simp
qed

lemma addEntries_history:
  "addEntries kvs [] =
     map (\<lambda>k. (k, map snd (filter (\<lambda>kv. fst kv = k) kvs))) (sorted_list_of_set (fst ` set kvs))"
proof -
  let ?es = "addEntries kvs []"
  have so: "sorted_wrt (<) (map fst ?es)" by (rule sorted_addEntries) simp
  then have sd: "sorted (map fst ?es)" "distinct (map fst ?es)"
    by (simp_all add: strict_sorted_iff)
  have "set (map fst ?es) = fst ` set kvs" using set_fst_addEntries [of kvs "[]"] by simp
  then have ks: "map fst ?es = sorted_list_of_set (fst ` set kvs)"
    using sd by (metis sorted_list_of_set.idem_if_sorted_distinct)
  have lk: "lookupE ?es k = map snd (filter (\<lambda>kv. fst kv = k) kvs)" for k
    using lookupE_addEntries [of "[]" kvs k] by (simp add: lookupE_def)
  have "?es = map (\<lambda>k. (k, lookupE ?es k)) (map fst ?es)" by (rule entries_by_lookup [OF sd(2)])
  then show ?thesis unfolding ks lk .
qed

lemma rangeOf_history:
  "rangeOf lo hi incLo incHi (map (\<lambda>k. (k, f k)) ks) =
     concat (map f (filter (inRange lo hi incLo incHi) ks))"
  by (induction ks) (simp_all add: rangeOf_def)

lemma RangeSearch_built:
  assumes "ordOK ord"
  shows "\<exists>tree. insertAll (NewBPlusTree ord) kvs = Some tree \<and>
           RangeSearch tree lo hi incLo incHi =
             Some (concat (map (\<lambda>k. map snd (filter (\<lambda>kv. fst kv = k) kvs))
                     (filter (inRange lo hi incLo incHi) (sorted_list_of_set (fst ` set kvs)))))"
proof -
  obtain tree t where t: "insertAll (NewBPlusTree ord) kvs = Some tree" "holds tree t"
    "good ord t" "order tree = ord" "entries t = addEntries kvs []"
    using built_good [OF assms, of kvs] by blast
  have "RangeSearch tree lo hi incLo incHi = Some (rangeOf lo hi incLo incHi (entries t))"
    using RangeSearch_entries [OF t(2)] t(3,4) by simp
  then show ?thesis using t(1) unfolding t(5) addEntries_history rangeOf_history by blast
qed

text \<open>The breadth-first traversals of \<^verbatim>\<open>serializeBTree\<close>.\<close>

lemma rep_node:
  "rep h p t \<Longrightarrow> isLeaf (h (addr t)) = (case t of BL a ks vs nx \<Rightarrow> True | BN a ks cs \<Rightarrow> False)"
  by (cases t) simp_all

lemma numberNodes_bfs:
  "\<forall>t \<in> set q. \<exists>p. rep h p t \<Longrightarrow>
   numberNodes h (map addr q) idx m = Some (number (map addr (bfs q)) idx m)"
proof (induction q arbitrary: idx m rule: bfs.induct)
  case 1
  then show ?case by (subst numberNodes.simps) simp
next
  case (2 a ks vs nx q)
  then obtain p where "rep h p (BL a ks vs nx)" by auto
  then have "isLeaf (h a)" by simp
  then show ?case using 2 by (subst numberNodes.simps) simp
next
  case (3 a ks cs q)
  then obtain p where r: "rep h p (BN a ks cs)" by auto
  then have nl: "\<not> isLeaf (h a)" and ch: "children (h a) = map addr cs"
    and rc: "\<forall>c \<in> set cs. rep h (Some a) c" by simp_all
  have "\<forall>t \<in> set (q @ cs). \<exists>p. rep h p t" using 3(2) rc by auto
  then have "numberNodes h (map addr (q @ cs)) (idx + 1) (m(a \<mapsto> idx)) =
      Some (number (map addr (bfs (q @ cs))) (idx + 1) (m(a \<mapsto> idx)))"
    by (rule 3(1))
  then show ?case using nl ch by (subst numberNodes.simps) simp
qed

lemma serializeNodes_bfs:
  "\<forall>t \<in> set q. \<exists>p. rep h p t \<Longrightarrow> distinct (map addr (bfs q)) \<Longrightarrow>
   set (map addr (bfs q)) \<inter> visited = {} \<Longrightarrow>
   serializeNodes h m (map addr q) visited nodes =
     Some (nodes @ map (serializeNode h m) (map addr (bfs q)))"
proof (induction q arbitrary: visited nodes rule: bfs.induct)
  case 1
  then show ?case by (subst serializeNodes.simps) simp
next
  case (2 a ks vs nx q)
  then obtain p where "rep h p (BL a ks vs nx)" by auto
  then have lf: "isLeaf (h a)" by simp
  have nv: "a \<notin> visited" using 2(4) by simp
  have "serializeNodes h m (map addr q) (insert a visited) (nodes @ [serializeNode h m a]) =
      Some ((nodes @ [serializeNode h m a]) @ map (serializeNode h m) (map addr (bfs q)))"
    using 2(2,3,4) by (intro 2(1)) auto
  then show ?case using lf nv by (subst serializeNodes.simps) simp
next
  case (3 a ks cs q)
  then obtain p where r: "rep h p (BN a ks cs)" by auto
  then have nl: "\<not> isLeaf (h a)" and ch: "children (h a) = map addr cs"
    and rc: "\<forall>c \<in> set cs. rep h (Some a) c" by simp_all
  have nv: "a \<notin> visited" using 3(4) by simp
  have "\<forall>t \<in> set (q @ cs). \<exists>p. rep h p t" using 3(2) rc by auto
  then have "serializeNodes h m (map addr (q @ cs)) (insert a visited) (nodes @ [serializeNode h m a]) =
      Some ((nodes @ [serializeNode h m a]) @ map (serializeNode h m) (map addr (bfs (q @ cs))))"
    using 3(3,4) by (intro 3(1)) auto
  then show ?case using nl ch nv by (subst serializeNodes.simps) simp
qed

lemma mset_bfs: "mset (map addr (bfs q)) = mset (concat (map addrs q))"
  by (induction q rule: bfs.induct) simp_all

lemma number_notin: "a \<notin> set as \<Longrightarrow> number as idx m a = m a"
  by (induction as arbitrary: idx m) simp_all

lemma number_nth:
  "distinct as \<Longrightarrow> i < length as \<Longrightarrow> number as idx m (as ! i) = Some (idx + int i)"
proof (induction as arbitrary: idx m i)
  case Nil
  then show ?case by simp
next
  case (Cons a as)
  show ?case
  proof (cases i)
    case 0
    then show ?thesis using Cons.prems by (simp add: number_notin)
  next
    case (Suc j)
    have "number as (idx + 1) (m(a \<mapsto> idx)) (as ! j) = Some (idx + 1 + int j)"
      using Cons.prems Suc by (intro Cons.IH) simp_all
    then show ?thesis using Suc by (simp add: add.assoc)
  qed
qed

lemma bfs_hd: "bfs (t # q) = t # bfs (q @ (case t of BL a ks vs nx \<Rightarrow> [] | BN a ks cs \<Rightarrow> cs))"
  by (cases t) simp_all

lemma rep_children_in:
  "rep h p t \<Longrightarrow> a \<in> set (addrs t) \<Longrightarrow> \<not> isLeaf (h a) \<Longrightarrow> set (children (h a)) \<subseteq> set (addrs t)"
proof (induction t arbitrary: p)
  case (BL b ks vs nx)
  then show ?case by simp
next
  case (BN b ks cs)
  show ?case
  proof (cases "a = b")
    case True
    then have "children (h a) = map addr cs" using BN.prems(1) by simp
    moreover have "addr c \<in> set (addrs c)" for c by (rule addr_in_addrs)
    ultimately show ?thesis by auto
  next
    case False
    then obtain c where c: "c \<in> set cs" "a \<in> set (addrs c)" using BN.prems(2) by auto
    then have "rep h (Some b) c" using BN.prems(1) by simp
    then have "set (children (h a)) \<subseteq> set (addrs c)" using BN.IH [OF c(1) _ c(2) BN.prems(3)] by blast
    then show ?thesis using c(1) by auto
  qed
qed

text \<open>What \<^verbatim>\<open>deserializeBTree\<close> builds.\<close>

lemma addChildren_ok:
  "\<forall>c \<in> set cs. 0 \<le> c \<and> c < int n \<Longrightarrow>
   \<exists>h'. addChildren n i cs h = Some h' \<and>
     (\<forall>j. isLeaf (h' j) = isLeaf (h j) \<and> keys (h' j) = keys (h j) \<and> vals (h' j) = vals (h j) \<and>
          children (h' j) = (if j = i then children (h i) @ map nat cs else children (h j)))"
proof (induction cs arbitrary: h)
  case Nil
  then show ?case by simp
next
  case (Cons c cs)
  define h1 where "h1 = h(i := (h i)\<lparr>children := children (h i) @ [nat c]\<rparr>)"
  define h2 where "h2 = h1(nat c := (h1 (nat c))\<lparr>parent := Some i\<rparr>)"
  have c: "0 \<le> c" "c < int n" using Cons.prems by simp_all
  have step: "addChildren n i (c # cs) h = addChildren n i cs h2"
    using c by (simp add: h1_def h2_def Let_def)
  have same: "isLeaf (h2 j) = isLeaf (h j) \<and> keys (h2 j) = keys (h j) \<and> vals (h2 j) = vals (h j) \<and>
      children (h2 j) = (if j = i then children (h i) @ [nat c] else children (h j))" for j
    by (simp add: h1_def h2_def)
  obtain h' where h': "addChildren n i cs h2 = Some h'"
    "\<forall>j. isLeaf (h' j) = isLeaf (h2 j) \<and> keys (h' j) = keys (h2 j) \<and> vals (h' j) = vals (h2 j) \<and>
         children (h' j) = (if j = i then children (h2 i) @ map nat cs else children (h2 j))"
    using Cons.IH [of h2] Cons.prems by auto
  have "\<forall>j. isLeaf (h' j) = isLeaf (h j) \<and> keys (h' j) = keys (h j) \<and> vals (h' j) = vals (h j) \<and>
      children (h' j) = (if j = i then children (h i) @ map nat (c # cs) else children (h j))"
    using h'(2) same by simp
  then show ?case using step h'(1) by simp
qed

lemma linkChildren_ok:
  "distinct (map fst ps) \<Longrightarrow>
   \<forall>(i, sn) \<in> set ps. \<forall>c \<in> set (Children sn). 0 \<le> c \<and> c < int n \<Longrightarrow>
   \<exists>h'. linkChildren n ps h = Some h' \<and>
     (\<forall>j. isLeaf (h' j) = isLeaf (h j) \<and> keys (h' j) = keys (h j) \<and> vals (h' j) = vals (h j) \<and>
          children (h' j) = children (h j) @ fileChildren (map_of ps j))"
proof (induction ps arbitrary: h)
  case Nil
  then show ?case by (simp add: fileChildren_def)
next
  case (Cons p ps)
  obtain i sn where p: "p = (i, sn)" by (cases p)
  have d: "distinct (map fst ps)" and ni: "map_of ps i = None"
    using Cons.prems(1) p by (simp_all add: map_of_eq_None_iff)
  have rng: "\<forall>(i, sn) \<in> set ps. \<forall>c \<in> set (Children sn). 0 \<le> c \<and> c < int n"
    and rng0: "\<forall>c \<in> set (Children sn). 0 \<le> c \<and> c < int n"
    using Cons.prems(2) p by auto
  show ?case
  proof (cases "\<not> IsLeaf sn \<and> Children sn \<noteq> []")
    case True
    obtain h1 where h1: "addChildren n i (Children sn) h = Some h1"
      "\<forall>j. isLeaf (h1 j) = isLeaf (h j) \<and> keys (h1 j) = keys (h j) \<and> vals (h1 j) = vals (h j) \<and>
         children (h1 j) = (if j = i then children (h i) @ map nat (Children sn) else children (h j))"
      using addChildren_ok [OF rng0, of i h] by blast
    obtain h' where h': "linkChildren n ps h1 = Some h'"
      "\<forall>j. isLeaf (h' j) = isLeaf (h1 j) \<and> keys (h' j) = keys (h1 j) \<and> vals (h' j) = vals (h1 j) \<and>
          children (h' j) = children (h1 j) @ fileChildren (map_of ps j)"
      using Cons.IH [OF d rng, of h1] by blast
    have "\<forall>j. isLeaf (h' j) = isLeaf (h j) \<and> keys (h' j) = keys (h j) \<and> vals (h' j) = vals (h j) \<and>
          children (h' j) = children (h j) @ fileChildren (map_of (p # ps) j)"
      using h'(2) h1(2) ni p True by (simp add: fileChildren_def)
    moreover have "linkChildren n (p # ps) h = Some h'" using p True h1(1) h'(1) by simp
    ultimately show ?thesis by blast
  next
    case False
    obtain h' where h': "linkChildren n ps h = Some h'"
      "\<forall>j. isLeaf (h' j) = isLeaf (h j) \<and> keys (h' j) = keys (h j) \<and> vals (h' j) = vals (h j) \<and>
          children (h' j) = children (h j) @ fileChildren (map_of ps j)"
      using Cons.IH [OF d rng, of h] by blast
    have "fileChildren (Some sn) = []" using False by (auto simp: fileChildren_def)
    then have "\<forall>j. isLeaf (h' j) = isLeaf (h j) \<and> keys (h' j) = keys (h j) \<and> vals (h' j) = vals (h j) \<and>
          children (h' j) = children (h j) @ fileChildren (map_of (p # ps) j)"
      using h'(2) ni p by (simp add: fileChildren_def)
    moreover have "linkChildren n (p # ps) h = Some h'" using p False h'(1) by auto
    ultimately show ?thesis by blast
  qed
qed

lemma linkNext_same:
  "isLeaf (linkNext is p h j) = isLeaf (h j) \<and> keys (linkNext is p h j) = keys (h j) \<and>
   vals (linkNext is p h j) = vals (h j) \<and> children (linkNext is p h j) = children (h j)"
proof (induction "is" arbitrary: p h)
  case Nil
  then show ?case by simp
next
  case (Cons i "is")
  show ?case
  proof (cases "isLeaf (h i)")
    case True
    then show ?thesis using Cons.IH [of "Some i"] by (cases p) simp_all
  next
    case False
    then show ?thesis using Cons.IH [of p h] by simp
  qed
qed

lemma deserialize_ok:
  assumes ne: "Nodes data \<noteq> []"
    and rng: "\<forall>sn \<in> set (Nodes data). \<forall>c \<in> set (Children sn). 0 \<le> c \<and> c < int (length (Nodes data))"
  shows "\<exists>tree'. deserializeBTree data = Some tree' \<and> root tree' = Some 0 \<and>
           order tree' = Order data \<and>
           (\<forall>i < length (Nodes data).
              isLeaf (heap tree' i) = IsLeaf (Nodes data ! i) \<and>
              keys (heap tree' i) = Keys (Nodes data ! i) \<and>
              vals (heap tree' i) = (if IsLeaf (Nodes data ! i) then Values (Nodes data ! i) else []) \<and>
              children (heap tree' i) =
                (if IsLeaf (Nodes data ! i) then [] else map nat (Children (Nodes data ! i))))"
proof -
  let ?sns = "Nodes data"
  let ?n = "length ?sns"
  let ?ps = "zip [0..<?n] ?sns"
  define h0 where "h0 = (\<lambda>i. if i < ?n then buildNode (?sns ! i) else blank)"
  have d: "distinct (map fst ?ps)" by simp
  have r: "\<forall>(i, sn) \<in> set ?ps. \<forall>c \<in> set (Children sn). 0 \<le> c \<and> c < int ?n"
    using rng by (auto dest: set_zip_rightD)
  obtain h1 where h1: "linkChildren ?n ?ps h0 = Some h1"
    "\<forall>j. isLeaf (h1 j) = isLeaf (h0 j) \<and> keys (h1 j) = keys (h0 j) \<and> vals (h1 j) = vals (h0 j) \<and>
          children (h1 j) = children (h0 j) @ fileChildren (map_of ?ps j)"
    using linkChildren_ok [OF d r, of h0] by blast
  define tree' where "tree' = \<lparr>root = Some 0, order = Order data,
                      heap = linkNext [0..<?n] None h1, nalloc = ?n + 1\<rparr>"
  have ds: "deserializeBTree data = Some tree'"
    using ne h1(1) by (simp add: deserializeBTree_def Let_def h0_def tree'_def)
  have "isLeaf (heap tree' i) = IsLeaf (?sns ! i) \<and>
        keys (heap tree' i) = Keys (?sns ! i) \<and>
        vals (heap tree' i) = (if IsLeaf (?sns ! i) then Values (?sns ! i) else []) \<and>
        children (heap tree' i) = (if IsLeaf (?sns ! i) then [] else map nat (Children (?sns ! i)))"
    if i: "i < ?n" for i
  proof -
    have mo: "map_of ?ps i = Some (?sns ! i)"
      using map_of_zip_nth [of "[0..<?n]" ?sns i] i by simp
    have "heap tree' i = linkNext [0..<?n] None h1 i" by (simp add: tree'_def)
    then show ?thesis
      using linkNext_same [of "[0..<?n]" None h1 i] h1(2) mo i
      by (simp add: h0_def buildNode_def fileChildren_def)
  qed
  then show ?thesis using ds by (auto simp: tree'_def)
qed

text \<open>Lookups in a mirrored store, and the round trip through the index file.\<close>

lemma mirrors_mono: "mirrors h h' \<rho> A \<Longrightarrow> B \<subseteq> A \<Longrightarrow> mirrors h h' \<rho> B"
  by (auto simp: mirrors_def)

lemma findLeaf_mirror:
  "rep h p t \<Longrightarrow> shape t \<Longrightarrow> mirrors h h' \<rho> (set (addrs t)) \<Longrightarrow>
   findLeaf h' (\<rho> (addr t)) key = Some (\<rho> (addr (leafOf t key)))"
proof (induction t key arbitrary: p rule: leafOf.induct)
  case (1 a ks vs nx key)
  then have "isLeaf (h' (\<rho> a))" by (simp add: mirrors_def)
  then show ?case by (subst findLeaf.simps) simp
next
  case (2 a ks cs key)
  let ?i = "childIndex ks key"
  have i: "?i < length cs" using 2 childIndex_le [of ks key] by simp
  have c: "cs ! ?i \<in> set cs" using i by simp
  have "rep h (Some a) (cs ! ?i)" "shape (cs ! ?i)" using 2 c by auto
  moreover have "mirrors h h' \<rho> (set (addrs (cs ! ?i)))"
    using "2.prems"(3) c by (auto elim!: mirrors_mono)
  ultimately have IH: "findLeaf h' (\<rho> (addr (cs ! ?i))) key = Some (\<rho> (addr (leafOf (cs ! ?i) key)))"
    using "2.IH" [OF i] by simp
  have ha: "isLeaf (h a) = False" "keys (h a) = ks" "children (h a) = map addr cs"
    using "2.prems"(1) by simp_all
  have nd: "\<not> isLeaf (h' (\<rho> a))" "keys (h' (\<rho> a)) = ks"
    "children (h' (\<rho> a)) = map \<rho> (map addr cs)"
    using "2.prems"(3) ha by (simp_all add: mirrors_def)
  have ne: "cs \<noteq> []" using 2 by auto
  have last: "\<not> ?i < length ks \<Longrightarrow> last (map \<rho> (map addr cs)) = \<rho> (addr (cs ! ?i))"
    using 2 childIndex_le [of ks key] ne by (simp add: last_map last_conv_nth le_antisym)
  show ?case
    using nd i IH last ne
    by (subst findLeaf.simps) (auto simp: childIndex_def Let_def)
qed

lemma leafOf_in_addrs: "shape t \<Longrightarrow> addr (leafOf t key) \<in> set (addrs t)"
proof (induction t key rule: leafOf.induct)
  case (1 a ks vs nx key)
  then show ?case by simp
next
  case (2 a ks cs key)
  have i: "childIndex ks key < length cs" using 2 childIndex_le [of ks key] by simp
  then have c: "cs ! childIndex ks key \<in> set cs" by simp
  then have "addr (leafOf (cs ! childIndex ks key) key) \<in> set (addrs (cs ! childIndex ks key))"
    using 2 i by simp
  then show ?case using i c by auto
qed

lemma Search_mirror:
  assumes rp: "rep (heap tree) None t" and sh: "shape t" and rt: "root tree = Some (addr t)"
    and mi: "mirrors (heap tree) (heap tree') \<rho> (set (addrs t))"
    and rt': "root tree' = Some (\<rho> (addr t))"
  shows "Search tree' key = Search tree key"
proof -
  let ?l = "addr (leafOf t key)"
  obtain a ks vs nx where lf: "leafOf t key = BL a ks vs nx"
    using leafOf_is_leaf [OF sh, of key] by blast
  obtain p' where "rep (heap tree) p' (BL a ks vs nx)" using rep_leafOf [OF rp sh, of key] lf by auto
  then have il: "isLeaf (heap tree ?l)" using lf by simp
  have "?l \<in> set (addrs t)" by (rule leafOf_in_addrs [OF sh])
  then have eq: "keys (heap tree' (\<rho> ?l)) = keys (heap tree ?l)"
    "vals (heap tree' (\<rho> ?l)) = vals (heap tree ?l)"
    using mi il by (simp_all add: mirrors_def)
  show ?thesis
    using rt rt' findLeaf_leafOf [OF rp sh, of key] findLeaf_mirror [OF rp sh mi, of key] eq
    by (simp add: Search_def)
qed

lemma roundtrip:
  assumes h: "holds tree t"
  shows "\<exists>idx tree'. serializeBTree tree fieldName ord = Some idx \<and>
           Field idx = fieldName \<and> Order idx = ord \<and>
           deserializeBTree idx = Some tree' \<and> order tree' = ord \<and>
           (\<forall>key. Search tree' key = Search tree key)"
proof -
  have rt: "root tree = Some (addr t)" and rp: "rep (heap tree) None t" and sh: "shape t"
    and di: "distinct (addrs t)"
    using h by (simp_all add: holds_def)
  let ?h = "heap tree"
  define as where "as = map addr (bfs [t])"
  define m where "m = number as 0 Map.empty"
  define sns where "sns = map (serializeNode ?h m) as"
  define idx where "idx = \<lparr>Field = fieldName, Order = ord, Nodes = sns\<rparr>"
  have q: "\<forall>x \<in> set [t]. \<exists>p. rep ?h p x" using rp by auto
  have ms: "mset as = mset (addrs t)" using mset_bfs [of "[t]"] by (simp add: as_def)
  have das: "distinct as" using ms di by (metis mset_eq_imp_distinct_iff)
  have sas: "set as = set (addrs t)" using ms by (metis mset_eq_setD)
  have as0: "as \<noteq> []" "as ! 0 = addr t" using bfs_hd [of t "[]"] by (simp_all add: as_def)
  have len: "length sns = length as" by (simp add: sns_def)
  have nn: "numberNodes ?h [addr t] 0 Map.empty = Some m"
    using numberNodes_bfs [OF q, of 0 Map.empty] by (simp add: m_def as_def)
  have sn: "serializeNodes ?h m [addr t] {} [] = Some sns"
    using serializeNodes_bfs [OF q, of "{}" m "[]"] das by (simp add: sns_def as_def)
  have ser: "serializeBTree tree fieldName ord = Some idx"
    using rt nn sn by (simp add: serializeBTree_def idx_def)
  have mnth: "m (as ! i) = Some (int i)" if il: "i < length as" for i
  proof -
    have "number as 0 Map.empty (as ! i) = Some (0 + int i)" by (rule number_nth [OF das il])
    then show ?thesis unfolding m_def by simp
  qed
  have min: "\<exists>j < length as. a = as ! j \<and> m a = Some (int j)" if ain: "a \<in> set (addrs t)" for a
  proof -
    have "a \<in> set as" using ain sas by simp
    then obtain j where j: "j < length as" "as ! j = a" unfolding in_set_conv_nth by blast
    have "m (as ! j) = Some (int j)" by (rule mnth [OF j(1)])
    then show ?thesis using j by blast
  qed
  have kids: "set (children (?h a)) \<subseteq> set (addrs t)" if "a \<in> set (addrs t)" "\<not> isLeaf (?h a)" for a
    using rep_children_in [OF rp that] .
  have rng: "\<forall>sn \<in> set (Nodes idx). \<forall>c \<in> set (Children sn). 0 \<le> c \<and> c < int (length (Nodes idx))"
  proof (intro ballI)
    fix sn c assume s: "sn \<in> set (Nodes idx)" and c: "c \<in> set (Children sn)"
    obtain a where a: "a \<in> set as" "sn = serializeNode ?h m a" using s by (auto simp: idx_def sns_def)
    have nl: "\<not> isLeaf (?h a)" using c a(2) by (auto simp: serializeNode_def split: if_splits)
    obtain x where x: "x \<in> set (children (?h a))" "c = (case m x of None \<Rightarrow> 0 | Some i \<Rightarrow> i)"
      using c a(2) nl by (auto simp: serializeNode_def)
    have "x \<in> set (addrs t)" using kids [of a] a(1) sas nl x(1) by auto
    then obtain j where "j < length as" "m x = Some (int j)" using min by blast
    then show "0 \<le> c \<and> c < int (length (Nodes idx))" using x(2) len by (simp add: idx_def)
  qed
  have ne: "Nodes idx \<noteq> []" using as0 by (simp add: idx_def sns_def)
  obtain tree' where t': "deserializeBTree idx = Some tree'" "root tree' = Some 0"
    "order tree' = Order idx"
    "\<forall>i < length (Nodes idx).
        isLeaf (heap tree' i) = IsLeaf (Nodes idx ! i) \<and>
        keys (heap tree' i) = Keys (Nodes idx ! i) \<and>
        vals (heap tree' i) = (if IsLeaf (Nodes idx ! i) then Values (Nodes idx ! i) else []) \<and>
        children (heap tree' i) =
          (if IsLeaf (Nodes idx ! i) then [] else map nat (Children (Nodes idx ! i)))"
    using deserialize_ok [OF ne rng] by blast
  have rho: "childNo m (as ! i) = i" if "i < length as" for i
    using mnth [OF that] by (simp add: childNo_def)
  have mi: "mirrors ?h (heap tree') (childNo m) (set (addrs t))"
    unfolding mirrors_def
  proof
    fix a assume "a \<in> set (addrs t)"
    then obtain j where j: "j < length as" "a = as ! j" using min by blast
    have r: "childNo m a = j" using rho j by simp
    have nd: "Nodes idx ! j = serializeNode ?h m a" using j by (simp add: idx_def sns_def)
    have jn: "j < length (Nodes idx)" using j len by (simp add: idx_def)
    have "map nat (map (\<lambda>c. case m c of None \<Rightarrow> 0 | Some i \<Rightarrow> i) (children (?h a))) =
          map (childNo m) (children (?h a))"
      by (simp add: childNo_def)
    then show "isLeaf (heap tree' (childNo m a)) = isLeaf (?h a) \<and>
        keys (heap tree' (childNo m a)) = keys (?h a) \<and>
        (isLeaf (?h a) \<longrightarrow> vals (heap tree' (childNo m a)) = vals (?h a)) \<and>
        (\<not> isLeaf (?h a) \<longrightarrow> children (heap tree' (childNo m a)) = map (childNo m) (children (?h a)))"
      using t'(4) jn nd unfolding r by (simp add: serializeNode_def)
  qed
  have "childNo m (addr t) = 0" using rho [of 0] as0 by simp
  then have rt': "root tree' = Some (childNo m (addr t))" using t'(2) by simp
  have "\<forall>key. Search tree' key = Search tree key"
    using Search_mirror [OF rp sh rt mi rt'] by blast
  then show ?thesis using ser t'(1,3) by (auto simp: idx_def)
qed

text \<open>The order of a tree, and the order in its index file.\<close>

lemma splitInternalStep_order:
  "splitInternalStep tree a = Some (t3, k, n) \<Longrightarrow> order t3 = order tree"
  by (auto simp: splitInternalStep_def Let_def split: if_splits)

lemma insertInParent_order:
  "insertInParent tree left key right = Some tree' \<Longrightarrow> order tree' = order tree"
proof (induction rule: insertInParent.raw_induct [rotated 1, consumes 1])
  case (1 insertInParent tree left key right tree')
  show ?case
  proof (cases "parent (heap tree left)")
    case None
    then show ?thesis using 1(2) by (auto simp: Let_def)
  next
    case (Some p)
    define pn where "pn = heap tree p"
    define pos where "pos = length (takeWhile (\<lambda>k. k < key) (keys pn))"
    define h1 where "h1 = (heap tree)
                           (p := pn\<lparr>keys := take pos (keys pn) @ key # drop pos (keys pn),
                                    children := take (pos + 1) (children pn) @
                                                right # drop (pos + 1) (children pn)\<rparr>)"
    define h2 where "h2 = h1(right := (h1 right)\<lparr>parent := Some p\<rparr>)"
    define t2 where "t2 = tree\<lparr>heap := h2\<rparr>"
    have eq: "(if \<not> pos + 1 \<le> length (children pn) then None
               else if overfull (order tree) (keys (h2 p))
                    then (case splitInternalStep t2 p of
                            None \<Rightarrow> None
                          | Some (t3, keyToPushUp, newNode) \<Rightarrow> insertInParent t3 p keyToPushUp newNode)
                    else Some t2) = Some tree'"
      using 1(2) unfolding Some option.case Let_def pn_def pos_def h1_def h2_def t2_def .
    show ?thesis
    proof (cases "overfull (order tree) (keys (h2 p))")
      case False
      then have "tree' = t2" using eq by (auto split: if_splits)
      then show ?thesis by (simp add: t2_def)
    next
      case True
      then obtain t3 k n where s: "splitInternalStep t2 p = Some (t3, k, n)"
        "insertInParent t3 p k n = Some tree'"
        using eq by (auto split: if_splits option.splits)
      have "order tree' = order t3" by (rule 1(1) [OF s(2)])
      then show ?thesis using splitInternalStep_order [OF s(1)] by (simp add: t2_def)
    qed
  qed
qed

lemma insertInLeaf_order: "insertInLeaf tree leaf key v = Some t1 \<Longrightarrow> order t1 = order tree"
  by (auto simp: insertInLeaf_def Let_def split: if_splits)

lemma splitLeaf_order: "splitLeaf tree leaf = Some tree' \<Longrightarrow> order tree' = order tree"
  by (auto simp: splitLeaf_def Let_def split: if_splits list.splits dest!: insertInParent_order)

lemma Insert_order: "Insert tree key v = Some tree' \<Longrightarrow> order tree' = order tree"
  by (auto simp: Insert_def split: option.splits if_splits
      dest!: insertInLeaf_order splitLeaf_order)

lemma indexDocs_order:
  "indexDocs enc fieldName docs btree = Some btree' \<Longrightarrow> order btree' = order btree"
proof (induction docs arbitrary: btree)
  case Nil
  then show ?case by simp
next
  case (Cons doc docs)
  show ?case
  proof (cases "map_of doc fieldName")
    case None
    then show ?thesis using Cons by simp
  next
    case (Some fv)
    then obtain docID key b1 where s: "Insert btree key docID = Some b1"
      "indexDocs enc fieldName docs b1 = Some btree'"
      using Cons.prems by (auto split: option.splits jvalue.splits)
    show ?thesis using Cons.IH [OF s(2)] Insert_order [OF s(1)] by simp
  qed
qed

lemma numberNodes_nonneg:
  "numberNodes h queue idx m = Some m' \<Longrightarrow> 0 \<le> idx \<Longrightarrow> \<forall>a i. m a = Some i \<longrightarrow> 0 \<le> i \<Longrightarrow>
   \<forall>a i. m' a = Some i \<longrightarrow> 0 \<le> i"
proof (induction rule: numberNodes.raw_induct [rotated 1, consumes 1])
  case (1 numberNodes h queue idx m m')
  show ?case
  proof (cases queue)
    case Nil
    then show ?thesis using 1 by simp
  next
    case (Cons a rest)
    then have "numberNodes h (if \<not> isLeaf (h a) then rest @ children (h a) else rest) (idx + 1)
        (m(a \<mapsto> idx)) = Some m'"
      using 1(2) by simp
    moreover have "0 \<le> idx + 1" using 1(3) by simp
    moreover have "\<forall>b i. (m(a \<mapsto> idx)) b = Some i \<longrightarrow> 0 \<le> i" using 1(3,4) by auto
    ultimately show ?thesis by (rule 1(1))
  qed
qed

lemma serializeNodes_nonneg:
  "serializeNodes h m queue visited nodes = Some nodes' \<Longrightarrow>
   \<forall>a i. m a = Some i \<longrightarrow> 0 \<le> i \<Longrightarrow>
   \<forall>sn \<in> set nodes. \<forall>c \<in> set (Children sn). 0 \<le> c \<Longrightarrow>
   \<forall>sn \<in> set nodes'. \<forall>c \<in> set (Children sn). 0 \<le> c"
proof (induction rule: serializeNodes.raw_induct [rotated 1, consumes 1])
  case (1 serializeNodes h m queue visited nodes nodes')
  show ?case
  proof (cases queue)
    case Nil
    then show ?thesis using 1 by simp
  next
    case (Cons a rest)
    show ?thesis
    proof (cases "a \<in> visited")
      case True
      then have "serializeNodes h m rest visited nodes = Some nodes'" using 1(2) Cons by simp
      then show ?thesis using 1(3,4) by (rule 1(1))
    next
      case False
      then have s: "serializeNodes h m (if isLeaf (h a) then rest else rest @ children (h a))
          (insert a visited) (nodes @ [serializeNode h m a]) = Some nodes'"
        using 1(2) Cons by simp
      have "\<forall>c \<in> set (Children (serializeNode h m a)). 0 \<le> c"
        using 1(3) by (auto simp: serializeNode_def split: option.splits)
      then have "\<forall>sn \<in> set (nodes @ [serializeNode h m a]). \<forall>c \<in> set (Children sn). 0 \<le> c"
        using 1(4) by auto
      with s 1(3) show ?thesis by (rule 1(1))
    qed
  qed
qed

lemma serializeBTree_file:
  assumes "serializeBTree tree fieldName ord = Some idx"
  shows "Field idx = fieldName \<and> Order idx = ord \<and>
         (\<forall>sn \<in> set (Nodes idx). \<forall>c \<in> set (Children sn). 0 \<le> c)"
proof (cases "root tree")
  case None
  then show ?thesis using assms by (auto simp: serializeBTree_def)
next
  case (Some r)
  then obtain m nodes where s: "numberNodes (heap tree) [r] 0 Map.empty = Some m"
    "serializeNodes (heap tree) m [r] {} [] = Some nodes"
    "idx = \<lparr>Field = fieldName, Order = ord, Nodes = nodes\<rparr>"
    using assms by (auto simp: serializeBTree_def split: option.splits)
  have "\<forall>a i. m a = Some i \<longrightarrow> 0 \<le> i" using numberNodes_nonneg [OF s(1)] by simp
  then have "\<forall>sn \<in> set nodes. \<forall>c \<in> set (Children sn). 0 \<le> c"
    using serializeNodes_nonneg [OF s(2)] by simp
  then show ?thesis using s(3) by simp
qed

lemma addChildren_total:
  "\<forall>c \<in> set cs. 0 \<le> c \<Longrightarrow> \<exists>h'. addChildren n i cs h = Some h'"
  by (induction cs arbitrary: h) (simp_all add: Let_def)

lemma linkChildren_total:
  "\<forall>(i, sn) \<in> set ps. \<forall>c \<in> set (Children sn). 0 \<le> c \<Longrightarrow> \<exists>h'. linkChildren n ps h = Some h'"
proof (induction ps arbitrary: h)
  case Nil
  then show ?case by simp
next
  case (Cons p ps)
  obtain i sn where p: "p = (i, sn)" by (cases p)
  have r: "\<forall>(i, sn) \<in> set ps. \<forall>c \<in> set (Children sn). 0 \<le> c"
    and r0: "\<forall>c \<in> set (Children sn). 0 \<le> c" using Cons.prems p by auto
  obtain h1 where h1: "addChildren n i (Children sn) h = Some h1"
    using addChildren_total [OF r0] by blast
  show ?case using p h1 Cons.IH [OF r, of h1] Cons.IH [OF r, of h] by simp
qed

lemma deserialize_total:
  assumes "\<forall>sn \<in> set (Nodes data). \<forall>c \<in> set (Children sn). 0 \<le> c"
  shows "\<exists>tree'. deserializeBTree data = Some tree' \<and> order tree' = Order data"
proof (cases "Nodes data = []")
  case True
  then show ?thesis by (simp add: deserializeBTree_def NewBPlusTree_def)
next
  case False
  let ?n = "length (Nodes data)"
  have "\<forall>(i, sn) \<in> set (zip [0..<?n] (Nodes data)). \<forall>c \<in> set (Children sn). 0 \<le> c"
    using assms by (auto dest: set_zip_rightD)
  then obtain h1 where "linkChildren ?n (zip [0..<?n] (Nodes data))
      (\<lambda>i. if i < ?n then buildNode (Nodes data ! i) else blank) = Some h1"
    using linkChildren_total by blast
  then show ?thesis using False by (simp add: deserializeBTree_def Let_def)
qed

lemma map_of_mapPut: "map_of (mapPut k v m) k' = (if k' = k then Some v else map_of m k')"
  by (induction m) auto

lemma SaveIndex_file:
  assumes "SaveIndex c disk fieldName = (None, disk')"
  shows "\<exists>btree idx. map_of (Indexes c) fieldName = Some btree \<and>
           serializeBTree btree fieldName 64 = Some idx \<and>
           \<not> ioFails disk (indexPath (Name c) fieldName) \<and>
           disk' = disk\<lparr>indexFiles := mapPut (indexPath (Name c) fieldName) idx (indexFiles disk)\<rparr>"
  using assms by (auto simp: SaveIndex_def split: option.splits if_splits)

lemma saved_then_loaded:
  assumes sv: "SaveIndex c disk fieldName = (None, disk')" and nm: "Name c0 = Name c"
  shows "\<exists>idx btree'.
           map_of (indexFiles disk') (indexPath (Name c) fieldName) = Some idx \<and>
           Field idx = fieldName \<and> Order idx = 64 \<and>
           LoadIndex c0 disk' fieldName =
             (None, c0\<lparr>Indexes := mapPut fieldName btree' (Indexes c0)\<rparr>) \<and>
           order btree' = 64"
proof -
  obtain btree idx where s: "map_of (Indexes c) fieldName = Some btree"
    "serializeBTree btree fieldName 64 = Some idx"
    "\<not> ioFails disk (indexPath (Name c) fieldName)"
    "disk' = disk\<lparr>indexFiles := mapPut (indexPath (Name c) fieldName) idx (indexFiles disk)\<rparr>"
    using SaveIndex_file [OF sv] by blast
  have f: "Field idx = fieldName" "Order idx = 64"
    "\<forall>sn \<in> set (Nodes idx). \<forall>c \<in> set (Children sn). 0 \<le> c"
    using serializeBTree_file [OF s(2)] by simp_all
  obtain btree' where b: "deserializeBTree idx = Some btree'" "order btree' = Order idx"
    using deserialize_total [OF f(3)] by blast
  have m: "map_of (indexFiles disk') (indexPath (Name c) fieldName) = Some idx"
    using s(4) by (simp add: map_of_mapPut)
  have "LoadIndex c0 disk' fieldName = (None, c0\<lparr>Indexes := mapPut fieldName btree' (Indexes c0)\<rparr>)"
    using m nm s(3,4) b(1) by (simp add: LoadIndex_def)
  then show ?thesis using m f b(2) by auto
qed

text \<open>The loop that fills an index, as a sequence of insertions.\<close>

lemma indexDocs_pairs:
  "indexPairs enc fieldName docs = Some kvs \<Longrightarrow>
   indexDocs enc fieldName docs btree = insertAll btree kvs"
proof (induction docs arbitrary: btree kvs)
  case Nil
  then show ?case by simp
next
  case (Cons doc docs)
  show ?case
  proof (cases "map_of doc fieldName")
    case None
    then show ?thesis using Cons by simp
  next
    case (Some fv)
    then obtain docID key kvs' where s: "map_of doc ''_id'' = Some (JStr docID)" "enc fv = Some key"
      "indexPairs enc fieldName docs = Some kvs'" "kvs = (key, docID) # kvs'"
      using Cons.prems by (auto split: option.splits jvalue.splits)
    show ?thesis using Some s Cons.IH [OF s(3)] by (simp split: option.splits)
  qed
qed

lemma indexDocs_built:
  "indexDocs enc fieldName docs btree = Some btree' \<Longrightarrow>
   \<exists>kvs. indexPairs enc fieldName docs = Some kvs \<and> insertAll btree kvs = Some btree'"
proof (induction docs arbitrary: btree)
  case Nil
  then show ?case by simp
next
  case (Cons doc docs)
  show ?case
  proof (cases "map_of doc fieldName")
    case None
    then show ?thesis using Cons by simp
  next
    case (Some fv)
    then obtain docID key b1 where s: "map_of doc ''_id'' = Some (JStr docID)" "enc fv = Some key"
      "Insert btree key docID = Some b1" "indexDocs enc fieldName docs b1 = Some btree'"
      using Cons.prems by (auto split: option.splits jvalue.splits)
    obtain kvs where "indexPairs enc fieldName docs = Some kvs" "insertAll b1 kvs = Some btree'"
      using Cons.IH [OF s(4)] by blast
    then show ?thesis using Some s by simp
  qed
qed

lemma SaveIndex_total:
  assumes "map_of (Indexes c) fieldName = Some btree" and "holds btree t"
    and "\<not> ioFails disk indexDir" and "\<not> ioFails disk (indexPath (Name c) fieldName)"
  shows "\<exists>disk'. SaveIndex c disk fieldName = (None, disk')"
proof -
  obtain idx where "serializeBTree btree fieldName 64 = Some idx"
    using roundtrip [OF assms(2), of fieldName 64] by blast
  then show ?thesis using assms(1,3,4) by (simp add: SaveIndex_def)
qed

lemma CreateIndex_total:
  assumes ok: "ordOK ord" and ni: "map_of (Indexes c) fieldName = None"
    and ps: "indexPairs enc fieldName (All c) = Some kvs"
    and io: "\<not> ioFails disk indexDir" "\<not> ioFails disk (indexPath (Name c) fieldName)"
  shows "\<exists>btree disk'.
           CreateIndex enc c disk fieldName ord =
             (None, c\<lparr>Indexes := mapPut fieldName btree (Indexes c)\<rparr>, disk') \<and>
           insertAll (NewBPlusTree ord) kvs = Some btree"
proof -
  obtain btree t where t: "insertAll (NewBPlusTree ord) kvs = Some btree" "holds btree t"
    using built_good [OF ok, of kvs] by blast
  have b: "indexDocs enc fieldName (All c) (NewBPlusTree ord) = Some btree"
    using indexDocs_pairs [OF ps] t(1) by simp
  let ?c = "c\<lparr>Indexes := mapPut fieldName btree (Indexes c)\<rparr>"
  have "map_of (Indexes ?c) fieldName = Some btree" by (simp add: map_of_mapPut)
  then obtain disk' where "SaveIndex ?c disk fieldName = (None, disk')"
    using SaveIndex_total [of ?c fieldName btree t disk] t(2) io by auto
  then show ?thesis using ni b t(1) by (simp add: CreateIndex_def)
qed

lemma CreateIndex_result:
  assumes "CreateIndex enc c disk fieldName ord = (None, c', disk')"
  shows "\<exists>btree. indexDocs enc fieldName (All c) (NewBPlusTree ord) = Some btree \<and>
           c' = c\<lparr>Indexes := mapPut fieldName btree (Indexes c)\<rparr> \<and>
           SaveIndex c' disk fieldName = (None, disk')"
  using assms by (auto simp: CreateIndex_def Let_def split: if_splits option.splits prod.splits)

text \<open>Rebuilding the indexes.\<close>

lemma All_Indexes [simp]: "All (c\<lparr>Indexes := x\<rparr>) = All c"
  by (simp add: All_def)

lemma SaveIndex_keeps:
  "SaveIndex c disk fieldName = (e, disk') \<Longrightarrow>
   ioFails disk' = ioFails disk \<and> dataFiles disk' = dataFiles disk"
  by (auto simp: SaveIndex_def split: option.splits if_splits)

lemma rebuildFields_result:
  "rebuildFields enc c disk fs = (None, c', disk') \<Longrightarrow>
   Data c' = Data c \<and> Name c' = Name c \<and>
   (\<forall>f \<in> set fs. \<exists>bt. indexDocs enc f (All c) (NewBPlusTree 64) = Some bt \<and>
                     map_of (Indexes c') f = Some bt) \<and>
   (\<forall>f. f \<notin> set fs \<longrightarrow> map_of (Indexes c') f = map_of (Indexes c) f)"
proof (induction fs arbitrary: c disk)
  case Nil
  then show ?case by simp
next
  case (Cons g fs)
  obtain bt where bt: "indexDocs enc g (All c) (NewBPlusTree 64) = Some bt"
    using Cons.prems by (auto split: option.splits)
  let ?c = "c\<lparr>Indexes := mapPut g bt (Indexes c)\<rparr>"
  obtain e d1 where sv: "SaveIndex ?c disk g = (e, d1)" by (cases "SaveIndex ?c disk g")
  have e: "e = None" using Cons.prems bt sv by (auto split: option.splits)
  have rec: "rebuildFields enc ?c d1 fs = (None, c', disk')"
    using Cons.prems bt sv e by simp
  have IH: "Data c' = Data ?c \<and> Name c' = Name ?c \<and>
   (\<forall>f \<in> set fs. \<exists>bt. indexDocs enc f (All ?c) (NewBPlusTree 64) = Some bt \<and>
                     map_of (Indexes c') f = Some bt) \<and>
   (\<forall>f. f \<notin> set fs \<longrightarrow> map_of (Indexes c') f = map_of (Indexes ?c) f)"
    by (rule Cons.IH [OF rec])
  have g: "\<exists>b. indexDocs enc g (All c) (NewBPlusTree 64) = Some b \<and> map_of (Indexes c') g = Some b"
  proof (cases "g \<in> set fs")
    case True
    then show ?thesis using IH by simp
  next
    case False
    then have "map_of (Indexes c') g = Some bt" using IH by (simp add: map_of_mapPut)
    then show ?thesis using bt by simp
  qed
  have "\<forall>f \<in> set (g # fs). \<exists>b. indexDocs enc f (All c) (NewBPlusTree 64) = Some b \<and>
                     map_of (Indexes c') f = Some b"
    using g IH by simp
  moreover have "\<forall>f. f \<notin> set (g # fs) \<longrightarrow> map_of (Indexes c') f = map_of (Indexes c) f"
    using IH by (simp add: map_of_mapPut)
  ultimately show ?case using IH by simp
qed

lemma rebuildFields_total:
  "\<forall>f \<in> set fs. indexPairs enc f (All c) \<noteq> None \<Longrightarrow> \<not> ioFails disk indexDir \<Longrightarrow>
   \<forall>f \<in> set fs. \<not> ioFails disk (indexPath (Name c) f) \<Longrightarrow>
   \<exists>c' disk'. rebuildFields enc c disk fs = (None, c', disk')"
proof (induction fs arbitrary: c disk)
  case Nil
  then show ?case by simp
next
  case (Cons g fs)
  obtain kvs where ps: "indexPairs enc g (All c) = Some kvs" using Cons.prems(1) by auto
  obtain bt t where t: "insertAll (NewBPlusTree 64) kvs = Some bt" "holds bt t"
    using built_good [OF ordOK_64, of kvs] by blast
  have b: "indexDocs enc g (All c) (NewBPlusTree 64) = Some bt"
    using indexDocs_pairs [OF ps] t(1) by simp
  let ?c = "c\<lparr>Indexes := mapPut g bt (Indexes c)\<rparr>"
  have "map_of (Indexes ?c) g = Some bt" by (simp add: map_of_mapPut)
  then obtain d1 where sv: "SaveIndex ?c disk g = (None, d1)"
    using SaveIndex_total [of ?c g bt t disk] t(2) Cons.prems(2,3) by auto
  have io: "ioFails d1 = ioFails disk" using SaveIndex_keeps [OF sv] by simp
  have "\<exists>c' disk'. rebuildFields enc ?c d1 fs = (None, c', disk')"
    using Cons.prems io by (intro Cons.IH) simp_all
  then show ?case using b sv by simp
qed

lemma RebuildAllIndexes_result:
  assumes "RebuildAllIndexes enc c disk = (None, c', disk')"
  shows "Data c' = Data c \<and> Name c' = Name c \<and>
         (\<forall>f bt. map_of (Indexes c') f = Some bt \<longrightarrow>
            map_of (Indexes c) f \<noteq> None \<and> indexDocs enc f (All c') (NewBPlusTree 64) = Some bt) \<and>
         (\<forall>f. map_of (Indexes c) f \<noteq> None \<longrightarrow> map_of (Indexes c') f \<noteq> None)"
proof -
  let ?c = "c\<lparr>Indexes := []\<rparr>"
  have r: "rebuildFields enc ?c disk (mapKeys (Indexes c)) = (None, c', disk')"
    using assms by (simp add: RebuildAllIndexes_def)
  note R = rebuildFields_result [OF r]
  have ks: "f \<in> set (mapKeys (Indexes c)) \<longleftrightarrow> map_of (Indexes c) f \<noteq> None" for f
    by (simp add: mapKeys_def map_of_eq_None_iff)
  have al: "All c' = All c" using R by (simp add: All_def)
  have "map_of (Indexes c) f \<noteq> None \<and> indexDocs enc f (All c') (NewBPlusTree 64) = Some bt"
    if m: "map_of (Indexes c') f = Some bt" for f bt
  proof (cases "f \<in> set (mapKeys (Indexes c))")
    case True
    then obtain b where b: "indexDocs enc f (All ?c) (NewBPlusTree 64) = Some b"
      "map_of (Indexes c') f = Some b" using R by blast
    have "b = bt" using b(2) m by simp
    then show ?thesis using b(1) True ks [of f] al by simp
  next
    case False
    then have "map_of (Indexes c') f = None" using R by simp
    then show ?thesis using m by simp
  qed
  moreover have "map_of (Indexes c') f \<noteq> None" if "map_of (Indexes c) f \<noteq> None" for f
    using R that ks [of f] by auto
  ultimately show ?thesis using R by auto
qed

lemma indexPairs_mem:
  "indexPairs enc f docs = Some kvs \<Longrightarrow>
   (key, i) \<in> set kvs \<longleftrightarrow>
     (\<exists>d \<in> set docs. \<exists>v. map_of d f = Some v \<and> enc v = Some key \<and> map_of d ''_id'' = Some (JStr i))"
proof (induction docs arbitrary: kvs)
  case Nil
  then show ?case by simp
next
  case (Cons doc docs)
  show ?case
  proof (cases "map_of doc f")
    case None
    then show ?thesis using Cons by simp
  next
    case (Some fv)
    then obtain docID k kvs' where s: "map_of doc ''_id'' = Some (JStr docID)" "enc fv = Some k"
      "indexPairs enc f docs = Some kvs'" "kvs = (k, docID) # kvs'"
      using Cons.prems by (auto split: option.splits jvalue.splits)
    show ?thesis using Cons.IH [OF s(3)] Some s by auto
  qed
qed

lemma indexPairs_defined:
  "indexPairs enc f docs = Some kvs \<Longrightarrow> d \<in> set docs \<Longrightarrow> map_of d f = Some v \<Longrightarrow>
   \<exists>key i. enc v = Some key \<and> map_of d ''_id'' = Some (JStr i)"
proof (induction docs arbitrary: kvs)
  case Nil
  then show ?case by simp
next
  case (Cons doc docs)
  show ?case
  proof (cases "map_of doc f")
    case None
    then show ?thesis using Cons by auto
  next
    case (Some fv)
    then obtain docID k kvs' where s: "map_of doc ''_id'' = Some (JStr docID)" "enc fv = Some k"
      "indexPairs enc f docs = Some kvs'"
      using Cons.prems(1) by (auto split: option.splits jvalue.splits)
    show ?thesis using Cons.IH [OF s(3)] Cons.prems(2,3) Some s by auto
  qed
qed

lemma built_Search:
  assumes "ordOK ord" and "insertAll (NewBPlusTree ord) kvs = Some bt"
  shows "Search bt k = Some (map snd (filter (\<lambda>kv. fst kv = k) kvs))"
proof -
  obtain tree t where t: "insertAll (NewBPlusTree ord) kvs = Some tree" "holds tree t"
    "good ord t" "order tree = ord" "entries t = addEntries kvs []"
    using built_good [OF assms(1), of kvs] by blast
  have eq: "tree = bt" using t(1) assms(2) by simp
  have ord: "ordered t" using t(3) by (simp add: good_def)
  show ?thesis
    using Search_entries [OF t(2) ord, of k] lookupE_addEntries [of "[]" kvs k] t(5) eq
    by (simp add: lookupE_def)
qed

lemma indexDocs_Search:
  assumes "indexDocs enc f docs (NewBPlusTree 64) = Some bt"
  shows "\<exists>ids. Search bt k = Some ids \<and>
           (\<forall>i. i \<in> set ids \<longleftrightarrow>
              (\<exists>d \<in> set docs. \<exists>v. map_of d f = Some v \<and> enc v = Some k \<and>
                 map_of d ''_id'' = Some (JStr i)))"
proof -
  obtain kvs where k: "indexPairs enc f docs = Some kvs" "insertAll (NewBPlusTree 64) kvs = Some bt"
    using indexDocs_built [OF assms] by blast
  have s: "Search bt k = Some (map snd (filter (\<lambda>kv. fst kv = k) kvs))"
    by (rule built_Search [OF ordOK_64 k(2)])
  have "i \<in> set (map snd (filter (\<lambda>kv. fst kv = k) kvs)) \<longleftrightarrow> (k, i) \<in> set kvs" for i
    by force
  then show ?thesis using s indexPairs_mem [OF k(1), of k] by simp
qed

text \<open>The delete command.\<close>

lemma Delete_result:
  "Indexes (fst (Delete c i)) = Indexes c \<and> Name (fst (Delete c i)) = Name c \<and>
   Data (fst (Delete c i)) =
     (if GetByID c i = None then Data c else filter (\<lambda>(k, v). k \<noteq> i) (Data c))"
  by (simp add: Delete_def updateIndexesOnDelete_def Remove_def split: option.split)

lemma deleteMatching_result:
  "deleteMatching matches conditions docs c n = (c1, n1) \<Longrightarrow>
   Indexes c1 = Indexes c \<and> Name c1 = Name c \<and> set (Data c1) \<subseteq> set (Data c) \<and>
   (distinct (map fst (Data c)) \<longrightarrow> distinct (map fst (Data c1)))"
proof (induction docs arbitrary: c n)
  case Nil
  then show ?case by simp
next
  case (Cons doc docs)
  show ?case
  proof (cases "matches doc conditions \<and> (\<exists>i. map_of doc ''_id'' = Some (JStr i))")
    case True
    then obtain i where i: "map_of doc ''_id'' = Some (JStr i)" by blast
    let ?c = "fst (Delete c i)"
    have "deleteMatching matches conditions docs ?c (if snd (Delete c i) then n + 1 else n) = (c1, n1)"
      using Cons.prems True i by simp
    then have IH: "Indexes c1 = Indexes ?c \<and> Name c1 = Name ?c \<and> set (Data c1) \<subseteq> set (Data ?c) \<and>
       (distinct (map fst (Data ?c)) \<longrightarrow> distinct (map fst (Data c1)))"
      by (rule Cons.IH)
    have "set (Data ?c) \<subseteq> set (Data c)" using Delete_result [of c i] by auto
    moreover have "distinct (map fst (Data c)) \<longrightarrow> distinct (map fst (Data ?c))"
      using Delete_result [of c i] by (auto simp: distinct_map_filter)
    ultimately show ?thesis using IH Delete_result [of c i] by auto
  next
    case False
    then have "deleteMatching matches conditions docs c n = (c1, n1)"
      using Cons.prems by (auto split: option.splits jvalue.splits if_splits)
    then show ?thesis by (rule Cons.IH)
  qed
qed

lemma fst_set_mapPut: "fst ` set (mapPut k v m) = insert k (fst ` set m)"
proof (induction m)
  case Nil
  then show ?case by simp
next
  case (Cons e m)
  obtain k' v' where e: "e = (k', v')" by (cases e)
  show ?case
  proof (cases "k' = k")
    case True
    then show ?thesis using e by simp
  next
    case False
    then have "fst ` set (mapPut k v (e # m)) = insert k' (fst ` set (mapPut k v m))"
      using e by simp
    then show ?thesis using Cons.IH e by auto
  qed
qed

lemma distinct_mapPut: "distinct (map fst m) \<Longrightarrow> distinct (map fst (mapPut k v m))"
proof (induction m)
  case Nil
  then show ?case by simp
next
  case (Cons e m)
  obtain k' v' where e: "e = (k', v')" by (cases e)
  show ?case
  proof (cases "k' = k")
    case True
    then show ?thesis using Cons.prems e by simp
  next
    case False
    have "k' \<notin> fst ` set (mapPut k v m)"
      using Cons.prems e False unfolding fst_set_mapPut by simp
    then show ?thesis using Cons e False by simp
  qed
qed

lemma distinct_fold_Put:
  "distinct (map fst m) \<Longrightarrow> distinct (map fst (fold (\<lambda>(k, v) m. Put m k v) raw m))"
proof (induction raw arbitrary: m)
  case Nil
  then show ?case by simp
next
  case (Cons e raw)
  obtain k v where e: "e = (k, v)" by (cases e)
  show ?case using Cons.IH [of "mapPut k v m"] Cons.prems e by (simp add: Put_def distinct_mapPut)
qed

lemma LoadCollection_result:
  "LoadCollection disk name = Inr c \<Longrightarrow>
   Name c = name \<and> Indexes c = [] \<and> distinct (map fst (Data c))"
  using distinct_fold_Put [of NewHashMap]
  by (auto simp: LoadCollection_def NewCollection_def NewHashMap_def split: option.splits if_splits)

lemma LoadIndex_keeps:
  "LoadIndex c disk f = (e, c') \<Longrightarrow> Data c' = Data c \<and> Name c' = Name c"
  by (auto simp: LoadIndex_def split: option.splits if_splits)

lemma loadEntries_keeps:
  "loadEntries c disk es = (e, c') \<Longrightarrow> Data c' = Data c \<and> Name c' = Name c"
proof (induction es arbitrary: c)
  case Nil
  then show ?case by simp
next
  case (Cons name es)
  show ?case
  proof (cases "entryField c name")
    case None
    then show ?thesis using Cons by simp
  next
    case (Some f)
    obtain e1 c1 where l: "LoadIndex c disk f = (e1, c1)" by (cases "LoadIndex c disk f")
    show ?thesis
    proof (cases e1)
      case None
      then have "loadEntries c1 disk es = (e, c')" using Cons.prems Some l by simp
      then show ?thesis using Cons.IH [of c1] LoadIndex_keeps [OF l] by simp
    next
      case (Some err)
      then have "c' = c1" using Cons.prems \<open>entryField c name = Some f\<close> l by simp
      then show ?thesis using LoadIndex_keeps [OF l] by simp
    qed
  qed
qed

lemma LoadAllIndexes_keeps:
  "LoadAllIndexes c disk = (e, c') \<Longrightarrow> Data c' = Data c \<and> Name c' = Name c"
  by (auto simp: LoadAllIndexes_def split: if_splits dest: loadEntries_keeps)

lemma Save_result:
  "Save c disk = (None, disk') \<Longrightarrow> ioFails disk' = ioFails disk \<and> indexFiles disk' = indexFiles disk"
  by (auto simp: Save_def split: if_splits)

lemma GetByID_distinct:
  "distinct (map fst (Data c)) \<Longrightarrow> (j, JObj d) \<in> set (Data c) \<Longrightarrow> GetByID c j = Some d"
  by (simp add: GetByID_def Get_def)

lemma All_mem: "d \<in> set (All c) \<longleftrightarrow> (\<exists>j. (j, JObj d) \<in> set (Data c))"
proof -
  have "d \<in> set (onlyDocs items) \<longleftrightarrow> (\<exists>j. (j, JObj d) \<in> set items)" for items
    by (induction items rule: onlyDocs.induct) auto
  then show ?thesis by (simp add: All_def Items_def)
qed

lemma deleteAndRebuild_result:
  assumes "deleteAndRebuild enc matches c disk conditions = Inr (c', disk', n)"
  shows "Data c' = Data (fst (deleteMatching matches conditions (All c) c 0)) \<and>
         Name c' = Name c \<and>
         (distinct (map fst (Data c)) \<longrightarrow> distinct (map fst (Data c'))) \<and>
         (\<forall>f bt. map_of (Indexes c') f = Some bt \<longrightarrow>
            map_of (Indexes c) f \<noteq> None \<and> indexDocs enc f (All c') (NewBPlusTree 64) = Some bt) \<and>
         (\<forall>f. map_of (Indexes c) f \<noteq> None \<longrightarrow> map_of (Indexes c') f \<noteq> None)"
proof -
  obtain c1 n1 where dm: "deleteMatching matches conditions (All c) c 0 = (c1, n1)"
    by (cases "deleteMatching matches conditions (All c) c 0")
  obtain e1 d1 where sv: "Save c1 disk = (e1, d1)" by (cases "Save c1 disk")
  obtain e2 c2 d2 where rb: "RebuildAllIndexes enc c1 d1 = (e2, c2, d2)"
    by (cases "RebuildAllIndexes enc c1 d1")
  have e: "e1 = None" "e2 = None" "c' = c2"
    using assms dm sv rb by (auto simp: deleteAndRebuild_def split: option.splits)
  note D = deleteMatching_result [OF dm]
  have R: "Data c2 = Data c1 \<and> Name c2 = Name c1 \<and>
         (\<forall>f bt. map_of (Indexes c2) f = Some bt \<longrightarrow>
            map_of (Indexes c1) f \<noteq> None \<and> indexDocs enc f (All c2) (NewBPlusTree 64) = Some bt) \<and>
         (\<forall>f. map_of (Indexes c1) f \<noteq> None \<longrightarrow> map_of (Indexes c2) f \<noteq> None)"
    using RebuildAllIndexes_result [of enc c1 d1 c2 d2] rb e by simp
  show ?thesis using D R e(3) dm by simp
qed

lemma cmdDelete_result:
  assumes "cmdDelete enc matches disk dbName conditions = Inr (c', disk', n)"
  shows "distinct (map fst (Data c')) \<and>
         (\<forall>f bt. map_of (Indexes c') f = Some bt \<longrightarrow>
            indexDocs enc f (All c') (NewBPlusTree 64) = Some bt)"
proof -
  obtain c0 where lc: "LoadCollection disk dbName = Inr c0"
    using assms by (auto simp: cmdDelete_def split: sum.splits)
  obtain e1 c1 where li: "LoadAllIndexes c0 disk = (e1, c1)" by (cases "LoadAllIndexes c0 disk")
  have dr: "deleteAndRebuild enc matches c1 disk conditions = Inr (c', disk', n)"
    using assms lc li by (auto simp: cmdDelete_def split: option.splits)
  have "distinct (map fst (Data c1))"
    using LoadCollection_result [OF lc] LoadAllIndexes_keeps [OF li] by simp
  then show ?thesis using deleteAndRebuild_result [OF dr] by blast
qed

lemma deleteAndRebuild_total:
  assumes dm: "deleteMatching matches conditions (All c) c 0 = (c1, n)"
    and io: "\<not> ioFails disk ''data''" "\<not> ioFails disk (dataPath (Name c))"
      "\<not> ioFails disk indexDir"
      "\<forall>f \<in> set (mapKeys (Indexes c)). \<not> ioFails disk (indexPath (Name c) f)"
    and ps: "\<forall>f \<in> set (mapKeys (Indexes c)). indexPairs enc f (All c1) \<noteq> None"
  shows "\<exists>c' disk'. deleteAndRebuild enc matches c disk conditions = Inr (c', disk', n)"
proof -
  note D = deleteMatching_result [OF dm]
  obtain d1 where sv: "Save c1 disk = (None, d1)" using io(1,2) D by (simp add: Save_def)
  have io1: "ioFails d1 = ioFails disk" using Save_result [OF sv] by simp
  have "\<exists>c' disk'. rebuildFields enc (c1\<lparr>Indexes := []\<rparr>) d1 (mapKeys (Indexes c1)) = (None, c', disk')"
    using ps io(3,4) io1 D by (intro rebuildFields_total) simp_all
  then obtain c' disk' where "RebuildAllIndexes enc c1 d1 = (None, c', disk')"
    by (auto simp: RebuildAllIndexes_def)
  then show ?thesis using dm sv by (simp add: deleteAndRebuild_def)
qed

text \<open>The nodes that an insertion allocates are halves of split nodes.\<close>

lemma nodeSet_self: "t \<in> nodeSet t"
  by (cases t) simp_all

lemma nodeSet_addr: "x \<in> nodeSet t \<Longrightarrow> addr x \<in> set (addrs t)"
proof (induction t)
  case (BL a ks vs nx)
  then show ?case by simp
next
  case (BN a ks cs)
  then show ?case by auto
qed

lemma addrs_nodeSet: "a \<in> set (addrs t) \<Longrightarrow> \<exists>x \<in> nodeSet t. addr x = a"
proof (induction t)
  case (BL b ks vs nx)
  then show ?case by simp
next
  case (BN b ks cs)
  show ?case
  proof (cases "a = b")
    case True
    then show ?thesis by auto
  next
    case False
    then obtain c where c: "c \<in> set cs" "a \<in> set (addrs c)" using BN.prems by auto
    then obtain x where "x \<in> nodeSet c" "addr x = a" using BN.IH by blast
    then show ?thesis using c(1) by auto
  qed
qed

lemma rep_nodeSet:
  "rep h p t \<Longrightarrow> x \<in> nodeSet t \<Longrightarrow>
   isLeaf (h (addr x)) = isLeafOf x \<and> keys (h (addr x)) = keysOf x \<and> nxt (h (addr x)) = nxtOf x"
proof (induction t arbitrary: p)
  case (BL a ks vs nx)
  then show ?case by simp
next
  case (BN a ks cs)
  show ?case
  proof (cases "x = BN a ks cs")
    case True
    then show ?thesis using BN.prems(1) by simp
  next
    case False
    then obtain c where c: "c \<in> set cs" "x \<in> nodeSet c" using BN.prems(2) by auto
    then have "rep h (Some a) c" using BN.prems(1) by simp
    then show ?thesis using BN.IH [OF c(1) _ c(2)] by blast
  qed
qed

lemma rep_parent_link:
  "rep h q t \<Longrightarrow> x \<in> nodeSet t \<Longrightarrow> x \<noteq> t \<Longrightarrow>
   \<exists>p \<in> set (addrs t). parent (h (addr x)) = Some p \<and> \<not> isLeaf (h p) \<and>
      addr x \<in> set (children (h p))"
proof (induction t arbitrary: q)
  case (BL a ks vs nx)
  then show ?case by simp
next
  case (BN a ks cs)
  obtain c where c: "c \<in> set cs" "x \<in> nodeSet c" using BN.prems(2,3) by auto
  have rc: "rep h (Some a) c" using BN.prems(1) c(1) by simp
  show ?case
  proof (cases "x = c")
    case True
    have "parent (h (addr c)) = Some a" using rep_root [OF rc] .
    moreover have "\<not> isLeaf (h a)" "addr c \<in> set (children (h a))"
      using BN.prems(1) c(1) by simp_all
    ultimately show ?thesis using True by auto
  next
    case False
    obtain p where "p \<in> set (addrs c)" "parent (h (addr x)) = Some p" "\<not> isLeaf (h p)"
      "addr x \<in> set (children (h p))"
      using BN.IH [OF c(1) rc c(2) False] by blast
    then show ?thesis using c(1) by auto
  qed
qed

lemma resNodes_splitLeafNode:
  "resNodes (fst (splitLeafNode ord a n ks vs nx)) =
     (if overfull ord ks
      then {BL a (take (length ks div 2) ks) (take (length ks div 2) vs) (Some n),
            BL n (drop (length ks div 2) ks) (drop (length ks div 2) vs) nx}
      else {BL a ks vs nx})"
  by (auto simp: splitLeafNode_def)

lemma resNodes_splitNode:
  "resNodes (fst (splitNode ord a n ks cs)) =
     (if overfull ord ks
      then {BN a (take (length ks div 2) ks) (take (length ks div 2 + 1) cs),
            BN n (drop (length ks div 2 + 1) ks) (drop (length ks div 2 + 1) cs)}
      else {BN a ks cs}) \<union> (\<Union>c \<in> set cs. nodeSet c)"
proof -
  have "set (take (length ks div 2 + 1) cs) \<union> set (drop (length ks div 2 + 1) cs) = set cs"
    by (metis append_take_drop_id set_append)
  then have "(\<Union>c \<in> set (take (length ks div 2 + 1) cs). nodeSet c) \<union>
             (\<Union>c \<in> set (drop (length ks div 2 + 1) cs). nodeSet c) = (\<Union>c \<in> set cs. nodeSet c)"
    by blast
  then show ?thesis by (auto simp: splitNode_def)
qed

lemma leafKeys_cases: "leafKeys key ks = ks \<or> leafKeys key ks = insAt (lowerPos ks key) key ks"
  by (simp add: leafKeys_def)

lemma treeIns_new:
  "shape t \<Longrightarrow> \<forall>a \<in> set (addrs t). a < n \<Longrightarrow>
   \<forall>x \<in> resNodes (fst (treeIns ord key v n t)). n \<le> addr x \<longrightarrow>
      (\<exists>o' \<in> nodeSet t. \<exists>y \<in> resNodes (fst (treeIns ord key v n t)). halves ord o' y x)"
proof (induction ord key v n t rule: treeIns.induct)
  case (1 ord key v n a ks vs nx)
  let ?ks = "leafKeys key ks" and ?vs = "leafVals key v ks vs"
  let ?m = "length ?ks div 2"
  have a: "a < n" using 1 by simp
  show ?case
  proof (cases "overfull ord ?ks")
    case False
    then show ?thesis using a by (simp add: resNodes_splitLeafNode)
  next
    case True
    let ?y = "BL a (take ?m ?ks) (take ?m ?vs) (Some n)"
    let ?x = "BL n (drop ?m ?ks) (drop ?m ?vs) nx"
    have "halves ord (BL a ks vs nx) ?y ?x"
      unfolding halves_def using True leafKeys_cases [of key ks]
      by (auto intro!: exI [of _ ?ks])
    then show ?thesis using True a by (simp add: resNodes_splitLeafNode)
  qed
next
  case (2 ord key v n a ks cs)
  let ?i = "childIndex ks key"
  let ?t = "BN a ks cs"
  have i: "?i < length cs" using 2 childIndex_le [of ks key] by simp
  have ci: "cs ! ?i \<in> set cs" using i by simp
  have sh: "shape (cs ! ?i)" using "2.prems"(1) ci by simp
  have lt: "\<forall>b \<in> set (addrs (cs ! ?i)). b < n" using "2.prems"(2) ci by auto
  have a: "a < n" using "2.prems"(2) by simp
  have old: "addr x < n" if "c \<in> set cs" "x \<in> nodeSet c" for c x
    using nodeSet_addr [OF that(2)] "2.prems"(2) that(1) by auto
  obtain res n' where r: "treeIns ord key v n (cs ! ?i) = (res, n')"
    by (cases "treeIns ord key v n (cs ! ?i)")
  have nn: "n \<le> n'" using treeIns_addrs [OF sh, of n ord key v] r by simp
  have IH: "\<forall>x \<in> resNodes res. n \<le> addr x \<longrightarrow>
      (\<exists>o' \<in> nodeSet (cs ! ?i). \<exists>y \<in> resNodes res. halves ord o' y x)"
    using "2.IH" [OF i sh lt] r by simp
  have sub: "nodeSet (cs ! ?i) \<subseteq> nodeSet ?t" using ci by auto
  show ?case
  proof (cases res)
    case (Same c')
    have eq: "fst (treeIns ord key v n ?t) = Same (BN a ks (cs[?i := c']))"
      using i r Same by simp
    have in': "nodeSet c' \<subseteq> resNodes (fst (treeIns ord key v n ?t))"
      unfolding eq using i by (auto simp: set_update_memI)
    have rsub: "resNodes res \<subseteq> resNodes (fst (treeIns ord key v n ?t))"
      using in' Same by simp
    show ?thesis
    proof (intro ballI impI)
      fix x assume x: "x \<in> resNodes (fst (treeIns ord key v n ?t))" and nx: "n \<le> addr x"
      have "x = BN a ks (cs[?i := c']) \<or> (\<exists>c \<in> set (cs[?i := c']). x \<in> nodeSet c)"
        using x unfolding eq by auto
      then have "x \<in> nodeSet c'"
      proof
        assume "x = BN a ks (cs[?i := c'])"
        then show ?thesis using a nx by simp
      next
        assume "\<exists>c \<in> set (cs[?i := c']). x \<in> nodeSet c"
        then obtain c where c: "c \<in> set (cs[?i := c'])" "x \<in> nodeSet c" by blast
        have "c = c' \<or> c \<in> set cs" using c(1) by (auto dest: in_set_updateD)
        then show ?thesis using c(2) old nx by fastforce
      qed
      then have "x \<in> resNodes res" using Same by simp
      then obtain o' y where "o' \<in> nodeSet (cs ! ?i)" "y \<in> resNodes res" "halves ord o' y x"
        using IH nx by blast
      then show "\<exists>o' \<in> nodeSet ?t. \<exists>y \<in> resNodes (fst (treeIns ord key v n ?t)). halves ord o' y x"
        using sub rsub by blast
    qed
  next
    case (Split l k r')
    let ?ks = "insAt (lowerPos ks k) k ks"
    let ?cs = "insAt (lowerPos ks k + 1) r' (cs[?i := l])"
    let ?m = "length ?ks div 2"
    have eq: "fst (treeIns ord key v n ?t) = fst (splitNode ord a n' ?ks ?cs)"
      using i r Split by simp
    have scs: "set ?cs = insert r' (set (cs[?i := l]))" by (rule set_insAt)
    have "l \<in> set (cs[?i := l])" using i by (rule set_update_memI)
    then have lin: "l \<in> set ?cs" "r' \<in> set ?cs" unfolding scs by blast+
    have in': "nodeSet l \<union> nodeSet r' \<subseteq> resNodes (fst (treeIns ord key v n ?t))"
      unfolding eq resNodes_splitNode using lin by auto
    have rsub: "resNodes res \<subseteq> resNodes (fst (treeIns ord key v n ?t))"
      using in' Split by simp
    have ksub: "set ?cs \<subseteq> insert l (insert r' (set cs))"
      unfolding scs by (auto dest: in_set_updateD)
    show ?thesis
    proof (intro ballI impI)
      fix x assume x: "x \<in> resNodes (fst (treeIns ord key v n ?t))" and nx: "n \<le> addr x"
      consider (new) "overfull ord ?ks" "x = BN n' (drop (?m + 1) ?ks) (drop (?m + 1) ?cs)"
        | (child) "x \<in> nodeSet l \<union> nodeSet r'"
      proof -
        have "(overfull ord ?ks \<and> (x = BN a (take ?m ?ks) (take (?m + 1) ?cs) \<or>
                 x = BN n' (drop (?m + 1) ?ks) (drop (?m + 1) ?cs))) \<or>
              (\<not> overfull ord ?ks \<and> x = BN a ?ks ?cs) \<or> (\<exists>c \<in> set ?cs. x \<in> nodeSet c)"
          using x unfolding eq resNodes_splitNode by (auto split: if_splits)
        then show ?thesis
        proof (elim disjE conjE exE bexE)
          assume "x = BN a (take ?m ?ks) (take (?m + 1) ?cs)"
          then show ?thesis using a nx by simp
        next
          assume "overfull ord ?ks" "x = BN n' (drop (?m + 1) ?ks) (drop (?m + 1) ?cs)"
          then show ?thesis by (rule new)
        next
          assume "x = BN a ?ks ?cs"
          then show ?thesis using a nx by simp
        next
          fix c assume c: "c \<in> set ?cs" "x \<in> nodeSet c"
          then have "c = l \<or> c = r' \<or> c \<in> set cs" using ksub by auto
          then have "x \<in> nodeSet l \<union> nodeSet r'" using c(2) old nx by fastforce
          then show ?thesis by (rule child)
        qed
      qed
      then show "\<exists>o' \<in> nodeSet ?t. \<exists>y \<in> resNodes (fst (treeIns ord key v n ?t)). halves ord o' y x"
      proof cases
        case new
        let ?y = "BN a (take ?m ?ks) (take (?m + 1) ?cs)"
        have "halves ord ?t ?y x"
          unfolding halves_def using new by (auto intro!: exI [of _ ?ks])
        moreover have "?y \<in> resNodes (fst (treeIns ord key v n ?t))"
          unfolding eq resNodes_splitNode using new(1) by simp
        moreover have "?t \<in> nodeSet ?t" by (rule nodeSet_self)
        ultimately show ?thesis by blast
      next
        case child
        then have "x \<in> resNodes res" using Split by simp
        then obtain o' y where "o' \<in> nodeSet (cs ! ?i)" "y \<in> resNodes res" "halves ord o' y x"
          using IH nx by blast
        then show ?thesis using sub rsub by blast
      qed
    qed
  qed
qed

lemma bounded_nodeSet: "bounded m t \<Longrightarrow> x \<in> nodeSet t \<Longrightarrow> length (keysOf x) \<le> m"
proof (induction t)
  case (BL a ks vs nx)
  then show ?case by simp
next
  case (BN a ks cs)
  then show ?case by auto
qed

lemma Insert_splits:
  assumes ok: "ordOK (order tree)" and h: "holds tree t" and g: "good (order tree) t"
    and ins: "Insert tree key v = Some tree'"
    and x: "nalloc tree \<le> x" "x < nalloc tree'"
  shows "(root tree' = Some x \<and> \<not> isLeaf (heap tree' x) \<and> length (keys (heap tree' x)) = 1 \<and>
          length (children (heap tree' x)) = 2) \<or>
         (\<exists>a pos k p.
            a < nalloc tree \<and>
            overfull (order tree) (insAt pos k (keys (heap tree a))) \<and>
            keys (heap tree' a) =
              take (length (insAt pos k (keys (heap tree a))) div 2)
                (insAt pos k (keys (heap tree a))) \<and>
            keys (heap tree' x) =
              drop (length (insAt pos k (keys (heap tree a))) div 2 +
                      (if isLeaf (heap tree' x) then 0 else 1))
                (insAt pos k (keys (heap tree a))) \<and>
            isLeaf (heap tree a) = isLeaf (heap tree' x) \<and>
            isLeaf (heap tree' a) = isLeaf (heap tree' x) \<and>
            (isLeaf (heap tree' x) \<longrightarrow> nxt (heap tree' a) = Some x) \<and>
            parent (heap tree' x) = Some p \<and> \<not> isLeaf (heap tree' p) \<and>
            x \<in> set (children (heap tree' p)))"
proof -
  let ?n = "nalloc tree" and ?ord = "order tree"
  let ?t' = "fst (rootIns ?ord key v ?n t)"
  have h': "holds tree' ?t'" using Insert_refine [OF h, of key v] ins by auto
  have rp: "rep (heap tree) None t" and sh: "shape t" and se: "set (addrs t) = {..<?n}"
    using h by (simp_all add: holds_def)
  have rt': "root tree' = Some (addr ?t')" and rp': "rep (heap tree') None ?t'"
    and se': "set (addrs ?t') = {..<nalloc tree'}"
    using h' by (simp_all add: holds_def)
  have lt: "\<forall>a \<in> set (addrs t). a < ?n" using se by simp
  have bd: "bounded (2 * nat (sint ?ord) - 1) t" using g by (simp add: good_def)
  obtain X where X: "X \<in> nodeSet ?t'" "addr X = x"
    using addrs_nodeSet [of x ?t'] se' x(2) by auto
  obtain res n1 where r: "treeIns ?ord key v ?n t = (res, n1)"
    by (cases "treeIns ?ord key v ?n t")
  have ra: "resAddr res = addr t" using treeIns_addr [OF sh, of ?ord key v ?n] r by simp
  have new: "\<forall>x \<in> resNodes res. ?n \<le> addr x \<longrightarrow>
      (\<exists>o' \<in> nodeSet t. \<exists>y \<in> resNodes res. halves ?ord o' y x)"
    using treeIns_new [OF sh lt, of ?ord key v] r by simp
  have at: "addr t < ?n" using lt addr_in_addrs [of t] by blast
  consider (root) "X = ?t'" "\<exists>k l r'. ?t' = BN n1 [k] [l, r']"
    | (inner) "X \<noteq> ?t'" "X \<in> resNodes res" "resNodes res \<subseteq> nodeSet ?t'"
  proof (cases res)
    case (Same t1)
    have e: "?t' = t1" using r Same by (simp add: rootIns_def)
    have "addr t1 = addr t" using ra Same by simp
    then have "X \<noteq> ?t'" using e X(2) x(1) at by auto
    moreover have "X \<in> resNodes res" "resNodes res \<subseteq> nodeSet ?t'" using X(1) e Same by simp_all
    ultimately show ?thesis by (rule inner)
  next
    case (Split l k r')
    have e: "?t' = BN n1 [k] [l, r']" using r Split by (simp add: rootIns_def)
    show ?thesis
    proof (cases "X = ?t'")
      case True
      then show ?thesis using e by (intro root) auto
    next
      case False
      then have "X \<in> resNodes res" using X(1) e Split by auto
      moreover have "resNodes res \<subseteq> nodeSet ?t'" using e Split by auto
      ultimately show ?thesis using False by (intro inner)
    qed
  qed
  then show ?thesis
  proof cases
    case root
    then obtain k l r' where e: "?t' = BN n1 [k] [l, r']" by blast
    have "heap tree' (addr ?t') = \<lparr>isLeaf = False, keys = [k], vals = [],
        children = map addr [l, r'], nxt = None, parent = None\<rparr>"
      using rp' unfolding e by simp
    then have "\<not> isLeaf (heap tree' x)" "length (keys (heap tree' x)) = 1"
      "length (children (heap tree' x)) = 2"
      using root(1) X(2) by simp_all
    moreover have "root tree' = Some x" using rt' root(1) X(2) by simp
    ultimately show ?thesis by blast
  next
    case inner
    obtain o' y where oy: "o' \<in> nodeSet t" "y \<in> resNodes res" "halves ?ord o' y X"
      using new inner(2) X(2) x(1) by blast
    have y': "y \<in> nodeSet ?t'" using oy(2) inner(3) by blast
    have old: "isLeaf (heap tree (addr o')) = isLeafOf o'" "keys (heap tree (addr o')) = keysOf o'"
      using rep_nodeSet [OF rp oy(1)] by simp_all
    have hy: "isLeaf (heap tree' (addr y)) = isLeafOf y" "keys (heap tree' (addr y)) = keysOf y"
      "nxt (heap tree' (addr y)) = nxtOf y"
      using rep_nodeSet [OF rp' y'] by simp_all
    have hx: "isLeaf (heap tree' x) = isLeafOf X" "keys (heap tree' x) = keysOf X"
      using rep_nodeSet [OF rp' X(1)] X(2) by simp_all
    have ao: "addr o' < ?n" using nodeSet_addr [OF oy(1)] lt by blast
    have lo: "length (keysOf o') \<le> 2 * nat (sint ?ord) - 1" by (rule bounded_nodeSet [OF bd oy(1)])
    obtain ks where ks: "ks = keysOf o' \<or> (\<exists>pos k. ks = insAt pos k (keysOf o'))"
      "overfull ?ord ks" "keysOf y = take (length ks div 2) ks"
      "keysOf X = drop (length ks div 2 + (if isLeafOf X then 0 else 1)) ks"
      and ay: "addr y = addr o'" and ly: "isLeafOf y = isLeafOf o'" and lx: "isLeafOf X = isLeafOf o'"
      and nx: "isLeafOf X \<longrightarrow> nxtOf y = Some (addr X)"
      using oy(3) unfolding halves_def by blast
    have M: "sint ?ord = int (nat (sint ?ord))" using ok by (simp add: ordOK_def)
    have "2 * nat (sint ?ord) \<le> length ks" using overfull_nat [OF ok M, of ks] ks(2) by simp
    then have "ks \<noteq> keysOf o'" using lo ok by (auto simp: ordOK_def)
    then obtain pos k where pk: "ks = insAt pos k (keys (heap tree (addr o')))"
      using ks(1) old(2) by auto
    obtain p where p: "parent (heap tree' (addr X)) = Some p" "\<not> isLeaf (heap tree' p)"
      "addr X \<in> set (children (heap tree' p))"
      using rep_parent_link [OF rp' X(1) inner(1)] by blast
    have "addr o' < ?n \<and>
            overfull ?ord (insAt pos k (keys (heap tree (addr o')))) \<and>
            keys (heap tree' (addr o')) =
              take (length (insAt pos k (keys (heap tree (addr o')))) div 2)
                (insAt pos k (keys (heap tree (addr o')))) \<and>
            keys (heap tree' x) =
              drop (length (insAt pos k (keys (heap tree (addr o')))) div 2 +
                      (if isLeaf (heap tree' x) then 0 else 1))
                (insAt pos k (keys (heap tree (addr o')))) \<and>
            isLeaf (heap tree (addr o')) = isLeaf (heap tree' x) \<and>
            isLeaf (heap tree' (addr o')) = isLeaf (heap tree' x) \<and>
            (isLeaf (heap tree' x) \<longrightarrow> nxt (heap tree' (addr o')) = Some x) \<and>
            parent (heap tree' x) = Some p \<and> \<not> isLeaf (heap tree' p) \<and>
            x \<in> set (children (heap tree' p))"
      using ao ks(2,3,4) pk old hy hx ay ly lx nx p X(2) by simp
    then show ?thesis by blast
  qed
qed





text \<open>The index files that the delete command leaves.\<close>

lemma indexPath_inj: "indexPath name f = indexPath name g \<Longrightarrow> f = g"
  by (simp add: indexPath_def)

lemma rebuildFields_files:
  "rebuildFields enc c disk fs = (None, c', disk') \<Longrightarrow> distinct fs \<Longrightarrow>
   (\<forall>f \<in> set fs. \<exists>bt idx. map_of (Indexes c') f = Some bt \<and>
       serializeBTree bt f 64 = Some idx \<and>
       map_of (indexFiles disk') (indexPath (Name c) f) = Some idx) \<and>
   (\<forall>p. (\<forall>f \<in> set fs. p \<noteq> indexPath (Name c) f) \<longrightarrow>
       map_of (indexFiles disk') p = map_of (indexFiles disk) p)"
proof (induction fs arbitrary: c disk)
  case Nil
  then show ?case by simp
next
  case (Cons g fs)
  obtain bt where bt: "indexDocs enc g (All c) (NewBPlusTree 64) = Some bt"
    using Cons.prems(1) by (auto split: option.splits)
  let ?c = "c\<lparr>Indexes := mapPut g bt (Indexes c)\<rparr>"
  obtain e d1 where sv: "SaveIndex ?c disk g = (e, d1)" by (cases "SaveIndex ?c disk g")
  have e: "e = None" using Cons.prems(1) bt sv by (auto split: option.splits)
  have rec: "rebuildFields enc ?c d1 fs = (None, c', disk')"
    using Cons.prems(1) bt sv e by simp
  have d: "distinct fs" and gn: "g \<notin> set fs" using Cons.prems(2) by simp_all
  have IH: "(\<forall>f \<in> set fs. \<exists>bt idx. map_of (Indexes c') f = Some bt \<and>
       serializeBTree bt f 64 = Some idx \<and>
       map_of (indexFiles disk') (indexPath (Name ?c) f) = Some idx) \<and>
   (\<forall>p. (\<forall>f \<in> set fs. p \<noteq> indexPath (Name ?c) f) \<longrightarrow>
       map_of (indexFiles disk') p = map_of (indexFiles d1) p)"
    by (rule Cons.IH [OF rec d])
  obtain b0 idx where s: "map_of (Indexes ?c) g = Some b0" "serializeBTree b0 g 64 = Some idx"
    "d1 = disk\<lparr>indexFiles := mapPut (indexPath (Name ?c) g) idx (indexFiles disk)\<rparr>"
    using SaveIndex_file [of ?c disk g d1] sv e by auto
  have b0: "b0 = bt" using s(1) by (simp add: map_of_mapPut)
  have R: "\<forall>f. f \<notin> set fs \<longrightarrow> map_of (Indexes c') f = map_of (Indexes ?c) f"
    using rebuildFields_result [OF rec] by blast
  have ig: "map_of (Indexes c') g = Some bt" using R gn by (simp add: map_of_mapPut)
  have pg: "\<forall>f \<in> set fs. indexPath (Name c) g \<noteq> indexPath (Name c) f"
    using gn indexPath_inj by blast
  have fg: "map_of (indexFiles disk') (indexPath (Name c) g) = Some idx"
    using IH pg s(3) by (simp add: map_of_mapPut)
  have first: "\<forall>f \<in> set (g # fs). \<exists>bt idx. map_of (Indexes c') f = Some bt \<and>
       serializeBTree bt f 64 = Some idx \<and>
       map_of (indexFiles disk') (indexPath (Name c) f) = Some idx"
    using ig s(2) b0 fg IH by simp
  have frame: "map_of (indexFiles disk') p = map_of (indexFiles disk) p"
    if p: "\<forall>f \<in> set (g # fs). p \<noteq> indexPath (Name c) f" for p
  proof -
    have "map_of (indexFiles disk') p = map_of (indexFiles d1) p" using IH p by simp
    also have "\<dots> = map_of (indexFiles disk) p" using s(3) p by (simp add: map_of_mapPut)
    finally show ?thesis .
  qed
  show ?case using first frame by blast
qed

lemma cmdDelete_files:
  assumes cmd: "cmdDelete enc matches disk dbName conditions = Inr (c', disk', n)"
    and ix: "map_of (Indexes c') f = Some btree"
  shows "\<exists>idx tree'. map_of (indexFiles disk') (indexPath dbName f) = Some idx \<and>
           Field idx = f \<and> Order idx = 64 \<and> deserializeBTree idx = Some tree' \<and>
           (\<forall>k. Search tree' k = Search btree k)"
proof -
  obtain c0 where lc: "LoadCollection disk dbName = Inr c0"
    using cmd by (auto simp: cmdDelete_def split: sum.splits)
  obtain e1 c1 where li: "LoadAllIndexes c0 disk = (e1, c1)" by (cases "LoadAllIndexes c0 disk")
  have dr: "deleteAndRebuild enc matches c1 disk conditions = Inr (c', disk', n)"
    using cmd lc li by (auto simp: cmdDelete_def split: option.splits)
  have nm1: "Name c1 = dbName"
    using LoadCollection_result [OF lc] LoadAllIndexes_keeps [OF li] by simp
  obtain c2 n2 where dm: "deleteMatching matches conditions (All c1) c1 0 = (c2, n2)"
    by (cases "deleteMatching matches conditions (All c1) c1 0")
  obtain e2 d2 where sv: "Save c2 disk = (e2, d2)" by (cases "Save c2 disk")
  obtain e3 c3 d3 where rb: "RebuildAllIndexes enc c2 d2 = (e3, c3, d3)"
    by (cases "RebuildAllIndexes enc c2 d2")
  have e: "e2 = None" "e3 = None" "c' = c3" "disk' = d3"
    using dr dm sv rb by (auto simp: deleteAndRebuild_def split: option.splits)
  have nm2: "Name c2 = dbName" using deleteMatching_result [OF dm] nm1 by simp
  let ?fs = "mapKeys (Indexes c2)"
  have r: "rebuildFields enc (c2\<lparr>Indexes := []\<rparr>) d2 ?fs = (None, c', disk')"
    using rb e by (simp add: RebuildAllIndexes_def)
  have di: "distinct ?fs" by (simp add: mapKeys_def)
  note F = rebuildFields_files [OF r di]
  note R = rebuildFields_result [OF r]
  have fin: "f \<in> set ?fs"
  proof (rule ccontr)
    assume "f \<notin> set ?fs"
    then have "map_of (Indexes c') f = map_of (Indexes (c2\<lparr>Indexes := []\<rparr>)) f" using R by blast
    then show False using ix by simp
  qed
  obtain bt idx where b: "map_of (Indexes c') f = Some bt" "serializeBTree bt f 64 = Some idx"
    "map_of (indexFiles disk') (indexPath (Name (c2\<lparr>Indexes := []\<rparr>)) f) = Some idx"
    using F fin by blast
  have eq: "bt = btree" using b(1) ix by simp
  have "indexDocs enc f (All c') (NewBPlusTree 64) = Some btree"
    using cmdDelete_result [OF cmd] ix by blast
  then obtain kvs where "insertAll (NewBPlusTree 64) kvs = Some btree"
    using indexDocs_built by blast
  then obtain t where h: "holds btree t" using built_good [OF ordOK_64, of kvs] by auto
  obtain idx' tree' where rt: "serializeBTree btree f 64 = Some idx'" "Field idx' = f"
    "Order idx' = 64" "deserializeBTree idx' = Some tree'" "\<forall>key. Search tree' key = Search btree key"
    using roundtrip [OF h, of f 64] by blast
  have "idx' = idx" using rt(1) b(2) eq by simp
  then show ?thesis using rt b(3) nm2 by auto
qed

section \<open>The claims\<close>

text \<open>
  Claim C7.  For every collection and every document id, \<^verbatim>\<open>Collection.Delete(id)\<close>
  leaves every index as it is: \<^verbatim>\<open>updateIndexesOnDelete\<close> returns the collection
  unchanged, and \<^verbatim>\<open>Delete\<close> changes nothing but the document store, from which it
  removes the id when the store holds a document under it.
\<close>

theorem Delete_keeps_indexes:
  "Indexes (fst (Delete c ident)) = Indexes c \<and>
   Name (fst (Delete c ident)) = Name c \<and>
   updateIndexesOnDelete c ident doc = c \<and>
   Data (fst (Delete c ident)) =
     (if GetByID c ident = None then Data c else fst (Remove (Data c) ident))"
  by (simp add: Delete_def updateIndexesOnDelete_def split: option.split prod.split)

text \<open>
  Claim C8.  When an index on the field exists, \<^verbatim>\<open>CreateIndex(field, order)\<close> returns
  the error that says so, and the collection (its indexes and its document store) and
  the disk are as before: no tree is built, registered or saved.
\<close>

theorem CreateIndex_existing:
  "HasIndex c fieldName \<Longrightarrow>
   CreateIndex enc c disk fieldName ord = (Some (IndexAlreadyExists fieldName), c, disk)"
  by (simp add: CreateIndex_def HasIndex_def)

theorem CreateIndex_existing_witness:
  "HasIndex
     \<lparr>Name = ''db'', Data = [(''1'', JObj [(''_id'', JStr ''1''), (''age'', JStr ''x'')])],
      Indexes = [(''age'', NewBPlusTree 64)]\<rparr> ''age'' \<and>
   CreateIndex ValueToKey
     \<lparr>Name = ''db'', Data = [(''1'', JObj [(''_id'', JStr ''1''), (''age'', JStr ''x'')])],
      Indexes = [(''age'', NewBPlusTree 64)]\<rparr>
     \<lparr>dataFiles = [], indexFiles = [], ioFails = (\<lambda>_. False)\<rparr> ''age'' 3 =
     (Some (IndexAlreadyExists ''age''),
      \<lparr>Name = ''db'', Data = [(''1'', JObj [(''_id'', JStr ''1''), (''age'', JStr ''x'')])],
       Indexes = [(''age'', NewBPlusTree 64)]\<rparr>,
      \<lparr>dataFiles = [], indexFiles = [], ioFails = (\<lambda>_. False)\<rparr>)"
proof -
  have h: "HasIndex
     \<lparr>Name = ''db'', Data = [(''1'', JObj [(''_id'', JStr ''1''), (''age'', JStr ''x'')])],
      Indexes = [(''age'', NewBPlusTree 64)]\<rparr> ''age''"
    by (simp add: HasIndex_def)
  show ?thesis using h CreateIndex_existing [OF h] by simp
qed

text \<open>
  Claim C6.  In a B+tree of order \<open>m\<close> built from the empty tree by any sequence of
  \<^verbatim>\<open>Insert\<close> calls, every call returns and every node, leaf or internal, then holds at
  most \<open>2m - 1\<close> keys; the order is one for which \<^verbatim>\<open>order*2-1\<close> does not overflow and is
  positive, \<open>1 \<le> m < 2\<^sup>6\<^sup>2\<close>, and all allocated nodes are nodes of the tree, so the
  bound is stated for every allocated address.  One more \<^verbatim>\<open>Insert(k, v)\<close> returns, keeps
  the bound and stores \<open>k\<close> in the leaf that \<^verbatim>\<open>findLeaf\<close> then reaches for \<open>k\<close>.  Every node
  \<open>x\<close> that this call allocates is the new root, with one key and two children, or the
  right half of a node \<open>a\<close> of the tree before the call that the call has split: the
  keys \<open>ks\<close> of \<open>a\<close> with the one key that the call added to them are more than \<open>2m - 1\<close>,
  \<open>a\<close> keeps the keys before the midpoint \<open>len(ks) / 2\<close>, \<open>x\<close> has the keys from the
  midpoint on when \<open>a\<close> is a leaf, which then has \<open>x\<close> as its next leaf, and the keys
  after the midpoint when \<open>a\<close> is an internal node, and \<open>x\<close> is a child of its parent.
\<close>

theorem insert_key_bound:
  assumes "1 \<le> sint ord" and "sint ord < 2 ^ 62"
  shows "\<exists>tree tree'.
           insertAll (NewBPlusTree ord) kvs = Some tree \<and> order tree = ord \<and>
           (\<forall>a < nalloc tree. int (length (keys (heap tree a))) \<le> 2 * sint ord - 1) \<and>
           Insert tree k v = Some tree' \<and> order tree' = ord \<and>
           (\<forall>a < nalloc tree'. int (length (keys (heap tree' a))) \<le> 2 * sint ord - 1) \<and>
           (\<exists>r leaf. root tree' = Some r \<and> findLeaf (heap tree') r k = Some leaf \<and>
               isLeaf (heap tree' leaf) \<and> k \<in> set (keys (heap tree' leaf))) \<and>
           (\<forall>x. nalloc tree \<le> x \<and> x < nalloc tree' \<longrightarrow>
              (root tree' = Some x \<and> \<not> isLeaf (heap tree' x) \<and>
               length (keys (heap tree' x)) = 1 \<and> length (children (heap tree' x)) = 2) \<or>
              (\<exists>a pos k' p ks.
                 a < nalloc tree \<and>
                 ks = take pos (keys (heap tree a)) @ k' # drop pos (keys (heap tree a)) \<and>
                 int (length ks) > 2 * sint ord - 1 \<and>
                 keys (heap tree' a) = take (length ks div 2) ks \<and>
                 keys (heap tree' x) =
                   drop (length ks div 2 + (if isLeaf (heap tree' x) then 0 else 1)) ks \<and>
                 isLeaf (heap tree a) = isLeaf (heap tree' x) \<and>
                 isLeaf (heap tree' a) = isLeaf (heap tree' x) \<and>
                 (isLeaf (heap tree' x) \<longrightarrow> nxt (heap tree' a) = Some x) \<and>
                 parent (heap tree' x) = Some p \<and> \<not> isLeaf (heap tree' p) \<and>
                 x \<in> set (children (heap tree' p))))"
proof -
  have ok: "ordOK ord" using assms by (simp add: ordOK_def)
  obtain tree t where t: "insertAll (NewBPlusTree ord) kvs = Some tree" "holds tree t"
    "good ord t" "order tree = ord"
    using built_good [OF ok, of kvs] by blast
  have ok': "ordOK (order tree)" and g': "good (order tree) t" using ok t(3,4) by simp_all
  obtain tree' t' where t': "Insert tree k v = Some tree'" "holds tree' t'" "good ord t'"
    "order tree' = ord" "entries t' = addEntry k v (entries t)"
    using Insert_good [OF ok' t(2) g', of k v] t(4) by auto
  have eq: "int (2 * nat (sint ord) - 1) = 2 * sint ord - 1" using assms(1) by linarith
  have bound: "\<forall>a < nalloc T. int (length (keys (heap T a))) \<le> 2 * sint ord - 1"
    if "holds T u" "good ord u" for T u
  proof -
    have "\<forall>a \<in> set (addrs u). length (keys (heap T a)) \<le> 2 * nat (sint ord) - 1"
      using rep_bounded [of "heap T" None u] that by (simp add: holds_def good_def)
    moreover have "set (addrs u) = {..<nalloc T}" using that(1) by (simp add: holds_def)
    ultimately show ?thesis using eq by (metis lessThan_iff of_nat_le_iff)
  qed
  have b1: "\<forall>a < nalloc tree. int (length (keys (heap tree a))) \<le> 2 * sint ord - 1"
    by (rule bound [OF t(2,3)])
  have b2: "\<forall>a < nalloc tree'. int (length (keys (heap tree' a))) \<le> 2 * sint ord - 1"
    by (rule bound [OF t'(2,3)])
  have so: "sorted_wrt (<) (map fst (entries t))" using t(3) by (simp add: good_def)
  have ord': "ordered t'" using t'(3) by (simp add: good_def)
  have "lookupE (entries t') k \<noteq> []" using lookupE_addEntry [OF so, of k v k] t'(5) by simp
  then have st: "\<exists>r leaf. root tree' = Some r \<and> findLeaf (heap tree') r k = Some leaf \<and>
               isLeaf (heap tree' leaf) \<and> k \<in> set (keys (heap tree' leaf))"
    using found_leaf [OF t'(2) ord', of k] by blast
  have sp: "(root tree' = Some x \<and> \<not> isLeaf (heap tree' x) \<and>
               length (keys (heap tree' x)) = 1 \<and> length (children (heap tree' x)) = 2) \<or>
              (\<exists>a pos k' p ks.
                 a < nalloc tree \<and>
                 ks = take pos (keys (heap tree a)) @ k' # drop pos (keys (heap tree a)) \<and>
                 int (length ks) > 2 * sint ord - 1 \<and>
                 keys (heap tree' a) = take (length ks div 2) ks \<and>
                 keys (heap tree' x) =
                   drop (length ks div 2 + (if isLeaf (heap tree' x) then 0 else 1)) ks \<and>
                 isLeaf (heap tree a) = isLeaf (heap tree' x) \<and>
                 isLeaf (heap tree' a) = isLeaf (heap tree' x) \<and>
                 (isLeaf (heap tree' x) \<longrightarrow> nxt (heap tree' a) = Some x) \<and>
                 parent (heap tree' x) = Some p \<and> \<not> isLeaf (heap tree' p) \<and>
                 x \<in> set (children (heap tree' p)))"
    if x: "nalloc tree \<le> x" "x < nalloc tree'" for x
  proof -
    have ov: "overfull ord ks \<longleftrightarrow> int (length ks) > 2 * sint ord - 1" for ks
      using overfull_iff [OF ok, of ks] by auto
    show ?thesis
      using Insert_splits [OF ok' t(2) g' t'(1) x]
      unfolding t(4) ov insAt_def by blast
  qed
  show ?thesis using t(1,4) b1 t'(1,4) b2 st sp by blast
qed

theorem insert_key_bound_witness:
  "1 \<le> sint (2 :: 64 word) \<and> sint (2 :: 64 word) < 2 ^ 62 \<and>
   (\<exists>tree tree'.
      insertAll (NewBPlusTree 2) [(''b'', ''1''), (''a'', ''2''), (''d'', ''3'')] = Some tree \<and>
      Insert tree ''c'' ''4'' = Some tree' \<and>
      nalloc tree = 1 \<and> nalloc tree' = 3 \<and> root tree' = Some 2 \<and>
      keys (heap tree 0) = [''a'', ''b'', ''d''] \<and>
      keys (heap tree' 0) = [''a'', ''b''] \<and> keys (heap tree' 1) = [''c'', ''d''] \<and>
      keys (heap tree' 2) = [''c''] \<and>
      (\<forall>a < nalloc tree'. int (length (keys (heap tree' a))) \<le> 2 * sint (2 :: 64 word) - 1) \<and>
      (\<exists>a pos k' p ks.
         a < nalloc tree \<and>
         ks = take pos (keys (heap tree a)) @ k' # drop pos (keys (heap tree a)) \<and>
         int (length ks) > 2 * sint (2 :: 64 word) - 1 \<and>
         keys (heap tree' a) = take (length ks div 2) ks \<and>
         keys (heap tree' 1) = drop (length ks div 2 + (if isLeaf (heap tree' 1) then 0 else 1)) ks \<and>
         isLeaf (heap tree a) = isLeaf (heap tree' 1) \<and>
         isLeaf (heap tree' a) = isLeaf (heap tree' 1) \<and>
         (isLeaf (heap tree' 1) \<longrightarrow> nxt (heap tree' a) = Some 1) \<and>
         parent (heap tree' 1) = Some p \<and> \<not> isLeaf (heap tree' p) \<and>
         1 \<in> set (children (heap tree' p))))"
proof -
  have h: "1 \<le> sint (2 :: 64 word)" "sint (2 :: 64 word) < 2 ^ 62" by simp_all
  let ?kvs = "[(''b'', ''1''), (''a'', ''2''), (''d'', ''3'')]"
  obtain tree tree' where r:
    "insertAll (NewBPlusTree 2) ?kvs = Some tree"
    "Insert tree ''c'' ''4'' = Some tree'"
    "\<forall>a < nalloc tree'. int (length (keys (heap tree' a))) \<le> 2 * sint (2 :: 64 word) - 1"
    "\<forall>x. nalloc tree \<le> x \<and> x < nalloc tree' \<longrightarrow>
         (root tree' = Some x \<and> \<not> isLeaf (heap tree' x) \<and>
          length (keys (heap tree' x)) = 1 \<and> length (children (heap tree' x)) = 2) \<or>
         (\<exists>a pos k' p ks.
            a < nalloc tree \<and>
            ks = take pos (keys (heap tree a)) @ k' # drop pos (keys (heap tree a)) \<and>
            int (length ks) > 2 * sint (2 :: 64 word) - 1 \<and>
            keys (heap tree' a) = take (length ks div 2) ks \<and>
            keys (heap tree' x) =
              drop (length ks div 2 + (if isLeaf (heap tree' x) then 0 else 1)) ks \<and>
            isLeaf (heap tree a) = isLeaf (heap tree' x) \<and>
            isLeaf (heap tree' a) = isLeaf (heap tree' x) \<and>
            (isLeaf (heap tree' x) \<longrightarrow> nxt (heap tree' a) = Some x) \<and>
            parent (heap tree' x) = Some p \<and> \<not> isLeaf (heap tree' p) \<and>
            x \<in> set (children (heap tree' p)))"
    using insert_key_bound [OF h, of ?kvs "''c''" "''4''"] by blast
  have "map_option (\<lambda>t. (nalloc t, keys (heap t 0))) (insertAll (NewBPlusTree 2) ?kvs) =
      Some (1, [''a'', ''b'', ''d''])"
    by code_simp
  then have c1: "nalloc tree = 1" "keys (heap tree 0) = [''a'', ''b'', ''d'']"
    unfolding r(1) by simp_all
  have "map_option (\<lambda>t. (nalloc t, root t, keys (heap t 0), keys (heap t 1), keys (heap t 2)))
      (Option.bind (insertAll (NewBPlusTree 2) ?kvs) (\<lambda>t. Insert t ''c'' ''4'')) =
      Some (3, Some 2, [''a'', ''b''], [''c'', ''d''], [''c''])"
    by code_simp
  then have c2: "nalloc tree' = 3" "root tree' = Some 2" "keys (heap tree' 0) = [''a'', ''b'']"
    "keys (heap tree' 1) = [''c'', ''d'']" "keys (heap tree' 2) = [''c'']"
    unfolding r(1) by (simp_all add: r(2))
  have "nalloc tree \<le> 1 \<and> 1 < nalloc tree'" using c1 c2 by simp
  then have "(root tree' = Some 1 \<and> \<not> isLeaf (heap tree' 1) \<and>
          length (keys (heap tree' 1)) = 1 \<and> length (children (heap tree' 1)) = 2) \<or>
         (\<exists>a pos k' p ks.
            a < nalloc tree \<and>
            ks = take pos (keys (heap tree a)) @ k' # drop pos (keys (heap tree a)) \<and>
            int (length ks) > 2 * sint (2 :: 64 word) - 1 \<and>
            keys (heap tree' a) = take (length ks div 2) ks \<and>
            keys (heap tree' 1) =
              drop (length ks div 2 + (if isLeaf (heap tree' 1) then 0 else 1)) ks \<and>
            isLeaf (heap tree a) = isLeaf (heap tree' 1) \<and>
            isLeaf (heap tree' a) = isLeaf (heap tree' 1) \<and>
            (isLeaf (heap tree' 1) \<longrightarrow> nxt (heap tree' a) = Some 1) \<and>
            parent (heap tree' 1) = Some p \<and> \<not> isLeaf (heap tree' p) \<and>
            1 \<in> set (children (heap tree' p)))"
    using r(4) by blast
  moreover have "root tree' \<noteq> Some 1" using c2(2) by simp
  ultimately have sp: "\<exists>a pos k' p ks.
            a < nalloc tree \<and>
            ks = take pos (keys (heap tree a)) @ k' # drop pos (keys (heap tree a)) \<and>
            int (length ks) > 2 * sint (2 :: 64 word) - 1 \<and>
            keys (heap tree' a) = take (length ks div 2) ks \<and>
            keys (heap tree' 1) =
              drop (length ks div 2 + (if isLeaf (heap tree' 1) then 0 else 1)) ks \<and>
            isLeaf (heap tree a) = isLeaf (heap tree' 1) \<and>
            isLeaf (heap tree' a) = isLeaf (heap tree' 1) \<and>
            (isLeaf (heap tree' 1) \<longrightarrow> nxt (heap tree' a) = Some 1) \<and>
            parent (heap tree' 1) = Some p \<and> \<not> isLeaf (heap tree' p) \<and>
            1 \<in> set (children (heap tree' p))"
    by blast
  show ?thesis
    apply (intro conjI h)
    apply (rule exI [of _ tree])
    apply (rule exI [of _ tree'])
    apply (intro conjI r(1,2,3) c1 c2 sp)
    done
qed

text \<open>
  Claim C9.  In a B+tree built by \<^verbatim>\<open>Insert\<close> calls (of an order \<open>1 \<le> m < 2\<^sup>6\<^sup>2\<close>),
  \<^verbatim>\<open>Search(k)\<close> returns the values inserted at \<open>k\<close> in the order of their insertion;
  after one more \<^verbatim>\<open>Insert(k, v)\<close> it returns that list with \<open>v\<close> appended, which is
  \<open>[v]\<close> when \<open>k\<close> was absent; and the leaf that then holds \<open>k\<close> has its keys in
  strictly ascending order.
\<close>

theorem insert_then_search:
  assumes "1 \<le> sint ord" and "sint ord < 2 ^ 62"
    and "insertAll (NewBPlusTree ord) kvs = Some tree"
  shows "\<exists>tree' r leaf.
           Insert tree k v = Some tree' \<and>
           Search tree k = Some (map snd (filter (\<lambda>kv. fst kv = k) kvs)) \<and>
           Search tree' k = Some (map snd (filter (\<lambda>kv. fst kv = k) kvs) @ [v]) \<and>
           root tree' = Some r \<and> findLeaf (heap tree') r k = Some leaf \<and>
           isLeaf (heap tree' leaf) \<and> k \<in> set (keys (heap tree' leaf)) \<and>
           sorted_wrt (<) (keys (heap tree' leaf))"
proof -
  have ok: "ordOK ord" using assms by (simp add: ordOK_def)
  obtain tree0 t where t: "insertAll (NewBPlusTree ord) kvs = Some tree0" "holds tree0 t"
    "good ord t" "order tree0 = ord" "entries t = addEntries kvs []"
    using built_good [OF ok, of kvs] by blast
  have eq: "tree0 = tree" using t(1) assms(3) by simp
  have so: "sorted_wrt (<) (map fst (entries t))" and ord: "ordered t"
    using t(3) by (simp_all add: good_def)
  obtain tree' t' where t': "Insert tree k v = Some tree'" "holds tree' t'" "good ord t'"
    "entries t' = addEntry k v (entries t)"
    using Insert_good [of tree t k v] t eq ok by auto
  have ord': "ordered t'" using t'(3) by (simp add: good_def)
  have old: "lookupE (entries t) k = map snd (filter (\<lambda>kv. fst kv = k) kvs)"
    using lookupE_addEntries [of "[]" kvs k] t(5) by (simp add: lookupE_def)
  have s1: "Search tree k = Some (map snd (filter (\<lambda>kv. fst kv = k) kvs))"
    using Search_entries [of tree t k] t(2) eq ord old by simp
  have new: "lookupE (entries t') k = map snd (filter (\<lambda>kv. fst kv = k) kvs) @ [v]"
    using lookupE_addEntry [OF so, of k v k] t'(4) old by simp
  have s2: "Search tree' k = Some (map snd (filter (\<lambda>kv. fst kv = k) kvs) @ [v])"
    using Search_entries [OF t'(2) ord', of k] new by simp
  obtain r leaf where "root tree' = Some r" "findLeaf (heap tree') r k = Some leaf"
    "isLeaf (heap tree' leaf)" "sorted_wrt (<) (keys (heap tree' leaf))"
    "k \<in> set (keys (heap tree' leaf))"
    using found_leaf [OF t'(2) ord', of k] new by auto
  then show ?thesis using t'(1) s1 s2 by blast
qed

theorem insert_then_search_witness:
  "1 \<le> sint (1 :: 64 word) \<and> sint (1 :: 64 word) < 2 ^ 62 \<and>
   insertAll (NewBPlusTree 1) [(''b'', ''1''), (''a'', ''2''), (''b'', ''3'')] \<noteq> None \<and>
   (\<exists>tree tree' r leaf.
      insertAll (NewBPlusTree 1) [(''b'', ''1''), (''a'', ''2''), (''b'', ''3'')] = Some tree \<and>
      Insert tree ''b'' ''4'' = Some tree' \<and>
      Search tree ''b'' = Some [''1'', ''3''] \<and>
      Search tree' ''b'' = Some [''1'', ''3'', ''4''] \<and>
      root tree' = Some r \<and> findLeaf (heap tree') r ''b'' = Some leaf \<and>
      isLeaf (heap tree' leaf) \<and> ''b'' \<in> set (keys (heap tree' leaf)) \<and>
      sorted_wrt (<) (keys (heap tree' leaf)))"
proof -
  have h: "1 \<le> sint (1 :: 64 word)" "sint (1 :: 64 word) < 2 ^ 62" by simp_all
  have "ordOK 1" by (simp add: ordOK_def)
  then obtain tree where t: "insertAll (NewBPlusTree 1) [(''b'', ''1''), (''a'', ''2''), (''b'', ''3'')] = Some tree"
    using built_good [of 1 "[(''b'', ''1''), (''a'', ''2''), (''b'', ''3'')]"] by blast
  show ?thesis
    using h t insert_then_search [OF h t, of "''b''" "''4''"] by auto
qed

text \<open>
  Claim C3.  In a B+tree built by \<^verbatim>\<open>Insert\<close> calls (of an order \<open>1 \<le> m < 2\<^sup>6\<^sup>2\<close>),
  \<^verbatim>\<open>RangeSearch(lo, hi, incLo, incHi)\<close> returns, for the inserted keys \<open>k\<close> in ascending
  order that satisfy \<open>(lo < k \<or> (k = lo \<and> incLo)) \<and> (k < hi \<or> (k = hi \<and> incHi))\<close> (an absent
  bound holds of every key), the values inserted at \<open>k\<close>, in the order of their insertion,
  and of no other key.
\<close>

theorem range_search_correct:
  assumes "1 \<le> sint ord" and "sint ord < 2 ^ 62"
  shows "\<exists>tree. insertAll (NewBPlusTree ord) kvs = Some tree \<and>
           RangeSearch tree lo hi incLo incHi =
             Some (concat (map (\<lambda>k. map snd (filter (\<lambda>kv. fst kv = k) kvs))
                     (filter (\<lambda>k. (case lo of None \<Rightarrow> True | Some l \<Rightarrow> l < k \<or> (k = l \<and> incLo)) \<and>
                                  (case hi of None \<Rightarrow> True | Some u \<Rightarrow> k < u \<or> (k = u \<and> incHi)))
                        (sorted_list_of_set (fst ` set kvs)))))"
proof -
  have ok: "ordOK ord" using assms by (simp add: ordOK_def)
  have "inRange lo hi incLo incHi =
      (\<lambda>k. (case lo of None \<Rightarrow> True | Some l \<Rightarrow> l < k \<or> (k = l \<and> incLo)) \<and>
           (case hi of None \<Rightarrow> True | Some u \<Rightarrow> k < u \<or> (k = u \<and> incHi)))"
    by (rule ext) (simp add: inRange_def)
  then show ?thesis using RangeSearch_built [OF ok, of kvs lo hi incLo incHi] by simp
qed

theorem range_search_correct_witness:
  "1 \<le> sint (1 :: 64 word) \<and> sint (1 :: 64 word) < 2 ^ 62 \<and>
   (\<exists>tree. insertAll (NewBPlusTree 1)
              [(''c'', ''1''), (''a'', ''2''), (''d'', ''3''), (''b'', ''4''), (''c'', ''5'')] = Some tree \<and>
      RangeSearch tree (Some ''b'') (Some ''d'') True False = Some [''4'', ''1'', ''5''])"
proof -
  have h: "1 \<le> sint (1 :: 64 word)" "sint (1 :: 64 word) < 2 ^ 62" by simp_all
  have s: "sorted_list_of_set (fst ` set
      [(''c'', ''1''), (''a'', ''2''), (''d'', ''3''), (''b'', ''4''), (''c'', ''5'')]) =
      [''a'', ''b'', ''c'', ''d'']"
    by code_simp
  show ?thesis
    using h range_search_correct [OF h, of
      "[(''c'', ''1''), (''a'', ''2''), (''d'', ''3''), (''b'', ''4''), (''c'', ''5'')]"
      "Some ''b''" "Some ''d''" True False]
    unfolding s by simp
qed

text \<open>
  Claim C4.  For a B+tree built by \<^verbatim>\<open>Insert\<close> calls (of an order \<open>1 \<le> m < 2\<^sup>6\<^sup>2\<close>),
  \<^verbatim>\<open>serializeBTree\<close> returns an index file, whatever field name and order it is given,
  \<^verbatim>\<open>deserializeBTree\<close> returns a tree for that file, and \<^verbatim>\<open>Search(k)\<close> in that tree
  returns for every key \<open>k\<close> what it returns in the original tree: the values inserted
  at \<open>k\<close>, in the order of their insertion.
\<close>

theorem serialize_roundtrip:
  assumes "1 \<le> sint ord" and "sint ord < 2 ^ 62"
  shows "\<exists>tree idx tree'.
           insertAll (NewBPlusTree ord) kvs = Some tree \<and>
           serializeBTree tree fieldName ord' = Some idx \<and>
           deserializeBTree idx = Some tree' \<and>
           (\<forall>k. Search tree' k = Search tree k \<and>
                Search tree k = Some (map snd (filter (\<lambda>kv. fst kv = k) kvs)))"
proof -
  have ok: "ordOK ord" using assms by (simp add: ordOK_def)
  obtain tree t where t: "insertAll (NewBPlusTree ord) kvs = Some tree" "holds tree t"
    "good ord t" "order tree = ord" "entries t = addEntries kvs []"
    using built_good [OF ok, of kvs] by blast
  have ord: "ordered t" using t(3) by (simp add: good_def)
  obtain idx tree' where r: "serializeBTree tree fieldName ord' = Some idx"
    "deserializeBTree idx = Some tree'" "\<forall>key. Search tree' key = Search tree key"
    using roundtrip [OF t(2), of fieldName ord'] by blast
  have "Search tree k = Some (map snd (filter (\<lambda>kv. fst kv = k) kvs))" for k
    using Search_entries [OF t(2) ord, of k] lookupE_addEntries [of "[]" kvs k] t(5)
    by (simp add: lookupE_def)
  then show ?thesis using t(1) r by blast
qed

theorem serialize_roundtrip_witness:
  "1 \<le> sint (1 :: 64 word) \<and> sint (1 :: 64 word) < 2 ^ 62 \<and>
   (\<exists>tree idx tree'.
      insertAll (NewBPlusTree 1) [(''b'', ''1''), (''a'', ''2''), (''c'', ''3''), (''b'', ''4'')] = Some tree \<and>
      serializeBTree tree ''age'' 64 = Some idx \<and>
      deserializeBTree idx = Some tree' \<and>
      Search tree' ''b'' = Some [''1'', ''4''] \<and> Search tree ''b'' = Some [''1'', ''4''])"
proof -
  have h: "1 \<le> sint (1 :: 64 word)" "sint (1 :: 64 word) < 2 ^ 62" by simp_all
  obtain tree idx tree' where r:
    "insertAll (NewBPlusTree 1) [(''b'', ''1''), (''a'', ''2''), (''c'', ''3''), (''b'', ''4'')] = Some tree"
    "serializeBTree tree ''age'' 64 = Some idx"
    "deserializeBTree idx = Some tree'"
    "\<forall>k. Search tree' k = Search tree k \<and>
         Search tree k = Some (map snd (filter (\<lambda>kv. fst kv = k)
           [(''b'', ''1''), (''a'', ''2''), (''c'', ''3''), (''b'', ''4'')]))"
    using serialize_roundtrip [OF h, of "[(''b'', ''1''), (''a'', ''2''), (''c'', ''3''), (''b'', ''4'')]" "''age''" 64]
    by blast
  have "Search tree' ''b'' = Some [''1'', ''4'']" "Search tree ''b'' = Some [''1'', ''4'']"
    using r(4) by simp_all
  then show ?thesis using h r(1,2,3) by blast
qed

text \<open>
  Claim C10.  Whatever tree a collection holds for a field, the index file that a
  successful \<^verbatim>\<open>SaveIndex\<close> writes for it carries the field name and the order 64, and
  \<^verbatim>\<open>LoadIndex\<close> of a collection of the same name then returns without error and
  registers a tree of order 64.  In particular, when the collection and the disk are
  those that \<^verbatim>\<open>CreateIndex\<close> left with an order \<open>ord\<close>, the tree in memory has the order
  \<open>ord\<close> and the reloaded one the order 64.
\<close>

theorem saved_order_is_64:
  assumes "SaveIndex c disk fieldName = (None, disk')" and "Name c0 = Name c"
  shows "\<exists>btree idx btree'.
           map_of (Indexes c) fieldName = Some btree \<and>
           map_of (indexFiles disk') (indexPath (Name c) fieldName) = Some idx \<and>
           Field idx = fieldName \<and> Order idx = 64 \<and>
           LoadIndex c0 disk' fieldName =
             (None, c0\<lparr>Indexes := mapPut fieldName btree' (Indexes c0)\<rparr>) \<and>
           order btree' = 64 \<and>
           (\<forall>enc cb ord. CreateIndex enc cb disk fieldName ord = (None, c, disk') \<longrightarrow>
              order btree = ord)"
proof -
  obtain btree where b: "map_of (Indexes c) fieldName = Some btree"
    using SaveIndex_file [OF assms(1)] by blast
  obtain idx btree' where l: "map_of (indexFiles disk') (indexPath (Name c) fieldName) = Some idx"
    "Field idx = fieldName" "Order idx = 64"
    "LoadIndex c0 disk' fieldName = (None, c0\<lparr>Indexes := mapPut fieldName btree' (Indexes c0)\<rparr>)"
    "order btree' = 64"
    using saved_then_loaded [OF assms] by blast
  have "order btree = ord" if cr: "CreateIndex enc cb disk fieldName ord = (None, c, disk')"
    for enc cb ord
  proof -
    obtain bt where r: "indexDocs enc fieldName (All cb) (NewBPlusTree ord) = Some bt"
      "c = cb\<lparr>Indexes := mapPut fieldName bt (Indexes cb)\<rparr>"
      using CreateIndex_result [OF cr] by blast
    have "bt = btree" using b r(2) by (simp add: map_of_mapPut)
    then show ?thesis using indexDocs_order [OF r(1)] by (simp add: NewBPlusTree_def)
  qed
  then show ?thesis using b l by blast
qed

theorem saved_order_is_64_witness:
  "\<exists>c disk' btree idx btree'.
     CreateIndex ValueToKey
       \<lparr>Name = ''db'',
        Data = [(''1'', JObj [(''_id'', JStr ''1''), (''age'', JInt 30)]),
                (''2'', JObj [(''_id'', JStr ''2''), (''age'', JInt 25)])],
        Indexes = []\<rparr>
       \<lparr>dataFiles = [], indexFiles = [], ioFails = (\<lambda>_. False)\<rparr> ''age'' 3 = (None, c, disk') \<and>
     SaveIndex c \<lparr>dataFiles = [], indexFiles = [], ioFails = (\<lambda>_. False)\<rparr> ''age'' = (None, disk') \<and>
     map_of (Indexes c) ''age'' = Some btree \<and> order btree = 3 \<and>
     map_of (indexFiles disk') (indexPath ''db'' ''age'') = Some idx \<and> Order idx = 64 \<and>
     LoadIndex (NewCollection ''db'') disk' ''age'' =
       (None, (NewCollection ''db'')\<lparr>Indexes := [(''age'', btree')]\<rparr>) \<and>
     order btree' = 64"
proof -
  let ?cb = "\<lparr>Name = ''db'',
        Data = [(''1'', JObj [(''_id'', JStr ''1''), (''age'', JInt 30)]),
                (''2'', JObj [(''_id'', JStr ''2''), (''age'', JInt 25)])],
        Indexes = []\<rparr>"
  let ?disk = "\<lparr>dataFiles = [], indexFiles = [], ioFails = (\<lambda>_. False)\<rparr>"
  have ok: "ordOK 3" by (simp add: ordOK_def)
  have ps: "indexPairs ValueToKey ''age'' (All ?cb) =
      Some [(the (ValueToKey (JInt 30)), ''1''), (the (ValueToKey (JInt 25)), ''2'')]"
    by (simp add: All_def Items_def)
  obtain bt disk' where cr: "CreateIndex ValueToKey ?cb ?disk ''age'' 3 =
      (None, ?cb\<lparr>Indexes := mapPut ''age'' bt (Indexes ?cb)\<rparr>, disk')"
    using CreateIndex_total [OF ok _ ps, of ?disk] by auto
  let ?c = "?cb\<lparr>Indexes := mapPut ''age'' bt (Indexes ?cb)\<rparr>"
  have sv: "SaveIndex ?c ?disk ''age'' = (None, disk')"
    using CreateIndex_result [OF cr] by blast
  have nm: "Name (NewCollection ''db'') = Name ?c" by (simp add: NewCollection_def)
  obtain btree idx btree' where r:
    "map_of (Indexes ?c) ''age'' = Some btree"
    "map_of (indexFiles disk') (indexPath (Name ?c) ''age'') = Some idx"
    "Order idx = 64"
    "LoadIndex (NewCollection ''db'') disk' ''age'' =
       (None, (NewCollection ''db'')\<lparr>Indexes := mapPut ''age'' btree' (Indexes (NewCollection ''db''))\<rparr>)"
    "order btree' = 64"
    "\<forall>enc cb ord. CreateIndex enc cb ?disk ''age'' ord = (None, ?c, disk') \<longrightarrow> order btree = ord"
    using saved_order_is_64 [OF sv nm] by blast
  have o: "order btree = 3" using r(6) cr by blast
  have l: "LoadIndex (NewCollection ''db'') disk' ''age'' =
       (None, (NewCollection ''db'')\<lparr>Indexes := [(''age'', btree')]\<rparr>)"
    using r(4) by (simp add: NewCollection_def)
  have p: "map_of (indexFiles disk') (indexPath ''db'' ''age'') = Some idx" using r(2) by simp
  show ?thesis using cr sv r(1,3,5) o l p by blast
qed

text \<open>
  Claim C2.  When the delete command has completed (the matching documents are removed,
  the collection is saved and \<^verbatim>\<open>RebuildAllIndexes\<close> has run without error), every index
  of the collection is the index of the documents that remain: for a field \<open>f\<close> with an
  index and every key \<open>k\<close>, \<^verbatim>\<open>Search(k)\<close> returns exactly the ids \<open>d._id\<close> of the remaining
  documents \<open>d\<close> that have the field \<open>f\<close> with a value of key \<open>k\<close>; every remaining
  document that has the field is found under the key of its value; when every stored
  document carries the id under which it is stored, every id that the index returns is
  the id of a stored document; and the index file that the command leaves for \<open>f\<close> is
  read back by \<^verbatim>\<open>deserializeBTree\<close> as a tree that answers every \<^verbatim>\<open>Search\<close> alike.  The key
  encoding \<^verbatim>\<open>index.ValueToKey\<close> and the matching \<^verbatim>\<open>operators.MatchDocument\<close> are the
  parameters \<open>enc\<close> and \<open>matches\<close>.
\<close>

theorem delete_rebuilds_indexes:
  assumes "cmdDelete enc matches disk dbName conditions = Inr (c', disk', n)"
    and "map_of (Indexes c') f = Some btree"
  shows "(\<forall>k. \<exists>ids. Search btree k = Some ids \<and>
            (\<forall>i. i \<in> set ids \<longleftrightarrow>
               (\<exists>d \<in> set (All c'). \<exists>v. map_of d f = Some v \<and> enc v = Some k \<and>
                  map_of d ''_id'' = Some (JStr i)))) \<and>
         (\<forall>d \<in> set (All c'). \<forall>v. map_of d f = Some v \<longrightarrow>
            (\<exists>k i ids. enc v = Some k \<and> map_of d ''_id'' = Some (JStr i) \<and>
               Search btree k = Some ids \<and> i \<in> set ids)) \<and>
         ((\<forall>(j, v) \<in> set (Data c'). \<forall>d. v = JObj d \<longrightarrow> map_of d ''_id'' = Some (JStr j)) \<longrightarrow>
            (\<forall>k ids. Search btree k = Some ids \<longrightarrow> (\<forall>i \<in> set ids. GetByID c' i \<noteq> None))) \<and>
         (\<exists>idx tree'. map_of (indexFiles disk') (indexPath dbName f) = Some idx \<and>
            Field idx = f \<and> Order idx = 64 \<and> deserializeBTree idx = Some tree' \<and>
            (\<forall>k. Search tree' k = Search btree k))"
proof -
  note R = cmdDelete_result [OF assms(1)]
  have di: "distinct (map fst (Data c'))" using R by (rule conjunct1)
  have "\<forall>f bt. map_of (Indexes c') f = Some bt \<longrightarrow>
            indexDocs enc f (All c') (NewBPlusTree 64) = Some bt"
    using R by (rule conjunct2)
  then have b: "indexDocs enc f (All c') (NewBPlusTree 64) = Some btree"
    using assms(2) by blast
  have S: "\<exists>ids. Search btree k = Some ids \<and>
            (\<forall>i. i \<in> set ids \<longleftrightarrow>
               (\<exists>d \<in> set (All c'). \<exists>v. map_of d f = Some v \<and> enc v = Some k \<and>
                  map_of d ''_id'' = Some (JStr i)))" for k
    by (rule indexDocs_Search [OF b])
  obtain kvs where kvs: "indexPairs enc f (All c') = Some kvs"
    using indexDocs_built [OF b] by blast
  have P: "\<exists>k i ids. enc v = Some k \<and> map_of d ''_id'' = Some (JStr i) \<and>
               Search btree k = Some ids \<and> i \<in> set ids"
    if d: "d \<in> set (All c')" and v: "map_of d f = Some v" for d v
  proof -
    obtain k i where ki: "enc v = Some k" "map_of d ''_id'' = Some (JStr i)"
      using indexPairs_defined [OF kvs d v] by blast
    obtain ids where ids: "Search btree k = Some ids"
      "\<forall>i. i \<in> set ids \<longleftrightarrow>
         (\<exists>d \<in> set (All c'). \<exists>v. map_of d f = Some v \<and> enc v = Some k \<and>
            map_of d ''_id'' = Some (JStr i))"
      using S [of k] by blast
    have "i \<in> set ids" using ids(2) d v ki by blast
    then show ?thesis using ki ids(1) by blast
  qed
  have G: "GetByID c' i \<noteq> None"
    if inv: "\<forall>(j, v) \<in> set (Data c'). \<forall>d. v = JObj d \<longrightarrow> map_of d ''_id'' = Some (JStr j)"
      and s: "Search btree k = Some ids" and i: "i \<in> set ids" for k ids i
  proof -
    obtain ids' where ids': "Search btree k = Some ids'"
      "\<forall>i. i \<in> set ids' \<longleftrightarrow>
         (\<exists>d \<in> set (All c'). \<exists>v. map_of d f = Some v \<and> enc v = Some k \<and>
            map_of d ''_id'' = Some (JStr i))"
      using S [of k] by blast
    have "ids' = ids" using s ids'(1) by simp
    then obtain d where d: "d \<in> set (All c')" "map_of d ''_id'' = Some (JStr i)"
      using ids'(2) i by blast
    obtain j where j: "(j, JObj d) \<in> set (Data c')" using d(1) All_mem [of d c'] by blast
    then have "map_of d ''_id'' = Some (JStr j)" using inv by blast
    then have "j = i" using d(2) by simp
    then show ?thesis using GetByID_distinct [OF di j] by simp
  qed
  show ?thesis
  proof (intro conjI allI ballI impI)
    fix k
    show "\<exists>ids. Search btree k = Some ids \<and>
            (\<forall>i. i \<in> set ids \<longleftrightarrow>
               (\<exists>d \<in> set (All c'). \<exists>v. map_of d f = Some v \<and> enc v = Some k \<and>
                  map_of d ''_id'' = Some (JStr i)))"
      by (rule S)
  next
    fix d v assume "d \<in> set (All c')" "map_of d f = Some v"
    then show "\<exists>k i ids. enc v = Some k \<and> map_of d ''_id'' = Some (JStr i) \<and>
               Search btree k = Some ids \<and> i \<in> set ids"
      by (rule P)
  next
    fix k ids i
    assume "\<forall>(j, v) \<in> set (Data c'). \<forall>d. v = JObj d \<longrightarrow> map_of d ''_id'' = Some (JStr j)"
      "Search btree k = Some ids" "i \<in> set ids"
    then show "GetByID c' i \<noteq> None" by (rule G)
  next
    show "\<exists>idx tree'. map_of (indexFiles disk') (indexPath dbName f) = Some idx \<and>
            Field idx = f \<and> Order idx = 64 \<and> deserializeBTree idx = Some tree' \<and>
            (\<forall>k. Search tree' k = Search btree k)"
      by (rule cmdDelete_files [OF assms])
  qed
qed

theorem delete_rebuilds_indexes_witness:
  "\<exists>c' disk' btree ids.
     cmdDelete ValueToKey MatchDocument
       \<lparr>dataFiles = [(''data/db.json'',
           [(''1'', JObj [(''_id'', JStr ''1''), (''city'', JStr ''Paris'')]),
            (''2'', JObj [(''_id'', JStr ''2''), (''city'', JStr ''Rome'')]),
            (''3'', JObj [(''_id'', JStr ''3''), (''city'', JStr ''Paris'')])])],
        indexFiles = [(''data/indexes/db_city.idx'',
           \<lparr>Field = ''city'', Order = 64,
            Nodes = [\<lparr>IsLeaf = True, Keys = [CHR 0x05 # ''Paris'', CHR 0x05 # ''Rome''],
                      Values = [[''1'', ''3''], [''2'']], Children = []\<rparr>]\<rparr>)],
        ioFails = (\<lambda>_. False)\<rparr> ''db'' [(''city'', JStr ''Rome'')] = Inr (c', disk', 1) \<and>
     map_of (Indexes c') ''city'' = Some btree \<and>
     All c' = [[(''_id'', JStr ''1''), (''city'', JStr ''Paris'')],
               [(''_id'', JStr ''3''), (''city'', JStr ''Paris'')]] \<and>
     Search btree (CHR 0x05 # ''Paris'') = Some ids \<and> set ids = {''1'', ''3''} \<and>
     Search btree (CHR 0x05 # ''Rome'') = Some [] \<and>
     (\<exists>idx tree'. map_of (indexFiles disk') (indexPath ''db'' ''city'') = Some idx \<and>
        deserializeBTree idx = Some tree' \<and>
        Search tree' (CHR 0x05 # ''Paris'') = Some ids)"
proof -
  let ?docs = "[(''1'', JObj [(''_id'', JStr ''1''), (''city'', JStr ''Paris'')]),
                (''2'', JObj [(''_id'', JStr ''2''), (''city'', JStr ''Rome'')]),
                (''3'', JObj [(''_id'', JStr ''3''), (''city'', JStr ''Paris'')])]"
  let ?left = "[(''1'', JObj [(''_id'', JStr ''1''), (''city'', JStr ''Paris'')]),
                (''3'', JObj [(''_id'', JStr ''3''), (''city'', JStr ''Paris'')])]"
  let ?disk = "\<lparr>dataFiles = [(''data/db.json'', ?docs)],
        indexFiles = [(''data/indexes/db_city.idx'',
           \<lparr>Field = ''city'', Order = 64,
            Nodes = [\<lparr>IsLeaf = True, Keys = [CHR 0x05 # ''Paris'', CHR 0x05 # ''Rome''],
                      Values = [[''1'', ''3''], [''2'']], Children = []\<rparr>]\<rparr>)],
        ioFails = (\<lambda>_. False)\<rparr>"
  let ?c0 = "\<lparr>Name = ''db'', Data = ?docs, Indexes = []\<rparr>"
  let ?conds = "[(''city'', JStr ''Rome'')]"
  have lc: "LoadCollection ?disk ''db'' = Inr ?c0"
    by (simp add: LoadCollection_def dataPath_def NewCollection_def Put_def NewHashMap_def)
  obtain bt where li: "LoadAllIndexes ?c0 ?disk =
      (None, \<lparr>Name = ''db'', Data = ?docs, Indexes = [(''city'', bt)]\<rparr>)"
    by (simp add: LoadAllIndexes_def dirEntries_def indexDir_def entryField_def fileExt_def
        LoadIndex_def indexPath_def deserializeBTree_def Let_def)
  let ?c1 = "\<lparr>Name = ''db'', Data = ?docs, Indexes = [(''city'', bt)]\<rparr>"
  let ?c2 = "\<lparr>Name = ''db'', Data = ?left, Indexes = [(''city'', bt)]\<rparr>"
  have dm: "deleteMatching MatchDocument ?conds (All ?c1) ?c1 0 = (?c2, 1)"
    by (simp add: All_def Items_def MatchDocument_def Delete_def GetByID_def Get_def Remove_def
        updateIndexesOnDelete_def)
  have ps: "\<forall>f \<in> set (mapKeys (Indexes ?c1)). indexPairs ValueToKey f (All ?c2) \<noteq> None"
    by (simp add: mapKeys_def All_def Items_def)
  obtain c' disk' where dr: "deleteAndRebuild ValueToKey MatchDocument ?c1 ?disk ?conds =
      Inr (c', disk', 1)"
    using deleteAndRebuild_total [OF dm _ _ _ _ ps, of ?disk] by auto
  have cmd: "cmdDelete ValueToKey MatchDocument ?disk ''db'' ?conds = Inr (c', disk', 1)"
    using lc li dr by (simp add: cmdDelete_def)
  note R = deleteAndRebuild_result [OF dr]
  have da: "Data c' = ?left" using R dm by simp
  have al: "All c' = [[(''_id'', JStr ''1''), (''city'', JStr ''Paris'')],
               [(''_id'', JStr ''3''), (''city'', JStr ''Paris'')]]"
    using da by (simp add: All_def Items_def)
  have "map_of (Indexes ?c1) ''city'' \<noteq> None" by simp
  then have "map_of (Indexes c') ''city'' \<noteq> None" using R by blast
  then obtain btree where ix: "map_of (Indexes c') ''city'' = Some btree" by blast
  note T = delete_rebuilds_indexes [OF cmd ix]
  have S: "\<exists>ids. Search btree k = Some ids \<and>
            (\<forall>i. i \<in> set ids \<longleftrightarrow>
               (\<exists>d \<in> set (All c'). \<exists>v. map_of d ''city'' = Some v \<and> ValueToKey v = Some k \<and>
                  map_of d ''_id'' = Some (JStr i)))" for k
    using T by blast
  obtain ids where p: "Search btree (CHR 0x05 # ''Paris'') = Some ids"
    "\<forall>i. i \<in> set ids \<longleftrightarrow>
       (\<exists>d \<in> set (All c'). \<exists>v. map_of d ''city'' = Some v \<and>
          ValueToKey v = Some (CHR 0x05 # ''Paris'') \<and> map_of d ''_id'' = Some (JStr i))"
    using S [of "CHR 0x05 # ''Paris''"] by blast
  have mem: "i \<in> set ids \<longleftrightarrow> ''1'' = i \<or> ''3'' = i" for i
    using p(2) unfolding al by simp
  have sp: "set ids = {''1'', ''3''}"
  proof (rule set_eqI)
    fix i
    have "(''1'' = i) = (i = ''1'')" "(''3'' = i) = (i = ''3'')" by (rule eq_commute)+
    then show "i \<in> set ids \<longleftrightarrow> i \<in> {''1'', ''3''}"
      using mem [of i] by (simp only: insert_iff empty_iff simp_thms)
  qed
  obtain ids' where q: "Search btree (CHR 0x05 # ''Rome'') = Some ids'"
    "\<forall>i. i \<in> set ids' \<longleftrightarrow>
       (\<exists>d \<in> set (All c'). \<exists>v. map_of d ''city'' = Some v \<and>
          ValueToKey v = Some (CHR 0x05 # ''Rome'') \<and> map_of d ''_id'' = Some (JStr i))"
    using S [of "CHR 0x05 # ''Rome''"] by blast
  have ne: "i \<notin> set ids'" for i
    using q(2) unfolding al by simp
  have "set ids' = {}"
  proof (rule set_eqI)
    fix i show "i \<in> set ids' \<longleftrightarrow> i \<in> {}" using ne [of i] by simp
  qed
  then have sr: "Search btree (CHR 0x05 # ''Rome'') = Some []" using q(1) by simp
  obtain idx tree' where fl: "map_of (indexFiles disk') (indexPath ''db'' ''city'') = Some idx"
    "deserializeBTree idx = Some tree'" "\<forall>k. Search tree' k = Search btree k"
    using T by blast
  have fs: "\<exists>idx tree'. map_of (indexFiles disk') (indexPath ''db'' ''city'') = Some idx \<and>
        deserializeBTree idx = Some tree' \<and>
        Search tree' (CHR 0x05 # ''Paris'') = Some ids"
    using fl p(1) by auto
  show ?thesis
    apply (rule exI [of _ c'])
    apply (rule exI [of _ disk'])
    apply (rule exI [of _ btree])
    apply (rule exI [of _ ids])
    apply (intro conjI cmd ix al p(1) sp sr fs)
    done
qed



text \<open>
  Claim C1.  The index path and the full scan do not always return the same documents.
  For a collection with the one document \<^verbatim>\<open>{"_id": "1", "city": "Paris"}\<close>, an index on
  \<^verbatim>\<open>city\<close> built by \<^verbatim>\<open>CreateIndex\<close>, and the query \<^verbatim>\<open>{"city": {"$in": ["Paris", "Paris"]}}\<close>,
  \<^verbatim>\<open>findWithIndex\<close> returns the document twice (\<^verbatim>\<open>SearchIn\<close> looks up every listed value
  and concatenates), while \<^verbatim>\<open>findFullScan\<close> returns every stored document at most once,
  whatever \<^verbatim>\<open>MatchDocument\<close> answers.  This holds for every key encoding \<open>enc\<close> that
  encodes the string and for every matching function \<open>matches\<close>.
\<close>

theorem index_scan_in_duplicates:
  assumes "enc (JStr ''Paris'') = Some key"
  shows "\<exists>coll disk'.
           CreateIndex enc
             \<lparr>Name = ''db'', Data = [(''1'', JObj [(''_id'', JStr ''1''), (''city'', JStr ''Paris'')])],
              Indexes = []\<rparr>
             \<lparr>dataFiles = [], indexFiles = [], ioFails = (\<lambda>_. False)\<rparr> ''city'' 64 =
             (None, coll, disk') \<and>
           HasIndex coll ''city'' \<and>
           findWithIndex enc coll ''city'' (JObj [(''$in'', JArr [JStr ''Paris'', JStr ''Paris''])]) =
             Some [[(''_id'', JStr ''1''), (''city'', JStr ''Paris'')],
                   [(''_id'', JStr ''1''), (''city'', JStr ''Paris'')]] \<and>
           mset [[(''_id'', JStr ''1''), (''city'', JStr ''Paris'')],
                 [(''_id'', JStr ''1''), (''city'', JStr ''Paris'')]] \<noteq>
           mset (findFullScan matches coll
                   [(''city'', JObj [(''$in'', JArr [JStr ''Paris'', JStr ''Paris''])])])"
proof -
  let ?d = "[(''_id'', JStr ''1''), (''city'', JStr ''Paris'')]"
  let ?c0 = "\<lparr>Name = ''db'', Data = [(''1'', JObj ?d)], Indexes = []\<rparr>"
  let ?disk = "\<lparr>dataFiles = [], indexFiles = [], ioFails = (\<lambda>_. False)\<rparr>"
  let ?cond = "JObj [(''$in'', JArr [JStr ''Paris'', JStr ''Paris''])]"
  have ps: "indexPairs enc ''city'' (All ?c0) = Some [(key, ''1'')]"
    using assms by (simp add: All_def Items_def)
  obtain btree disk' where cr: "CreateIndex enc ?c0 ?disk ''city'' 64 =
      (None, ?c0\<lparr>Indexes := mapPut ''city'' btree (Indexes ?c0)\<rparr>, disk')"
    and bt: "insertAll (NewBPlusTree 64) [(key, ''1'')] = Some btree"
    using CreateIndex_total [OF ordOK_64 _ ps, of ?disk] by auto
  let ?coll = "?c0\<lparr>Indexes := mapPut ''city'' btree (Indexes ?c0)\<rparr>"
  have hi: "HasIndex ?coll ''city''" by (simp add: HasIndex_def)
  have s: "Search btree key = Some [''1'']"
    using built_Search [OF ordOK_64 bt, of key] by simp
  have si: "SearchIn btree [key, key] = Some [''1'', ''1'']" using s by simp
  have g: "GetByID ?coll ''1'' = Some ?d" by (simp add: GetByID_def Get_def)
  have fw: "findWithIndex enc ?coll ''city'' ?cond = Some [?d, ?d]"
    using assms si g
    by (simp add: findWithIndex_def GetIndex_def operatorLookup_def ValuesToStrings_def)
  have "findFullScan matches ?coll [(''city'', ?cond)] = [] \<or>
        findFullScan matches ?coll [(''city'', ?cond)] = [?d]"
    by (simp add: findFullScan_def All_def Items_def)
  then have ne: "mset [?d, ?d] \<noteq> mset (findFullScan matches ?coll [(''city'', ?cond)])"
    by (metis length_Cons list.size(3) n_not_Suc_n nat.simps(3) size_mset)
  show ?thesis
    apply (rule exI [of _ ?coll])
    apply (rule exI [of _ disk'])
    apply (intro conjI cr hi fw ne)
    done
qed

theorem index_scan_in_duplicates_witness:
  "ValueToKey (JStr ''Paris'') = Some (CHR 0x05 # ''Paris'') \<and>
   (\<exists>coll disk'.
      CreateIndex ValueToKey
        \<lparr>Name = ''db'', Data = [(''1'', JObj [(''_id'', JStr ''1''), (''city'', JStr ''Paris'')])],
         Indexes = []\<rparr>
        \<lparr>dataFiles = [], indexFiles = [], ioFails = (\<lambda>_. False)\<rparr> ''city'' 64 =
        (None, coll, disk') \<and>
      HasIndex coll ''city'' \<and>
      findWithIndex ValueToKey coll ''city'' (JObj [(''$in'', JArr [JStr ''Paris'', JStr ''Paris''])]) =
        Some [[(''_id'', JStr ''1''), (''city'', JStr ''Paris'')],
              [(''_id'', JStr ''1''), (''city'', JStr ''Paris'')]] \<and>
      mset [[(''_id'', JStr ''1''), (''city'', JStr ''Paris'')],
            [(''_id'', JStr ''1''), (''city'', JStr ''Paris'')]] \<noteq>
      mset (findFullScan MatchDocument coll
              [(''city'', JObj [(''$in'', JArr [JStr ''Paris'', JStr ''Paris''])])]))"
proof -
  have h: "ValueToKey (JStr ''Paris'') = Some (CHR 0x05 # ''Paris'')" by simp
  show ?thesis
    using h index_scan_in_duplicates [of ValueToKey "CHR 0x05 # ''Paris''" MatchDocument, OF h]
    by (intro conjI)
qed

end
